(* ===== verification/Prelude.thy ===== *)
theory Prelude
  imports Main "HOL-Library.Word"
begin

text \<open>
  Shared ground of the development: the fixed-width integer types of
  \<^verbatim>\<open>include/types.h\<close>, the byte-swapping macros, byte buffers with the
  little-endian loads and stores the C code performs through cast pointers, the memory
  copies it performs with \<^verbatim>\<open>memcpy\<close>, and the loop combinators with which the
  component theories write down the \<^verbatim>\<open>for\<close> loops that can be left early.
\<close>

unbundle bit_operations_syntax

named_theorems buf_simps \<open>lengths and elements of byte buffers after an update\<close>
named_theorems loop_simps \<open>unfolding of the loop and sequencing combinators\<close>

section \<open>Machine integers\<close>

type_synonym u8 = "8 word"
type_synonym u16 = "16 word"
type_synonym u32 = "32 word"
type_synonym u64 = "64 word"

type_synonym buf = "u8 list"

lemma ucast_u32_u8 [simp]: "(ucast (ucast a :: u32) :: u8) = a"
  by transfer simp

lemma ucast_u32_u16 [simp]: "(ucast (ucast a :: u32) :: u16) = a"
  by transfer simp

lemma unat_of_nat_small: "n < 2 ^ LENGTH('a) \<Longrightarrow> unat (of_nat n :: 'a::len word) = n"
  by (simp add: unat_of_nat take_bit_nat_eq_self)

text \<open>The macros \<^verbatim>\<open>SWAP16\<close>, \<^verbatim>\<open>SWAP32\<close> and \<^verbatim>\<open>SWAP64\<close>.\<close>

definition SWAP16 :: "u16 \<Rightarrow> u16" where
  "SWAP16 x = push_bit 8 x OR drop_bit 8 x"

definition SWAP32 :: "u32 \<Rightarrow> u32" where
  "SWAP32 x = push_bit 24 x OR drop_bit 24 x OR (push_bit 8 x AND 0x00FF0000)
     OR (drop_bit 8 x AND 0x0000FF00)"

definition SWAP64 :: "u64 \<Rightarrow> u64" where
  "SWAP64 x =
     (let r1 = push_bit 32 (x AND 0x00000000FFFFFFFF) OR drop_bit 32 (x AND 0xFFFFFFFF00000000);
          r2 = push_bit 16 (r1 AND 0x0000FFFF0000FFFF) OR drop_bit 16 (r1 AND 0xFFFF0000FFFF0000)
      in push_bit 8 (r2 AND 0x00FF00FF00FF00FF) OR drop_bit 8 (r2 AND 0xFF00FF00FF00FF00))"

section \<open>Byte buffers\<close>

lemma nth_list_update_if:
  "xs[i := x] ! j = (if i = j \<and> i < length xs then x else xs ! j)"
  by (cases "i < length xs"; cases "i = j") (auto simp: list_update_beyond)

text \<open>
  A buffer is the list of its bytes. A multi-byte access through a cast pointer is a
  little-endian load or store, as on the x86-64 and aarch64 hosts the fuzzer is built for.
  Like the C code, the accesses do not check their bounds; every use is proved to be in
  bounds where that matters.
\<close>

definition load16 :: "buf \<Rightarrow> nat \<Rightarrow> u16" where
  "load16 b i = ucast (b ! i) OR push_bit 8 (ucast (b ! (i + 1)))"

definition store16 :: "buf \<Rightarrow> nat \<Rightarrow> u16 \<Rightarrow> buf" where
  "store16 b i w = b[i := ucast w, i + 1 := ucast (drop_bit 8 w)]"

definition load32 :: "buf \<Rightarrow> nat \<Rightarrow> u32" where
  "load32 b i = ucast (b ! i) OR push_bit 8 (ucast (b ! (i + 1)))
     OR push_bit 16 (ucast (b ! (i + 2))) OR push_bit 24 (ucast (b ! (i + 3)))"

definition store32 :: "buf \<Rightarrow> nat \<Rightarrow> u32 \<Rightarrow> buf" where
  "store32 b i w = b[i := ucast w, i + 1 := ucast (drop_bit 8 w),
     i + 2 := ucast (drop_bit 16 w), i + 3 := ucast (drop_bit 24 w)]"

text \<open>Byte \<open>k\<close> of a word, counted from the least significant one.\<close>

definition byte_of :: "nat \<Rightarrow> 'a::len word \<Rightarrow> u8" where
  "byte_of k w = ucast (drop_bit (8 * k) w)"

definition load64 :: "buf \<Rightarrow> nat \<Rightarrow> u64" where
  "load64 b i = ucast (load32 b i) OR push_bit 32 (ucast (load32 b (i + 4)))"

text \<open>\<^verbatim>\<open>memcpy(dst + at, src, n)\<close> and \<^verbatim>\<open>memset(dst + at, c, n)\<close>.\<close>

definition copy_at :: "'a list \<Rightarrow> nat \<Rightarrow> 'a list \<Rightarrow> 'a list" where
  "copy_at dst at src = take at dst @ src @ drop (at + length src) dst"

definition fill_at :: "'a list \<Rightarrow> nat \<Rightarrow> 'a \<Rightarrow> nat \<Rightarrow> 'a list" where
  "fill_at dst at c n = copy_at dst at (replicate n c)"

definition slice :: "'a list \<Rightarrow> nat \<Rightarrow> nat \<Rightarrow> 'a list" where
  "slice b at n = take n (drop at b)"

definition store64 :: "buf \<Rightarrow> nat \<Rightarrow> u64 \<Rightarrow> buf" where
  "store64 b i w = copy_at b i (map (\<lambda>k. byte_of k w) [0..<8])"

lemma length_store16 [simp, buf_simps]: "length (store16 b i w) = length b"
  by (simp add: store16_def)

lemma length_store32 [simp, buf_simps]: "length (store32 b i w) = length b"
  by (simp add: store32_def)

lemma length_copy_at [simp, buf_simps]:
  "at + length src \<le> length dst \<Longrightarrow> length (copy_at dst at src) = length dst"
  by (simp add: copy_at_def)

lemma length_fill_at [simp, buf_simps]:
  "at + n \<le> length dst \<Longrightarrow> length (fill_at dst at c n) = length dst"
  by (simp add: fill_at_def)

lemma length_slice [simp, buf_simps]:
  "at + n \<le> length b \<Longrightarrow> length (slice b at n) = n"
  by (simp add: slice_def)

lemma nth_copy_at [buf_simps]:
  assumes "at + length src \<le> length dst" and "k < length dst"
  shows "copy_at dst at src ! k =
    (if at \<le> k \<and> k < at + length src then src ! (k - at) else dst ! k)"
  using assms by (auto simp: copy_at_def nth_append min_def)

lemma nth_slice [buf_simps]: "k < n \<Longrightarrow> at + n \<le> length b \<Longrightarrow> slice b at n ! k = b ! (at + k)"
  by (simp add: slice_def)

lemma copy_at_slice [simp]:
  "at + n \<le> length b \<Longrightarrow> copy_at b at (slice b at n) = b"
  by (rule nth_equalityI) (auto simp: buf_simps)

lemma copy_at_overlay:
  assumes "length x \<le> length y" and "at + length y \<le> length b"
  shows "copy_at (copy_at b at x) at y = copy_at b at y"
  using assms by (intro nth_equalityI) (auto simp: buf_simps)

text \<open>Storing what was loaded, and storing twice.\<close>

lemma store16_load16 [simp]:
  assumes "i + 1 < length b"
  shows "store16 b i (load16 b i) = b"
proof -
  have "ucast (load16 b i) = b ! i"
    by (rule bit_word_eqI) (auto simp: load16_def bit_simps dest: bit_imp_le_length)
  moreover have "ucast (drop_bit 8 (load16 b i)) = b ! (i + 1)"
    by (rule bit_word_eqI) (auto simp: load16_def bit_simps dest: bit_imp_le_length)
  ultimately show ?thesis
    using assms by (simp add: store16_def)
qed

lemma store16_store16 [simp]: "store16 (store16 b i v) i w = store16 b i w"
  by (rule nth_equalityI) (auto simp: store16_def nth_list_update_if)

lemma store32_load32 [simp]:
  assumes "i + 3 < length b"
  shows "store32 b i (load32 b i) = b"
proof -
  have "ucast (load32 b i) = b ! i"
    by (rule bit_word_eqI) (auto simp: load32_def bit_simps dest: bit_imp_le_length)
  moreover have "ucast (drop_bit 8 (load32 b i)) = b ! (i + 1)"
    by (rule bit_word_eqI) (auto simp: load32_def bit_simps dest: bit_imp_le_length)
  moreover have "ucast (drop_bit 16 (load32 b i)) = b ! (i + 2)"
    by (rule bit_word_eqI) (auto simp: load32_def bit_simps dest: bit_imp_le_length)
  moreover have "ucast (drop_bit 24 (load32 b i)) = b ! (i + 3)"
    by (rule bit_word_eqI) (auto simp: load32_def bit_simps dest: bit_imp_le_length)
  ultimately show ?thesis
    using assms by (simp add: store32_def)
qed

lemma store32_store32 [simp]: "store32 (store32 b i v) i w = store32 b i w"
  by (rule nth_equalityI) (auto simp: store32_def nth_list_update_if)

lemma load16_store16 [simp]:
  assumes "i + 1 < length b"
  shows "load16 (store16 b i w) i = w"
  using assms
  by (intro bit_word_eqI) (auto simp: load16_def store16_def bit_simps not_less dest: bit_imp_le_length)

lemma bit_load32: "bit (load32 b i) n \<longleftrightarrow> n < 32 \<and> bit (b ! (i + n div 8)) (n mod 8)"
proof -
  have "n div 8 = 0 \<and> n mod 8 = n" if "n < 8" using that by auto
  moreover have "n div 8 = 1 \<and> n mod 8 = n - 8" if "8 \<le> n" "n < 16" using that by (auto simp: mod_if)
  moreover have "n div 8 = 2 \<and> n mod 8 = n - 16" if "16 \<le> n" "n < 24" using that by (auto simp: mod_if)
  moreover have "n div 8 = 3 \<and> n mod 8 = n - 24" if "24 \<le> n" "n < 32" using that by (auto simp: mod_if)
  ultimately show ?thesis
    by (cases "n < 8"; cases "n < 16"; cases "n < 24"; cases "n < 32")
      (auto simp: load32_def bit_simps impossible_bit)
qed

lemma load32_store32 [simp]:
  assumes "i + 3 < length b"
  shows "load32 (store32 b i w) i = w"
proof (rule bit_word_eqI)
  fix n
  assume n: "n < LENGTH(32)"
  define q where "q = n div 8"
  define r where "r = n mod 8"
  have qr: "n = 8 * q + r" "r < 8" by (simp_all add: q_def r_def)
  then have "q < 4" using n by simp
  then consider "q = 0" | "q = 1" | "q = 2" | "q = 3" by linarith
  then have "bit (store32 b i w ! (i + q)) r \<longleftrightarrow> bit w (8 * q + r)"
    by cases (use assms qr(2) in \<open>simp_all add: store32_def bit_simps\<close>)
  then show "bit (load32 (store32 b i w) i) n = bit w n"
    using n by (simp add: bit_load32 q_def [symmetric] r_def [symmetric] qr(1) [symmetric])
qed

lemma bit_load64: "bit (load64 b i) n \<longleftrightarrow> n < 64 \<and> bit (b ! (i + n div 8)) (n mod 8)"
proof -
  have shift: "(n - 32) div 8 = n div 8 - 4 \<and> (n - 32) mod 8 = n mod 8 \<and> 4 \<le> n div 8" if "32 \<le> n"
  proof -
    define m where "m = n - 32"
    with that have n: "n = m + 4 * 8" by simp
    have "(m + 4 * 8) div 8 = 4 + m div 8" by (rule div_mult_self1) simp
    moreover have "(m + 4 * 8) mod 8 = m mod 8" by (rule mod_mult_self1)
    ultimately show ?thesis unfolding n by simp
  qed
  then show ?thesis
    by (cases "32 \<le> n") (auto simp: load64_def bit_simps bit_load32)
qed

lemma byte_of_load64 [simp]: "k < 8 \<Longrightarrow> byte_of k (load64 b i) = b ! (i + k)"
  by (rule bit_word_eqI) (auto simp: byte_of_def bit_simps bit_load64)

lemma byte_of_and [simp]: "byte_of k (x AND y) = byte_of k x AND byte_of k y"
  by (rule bit_word_eqI) (auto simp: byte_of_def bit_simps)

lemma byte_of_not [simp]: "k < 8 \<Longrightarrow> byte_of k (NOT x) = NOT (byte_of k (x :: u64))"
  by (rule bit_word_eqI) (auto simp: byte_of_def bit_simps)

lemma byte_of_0 [simp]: "byte_of k 0 = 0"
  by (simp add: byte_of_def)

lemma u64_eq_iff_bytes: "x = y \<longleftrightarrow> (\<forall>k<8. byte_of k x = byte_of k y)" for x y :: u64
proof
  assume bytes: "\<forall>k<8. byte_of k x = byte_of k y"
  show "x = y"
  proof (rule bit_word_eqI)
    fix n
    assume "n < LENGTH(64)"
    then have "bit (byte_of (n div 8) x) (n mod 8) = bit (byte_of (n div 8) y) (n mod 8)"
      using bytes by simp
    then show "bit x n = bit y n" by (simp add: byte_of_def bit_simps)
  qed
qed simp

lemma nth_store64 [buf_simps]:
  assumes "i + 8 \<le> length b" and "j < length b"
  shows "store64 b i w ! j = (if i \<le> j \<and> j < i + 8 then byte_of (j - i) w else b ! j)"
  using assms by (auto simp: store64_def nth_copy_at)

lemma length_store64 [simp, buf_simps]: "i + 8 \<le> length b \<Longrightarrow> length (store64 b i w) = length b"
  by (simp add: store64_def)

lemma and_0xff [simp]: "x AND 0xff = x" for x :: u8
proof -
  have "(0xff :: u8) = -1" by simp
  then show ?thesis by (simp only: and.right_neutral)
qed

lemma and_not_disjoint: "c AND v = 0 \<Longrightarrow> v AND NOT c = v" for c v :: "'a::len word"
proof (rule bit_word_eqI)
  fix n
  assume "c AND v = 0" and n: "n < LENGTH('a)"
  then have "\<not> bit (c AND v) n" by simp
  with n show "bit (v AND NOT c) n = bit v n" by (auto simp: bit_simps)
qed

section \<open>Byte swaps\<close>

lemma SWAP32_bytes:
  "SWAP32 x = push_bit 24 x OR drop_bit 24 x OR (push_bit 8 x AND push_bit 16 (mask 8))
     OR (drop_bit 8 x AND push_bit 8 (mask 8))"
proof -
  have "(0x00FF0000 :: u32) = push_bit 16 (mask 8)" and "(0x0000FF00 :: u32) = push_bit 8 (mask 8)"
    by (simp_all add: mask_eq_exp_minus_1 push_bit_eq_mult)
  then show ?thesis by (simp only: SWAP32_def)
qed

lemma bit_SWAP32:
  "bit (SWAP32 x) n \<longleftrightarrow> n < 32 \<and>
     (if n < 8 then bit x (n + 24) else if n < 16 then bit x (n + 8)
      else if n < 24 then bit x (n - 8) else bit x (n - 24))"
  unfolding SWAP32_bytes
  by (cases "n < 8"; cases "n < 16"; cases "n < 24"; cases "n < 32")
    (auto simp: bit_simps impossible_bit add.commute)

lemma SWAP32_SWAP32 [simp]: "SWAP32 (SWAP32 x) = x"
  by (rule bit_word_eqI) (auto simp: bit_SWAP32)

lemma SWAP16_SWAP16 [simp]: "SWAP16 (SWAP16 x) = x"
  by (rule bit_word_eqI) (auto simp: SWAP16_def bit_simps not_less dest: bit_imp_le_length)

end
