(* ===== verification/Filters.thy ===== *)
theory Filters
  imports Prelude
begin

text \<open>
  The redundancy filters of \<^verbatim>\<open>src/afl-fuzz-one.c\<close>: \<open>could_be_bitflip\<close>,
  \<open>could_be_arith\<close> and \<open>could_be_interest\<close>, which the arithmetic and
  interesting-value stages ask before they execute a candidate, and \<open>locate_diffs\<close>,
  which the splicing stage asks for the region in which two inputs differ. The lemmas
  characterise each filter by what it accepts.
\<close>

section \<open>Constants\<close>

definition ARITH_MAX :: nat where "ARITH_MAX = 35"

text \<open>
  The tables \<^verbatim>\<open>interesting_8\<close>, \<^verbatim>\<open>interesting_16\<close> and \<^verbatim>\<open>interesting_32\<close>
  hold signed values; a negative literal of a word type is its two's complement.
\<close>

definition interesting_8 :: "u8 list" where
  "interesting_8 = [-128, -1, 0, 1, 16, 32, 64, 100, 127]"

definition interesting_16 :: "u16 list" where
  "interesting_16 = [-128, -1, 0, 1, 16, 32, 64, 100, 127] @
     [-32768, -129, 128, 255, 256, 512, 1000, 1024, 4096, 32767]"

definition interesting_32 :: "u32 list" where
  "interesting_32 = [-128, -1, 0, 1, 16, 32, 64, 100, 127] @
     [-32768, -129, 128, 255, 256, 512, 1000, 1024, 4096, 32767] @
     [-2147483648, -100663046, -32769, 32768, 65535, 65536, 100663045, 2139095040, 2147483647]"

section \<open>Walking bit flips\<close>

text \<open>The macro \<^verbatim>\<open>FLIP_BIT\<close>: bit 0 of the buffer is the top bit of its first byte.\<close>

definition FLIP_BIT :: "buf \<Rightarrow> nat \<Rightarrow> buf" where
  "FLIP_BIT ar b = ar[b div 8 := ar ! (b div 8) XOR drop_bit (b mod 8) 128]"

lemma length_FLIP_BIT [simp, buf_simps]: "length (FLIP_BIT ar b) = length ar"
  by (simp add: FLIP_BIT_def)

lemma FLIP_BIT_twice [simp]: "FLIP_BIT (FLIP_BIT ar b) b = ar"
  by (cases "b div 8 < length ar")
    (simp_all add: FLIP_BIT_def nth_list_update_if xor.assoc list_update_beyond)

lemma FLIP_BIT_commute: "FLIP_BIT (FLIP_BIT ar a) b = FLIP_BIT (FLIP_BIT ar b) a"
  by (rule nth_equalityI)
    (auto simp: FLIP_BIT_def nth_list_update_if xor.assoc xor.commute xor.left_commute)

text \<open>
  \<^verbatim>\<open>could_be_bitflip\<close>. The shift loop runs only on a non-zero value; the model stops at
  zero as well so that it is total, which the early return before the loop makes unreachable.
\<close>

function shift_out :: "nat \<Rightarrow> u32 \<Rightarrow> nat \<times> u32" where
  "shift_out sh x = (if x = 0 \<or> x AND 1 \<noteq> 0 then (sh, x) else shift_out (sh + 1) (drop_bit 1 x))"
  by pat_completeness auto
termination
proof (relation "measure (\<lambda>(sh, x). unat x)", goal_cases)
  case (2 sh x)
  then have "0 < unat x" by (simp add: unat_gt_0)
  then have "drop_bit 1 (unat x) < unat x" by (simp add: drop_bit_eq_div)
  then show ?case by (simp only: in_measure prod.case unat_drop_bit_eq)
qed simp

declare shift_out.simps [simp del]

definition could_be_bitflip :: "u32 \<Rightarrow> bool" where
  "could_be_bitflip xor_val =
     (if xor_val = 0 then True
      else (let (sh, x) = shift_out 0 xor_val
            in if x = 1 \<or> x = 3 \<or> x = 15 then True
               else if sh AND 7 \<noteq> 0 then False
               else x = 0xff \<or> x = 0xffff \<or> x = 0xffffffff))"

section \<open>Arithmetic\<close>

text \<open>
  One pass of the loops that compare the old and the new value piece by piece: the number
  of pieces that differ and the last differing pair, as the variables \<^verbatim>\<open>diffs\<close>,
  \<^verbatim>\<open>ov\<close> and \<^verbatim>\<open>nv\<close> hold them.
\<close>

definition diff_step8 :: "u32 \<Rightarrow> u32 \<Rightarrow> nat \<Rightarrow> nat \<times> u32 \<times> u32 \<Rightarrow> nat \<times> u32 \<times> u32" where
  "diff_step8 old_val new_val i st =
     (let (diffs, ov, nv) = st;
          a = (ucast (drop_bit (8 * i) old_val) :: u8);
          b = (ucast (drop_bit (8 * i) new_val) :: u8)
      in if a \<noteq> b then (diffs + 1, ucast a, ucast b) else (diffs, ov, nv))"

definition diff_step16 :: "u32 \<Rightarrow> u32 \<Rightarrow> nat \<Rightarrow> nat \<times> u32 \<times> u32 \<Rightarrow> nat \<times> u32 \<times> u32" where
  "diff_step16 old_val new_val i st =
     (let (diffs, ov, nv) = st;
          a = (ucast (drop_bit (16 * i) old_val) :: u16);
          b = (ucast (drop_bit (16 * i) new_val) :: u16)
      in if a \<noteq> b then (diffs + 1, ucast a, ucast b) else (diffs, ov, nv))"

definition near8 :: "u32 \<Rightarrow> u32 \<Rightarrow> bool" where
  "near8 ov nv = ((ucast (ov - nv) :: u8) \<le> of_nat ARITH_MAX \<or> (ucast (nv - ov) :: u8) \<le> of_nat ARITH_MAX)"

definition near16 :: "u32 \<Rightarrow> u32 \<Rightarrow> bool" where
  "near16 ov nv = ((ucast (ov - nv) :: u16) \<le> of_nat ARITH_MAX \<or> (ucast (nv - ov) :: u16) \<le> of_nat ARITH_MAX)"

definition near32 :: "u32 \<Rightarrow> u32 \<Rightarrow> bool" where
  "near32 ov nv = (ov - nv \<le> of_nat ARITH_MAX \<or> nv - ov \<le> of_nat ARITH_MAX)"

definition could_be_arith :: "u32 \<Rightarrow> u32 \<Rightarrow> nat \<Rightarrow> bool" where
  "could_be_arith old_val new_val blen =
     (if old_val = new_val then True
      else
        let (diffs, ov, nv) = fold (diff_step8 old_val new_val) [0..<blen] (0, 0, 0)
        in if diffs = 1 \<and> near8 ov nv then True
           else if blen = 1 then False
           else
             let (diffs, ov, nv) = fold (diff_step16 old_val new_val) [0..<blen div 2] (0, ov, nv);
                 ov' = ucast (SWAP16 (ucast ov)); nv' = ucast (SWAP16 (ucast nv))
             in if diffs = 1 \<and> (near16 ov nv \<or> near16 ov' nv') then True
                else if blen = 4 then
                  near32 old_val new_val \<or> near32 (SWAP32 old_val) (SWAP32 new_val)
                else False)"

section \<open>Interesting values\<close>

text \<open>The value \<^verbatim>\<open>tval\<close>: the old value with one byte, or two, replaced at byte \<^verbatim>\<open>i\<close>.\<close>

definition put_byte :: "u32 \<Rightarrow> nat \<Rightarrow> u8 \<Rightarrow> u32" where
  "put_byte old_val i v = (old_val AND NOT (push_bit (i * 8) 0xff)) OR push_bit (i * 8) (ucast v)"

definition put_word :: "u32 \<Rightarrow> nat \<Rightarrow> u16 \<Rightarrow> u32" where
  "put_word old_val i v = (old_val AND NOT (push_bit (i * 8) 0xffff)) OR push_bit (i * 8) (ucast v)"

definition could_be_interest :: "u32 \<Rightarrow> u32 \<Rightarrow> nat \<Rightarrow> bool \<Rightarrow> bool" where
  "could_be_interest old_val new_val blen check_le =
     (if old_val = new_val then True
      else if list_ex (\<lambda>i. list_ex (\<lambda>v. new_val = put_byte old_val i v) interesting_8) [0..<blen]
      then True
      else if blen = 2 \<and> \<not> check_le then False
      else if list_ex (\<lambda>i. list_ex (\<lambda>v. new_val = put_word old_val i v \<or>
                (blen > 2 \<and> new_val = put_word old_val i (SWAP16 v))) interesting_16) [0..<blen - 1]
      then True
      else if blen = 4 \<and> check_le then list_ex (\<lambda>v. new_val = v) interesting_32
      else False)"

section \<open>Differing region of two inputs\<close>

text \<open>
  \<^verbatim>\<open>locate_diffs\<close>: the two positions are signed, \<^verbatim>\<open>-1\<close> when no byte differs.
\<close>

definition locate_step :: "buf \<Rightarrow> buf \<Rightarrow> nat \<Rightarrow> int \<times> int \<Rightarrow> int \<times> int" where
  "locate_step ptr1 ptr2 pos st =
     (let (f_loc, l_loc) = st
      in if ptr1 ! pos \<noteq> ptr2 ! pos
         then (if f_loc = -1 then int pos else f_loc, int pos) else (f_loc, l_loc))"

definition locate_diffs :: "buf \<Rightarrow> buf \<Rightarrow> nat \<Rightarrow> int \<times> int" where
  "locate_diffs ptr1 ptr2 len = fold (locate_step ptr1 ptr2) [0..<len] (-1, -1)"

section \<open>What the filters accept\<close>

text \<open>
  A non-zero difference passes \<open>could_be_bitflip\<close> exactly when it is a run of \<open>k\<close> one
  bits from bit \<open>sh\<close> on, with \<open>k\<close> a length some walking-bit stage flips.
\<close>

definition flip_pattern :: "u32 \<Rightarrow> nat \<Rightarrow> nat \<Rightarrow> bool" where
  "flip_pattern x sh k \<longleftrightarrow> x = push_bit sh (mask k) \<and> sh + k \<le> 32 \<and>
     (k \<in> {1, 2, 4} \<or> k \<in> {8, 16, 32} \<and> sh mod 8 = 0)"

lemma shift_out_spec:
  assumes "x \<noteq> 0"
  shows "\<exists>n. shift_out sh x = (sh + n, drop_bit n x) \<and> bit x n \<and> (\<forall>m<n. \<not> bit x m)"
  using assms
proof (induction sh x rule: shift_out.induct)
  case (1 sh x)
  show ?case
  proof (cases "x AND 1 = 0")
    case False
    then have "bit x 0" by (simp add: and_one_eq bit_0 odd_iff_mod_2_eq_one)
    then show ?thesis using False by (intro exI [of _ 0]) (simp add: shift_out.simps)
  next
    case True
    then have e: "\<not> bit x 0" by (simp add: and_one_eq bit_0 even_iff_mod_2_eq_zero)
    have shift: "bit (drop_bit 1 x) m = bit x (Suc m)" for m by (simp add: bit_drop_bit_eq)
    have nz: "drop_bit 1 x \<noteq> 0"
    proof
      assume z: "drop_bit 1 x = 0"
      have "\<not> bit x m" for m using e shift z by (cases m) auto
      then have "x = 0" by (intro bit_word_eqI) simp
      with 1(2) show False by simp
    qed
    from 1(1) [OF _ nz] True 1(2) obtain n where n:
      "shift_out (sh + 1) (drop_bit 1 x) = (sh + 1 + n, drop_bit n (drop_bit 1 x))"
      "bit (drop_bit 1 x) n" "\<forall>m<n. \<not> bit (drop_bit 1 x) m" by auto
    have "\<forall>m<Suc n. \<not> bit x m"
      using e n(3) by (auto simp: bit_drop_bit_eq less_Suc_eq_0_disj)
    then show ?thesis
      using n True 1(2)
      by (intro exI [of _ "Suc n"]) (auto simp: shift_out.simps [of sh x] bit_drop_bit_eq)
  qed
qed

lemma drop_bit_pattern:
  fixes x :: u32
  assumes b: "bit x n" and low: "\<forall>m<n. \<not> bit x m" and k: "0 < k" "k \<le> 32"
  shows "drop_bit n x = mask k \<longleftrightarrow> x = push_bit n (mask k) \<and> n + k \<le> 32"
proof
  assume eq: "drop_bit n x = mask k"
  have "bit (drop_bit n x) (k - 1)" using k by (simp add: eq bit_simps)
  then have "n + (k - 1) < 32"
    by (auto simp: bit_drop_bit_eq dest: bit_imp_le_length)
  moreover have "x = push_bit n (mask k)"
  proof (rule bit_word_eqI)
    fix m
    assume "m < LENGTH(32)"
    show "bit x m = bit (push_bit n (mask k) :: u32) m"
    proof (cases "m < n")
      case True
      then show ?thesis using low by (simp add: bit_simps)
    next
      case False
      then have "bit x m = bit (drop_bit n x) (m - n)" by (simp add: bit_drop_bit_eq)
      then show ?thesis using False \<open>m < LENGTH(32)\<close> by (auto simp: eq bit_simps)
    qed
  qed
  ultimately show "x = push_bit n (mask k) \<and> n + k \<le> 32" using k by auto
next
  assume "x = push_bit n (mask k) \<and> n + k \<le> 32"
  then show "drop_bit n x = mask k"
    by (auto intro!: bit_word_eqI simp: bit_simps)
qed

lemma lowest_bit_pattern:
  fixes x :: u32
  assumes "bit x n" "\<forall>m<n. \<not> bit x m" "x = push_bit sh (mask k)" "0 < k" "sh + k \<le> 32"
  shows "sh = n"
proof (rule ccontr)
  assume "sh \<noteq> n"
  moreover have "bit x sh" using assms(3,4,5) by (auto simp: bit_simps)
  moreover have "\<not> bit x m" if "m < sh" for m using that assms(3) by (auto simp: bit_simps)
  ultimately show False using assms(1,2) by (metis linorder_neqE_nat)
qed

lemma and_7_eq_0: "n AND 7 = 0 \<longleftrightarrow> n mod 8 = 0" for n :: nat
proof -
  have "n AND 7 = n mod 8"
    using take_bit_eq_mask [of 3 n] by (simp add: mask_eq_exp_minus_1 take_bit_eq_mod)
  then show ?thesis by simp
qed

lemma could_be_bitflip_iff: "could_be_bitflip x \<longleftrightarrow> x = 0 \<or> (\<exists>sh k. flip_pattern x sh k)"
proof (cases "x = 0")
  case True
  then show ?thesis by (simp add: could_be_bitflip_def)
next
  case False
  obtain n where n: "shift_out 0 x = (n, drop_bit n x)" "bit x n" "\<forall>m<n. \<not> bit x m"
    using shift_out_spec [OF False, of 0] by auto
  have masks: "(1 :: u32) = mask 1" "(3 :: u32) = mask 2" "(15 :: u32) = mask 4"
    "(0xff :: u32) = mask 8" "(0xffff :: u32) = mask 16" "(0xffffffff :: u32) = mask 32"
    by (simp_all add: mask_eq_exp_minus_1)
  have cases_eq: "(if P 1 \<or> P 2 \<or> P 4 then True else if m \<noteq> 0 then False else P 8 \<or> P 16 \<or> P 32) \<longleftrightarrow>
      (\<exists>k. P k \<and> (k \<in> {1, 2, 4} \<or> k \<in> {8, 16, 32} \<and> m = 0))" for P :: "nat \<Rightarrow> bool" and m :: nat
    by auto
  have sh_eq: "sh = n" if "flip_pattern x sh k" for sh k
    by (rule lowest_bit_pattern [OF n(2,3), of sh k]) (use that in \<open>auto simp: flip_pattern_def\<close>)
  have pat: "drop_bit n x = mask k \<and> (k \<in> {1, 2, 4} \<or> k \<in> {8, 16, 32} \<and> n mod 8 = 0) \<longleftrightarrow>
      flip_pattern x n k" for k
  proof (cases "k \<in> {1, 2, 4} \<or> k \<in> {8, 16, 32} \<and> n mod 8 = 0")
    case True
    then have "0 < k" "k \<le> 32" by auto
    then show ?thesis
      using drop_bit_pattern [OF n(2,3), of k] True by (simp only: flip_pattern_def simp_thms)
  next
    case False
    then show ?thesis by (simp only: flip_pattern_def simp_thms)
  qed
  have "could_be_bitflip x \<longleftrightarrow> (\<exists>k. flip_pattern x n k)"
    by (simp only: could_be_bitflip_def masks Let_def n(1) prod.case False if_False and_7_eq_0
        cases_eq [of "\<lambda>k. drop_bit n x = mask k" "n mod 8"] pat)
  also have "\<dots> \<longleftrightarrow> (\<exists>sh k. flip_pattern x sh k)"
    using sh_eq by blast
  finally show ?thesis using False by blast
qed

lemma near8_iff: "near8 (ucast a) (ucast b) \<longleftrightarrow> a - b \<le> 35 \<or> b - a \<le> (35 :: u8)"
proof -
  have "(ucast (ucast a - ucast b :: u32) :: u8) = a - b" for a b :: u8
    by transfer (simp add: take_bit_diff)
  then show ?thesis by (simp add: near8_def ARITH_MAX_def)
qed

lemma could_be_arith_byte:
  "could_be_arith (ucast a) (ucast b) 1 \<longleftrightarrow> a = b \<or> a - b \<le> 35 \<or> b - a \<le> (35 :: u8)"
  for a b :: u8
proof (cases "a = b")
  case False
  have "fold (diff_step8 (ucast a) (ucast b)) [0..<1] (0, 0, 0) = (1, ucast a, ucast b)"
    using False by (simp add: diff_step8_def Let_def)
  moreover have "(ucast a :: u32) \<noteq> ucast b"
    using False by (metis ucast_u32_u8)
  ultimately show ?thesis
    using False by (simp add: could_be_arith_def near8_iff)
qed (simp add: could_be_arith_def)

lemma near16_iff: "near16 (ucast a) (ucast b) \<longleftrightarrow> a - b \<le> 35 \<or> b - a \<le> (35 :: u16)"
proof -
  have "(ucast (ucast a - ucast b :: u32) :: u16) = a - b" for a b :: u16
    by transfer (simp add: take_bit_diff)
  then show ?thesis by (simp add: near16_def ARITH_MAX_def)
qed


lemma locate_diffs_eq:
  "locate_diffs p q n =
    (let ds = filter (\<lambda>i. p ! i \<noteq> q ! i) [0..<n]
     in if ds = [] then (-1, -1) else (int (hd ds), int (last ds)))"
proof (induction n)
  case (Suc n)
  then show ?case
    by (cases "filter (\<lambda>i. p ! i \<noteq> q ! i) [0..<n]") (auto simp: locate_diffs_def locate_step_def Let_def)
qed (simp add: locate_diffs_def)

lemma locate_diffs_bounds:
  assumes "locate_diffs p q n = (f, l)" and "f \<noteq> -1"
  shows "0 \<le> f \<and> f \<le> l \<and> l < int n \<and> p ! nat f \<noteq> q ! nat f \<and> p ! nat l \<noteq> q ! nat l"
    and "\<And>i. i < n \<Longrightarrow> int i < f \<or> l < int i \<Longrightarrow> p ! i = q ! i"
proof -
  let ?ds = "filter (\<lambda>i. p ! i \<noteq> q ! i) [0..<n]"
  have ne: "?ds \<noteq> []" and f: "f = int (hd ?ds)" and l: "l = int (last ?ds)"
    using assms by (auto simp: locate_diffs_eq Let_def split: if_splits)
  have sd: "sorted ?ds" by (simp add: sorted_wrt_filter)
  have hd: "hd ?ds \<in> set ?ds" and la: "last ?ds \<in> set ?ds" using ne by (simp_all del: set_filter)
  have min: "hd ?ds \<le> i" if "i \<in> set ?ds" for i
    using that sd by (cases ?ds) auto
  have max: "i \<le> last ?ds" if "i \<in> set ?ds" for i
    using that sd ne by (cases ?ds rule: rev_cases) (auto simp: sorted_append)
  show "0 \<le> f \<and> f \<le> l \<and> l < int n \<and> p ! nat f \<noteq> q ! nat f \<and> p ! nat l \<noteq> q ! nat l"
    using hd la min [OF la] by (auto simp: f l)
  show "p ! i = q ! i" if "i < n" "int i < f \<or> l < int i" for i
    using that min max by (force simp: f l)
qed

end
