(* ===== verification/Bitmap.thy ===== *)
theory Bitmap
  imports Prelude
begin

text \<open>
  The coverage maps: \<^verbatim>\<open>src/afl-fuzz-bitmap.c\<close> and the 64-bit flavour of its inner
  routines, \<^verbatim>\<open>include/coverage-64.h\<close> (the portable variant of \<^verbatim>\<open>skim\<close>, without
  the vector instructions). The maps are byte buffers that the code reads and writes a
  word at a time. The lemmas give every routine its meaning byte by byte.
\<close>

section \<open>State\<close>

text \<open>
  The fields of \<^verbatim>\<open>afl_forkserver_t\<close> and \<^verbatim>\<open>afl_state_t\<close> these routines use.
\<close>

record map_state =
  trace_bits :: buf
  map_size :: nat
  real_map_size :: nat
  virgin_bits :: buf
  virgin_tmout :: buf
  virgin_crash :: buf
  bitmap_changed :: bool

text \<open>Which virgin map a caller passes; the code compares the pointer with \<^verbatim>\<open>afl->virgin_bits\<close>.\<close>

datatype virgin = Virgin_bits | Virgin_tmout | Virgin_crash

fun get_virgin :: "virgin \<Rightarrow> 'a map_state_scheme \<Rightarrow> buf" where
  "get_virgin Virgin_bits s = virgin_bits s"
| "get_virgin Virgin_tmout s = virgin_tmout s"
| "get_virgin Virgin_crash s = virgin_crash s"

fun set_virgin :: "virgin \<Rightarrow> buf \<Rightarrow> 'a map_state_scheme \<Rightarrow> 'a map_state_scheme" where
  "set_virgin Virgin_bits b s = s\<lparr>virgin_bits := b\<rparr>"
| "set_virgin Virgin_tmout b s = s\<lparr>virgin_tmout := b\<rparr>"
| "set_virgin Virgin_crash b s = s\<lparr>virgin_crash := b\<rparr>"

section \<open>Counting\<close>

text \<open>Words that cover the real map, as in \<^verbatim>\<open>(afl->fsrv.real_map_size + 3) >> 2\<close>.\<close>

definition words32 :: "'a map_state_scheme \<Rightarrow> nat" where
  "words32 s = drop_bit 2 (real_map_size s + 3)"

definition words64 :: "'a map_state_scheme \<Rightarrow> nat" where
  "words64 s = drop_bit 3 (real_map_size s + 7)"

definition popcount32 :: "u32 \<Rightarrow> u32" where
  "popcount32 v0 =
     (let v1 = v0 - (drop_bit 1 v0 AND 0x55555555);
          v2 = (v1 AND 0x33333333) + (drop_bit 2 v1 AND 0x33333333)
      in drop_bit 24 (((v2 + drop_bit 4 v2) AND 0xF0F0F0F) * 0x01010101))"

definition count_bits_word :: "buf \<Rightarrow> nat \<Rightarrow> u32 \<Rightarrow> u32" where
  "count_bits_word mem k ret =
     (let v = load32 mem (4 * k)
      in if v = 0xffffffff then ret + 32 else ret + popcount32 v)"

definition count_bits :: "'a map_state_scheme \<Rightarrow> buf \<Rightarrow> u32" where
  "count_bits s mem = fold (count_bits_word mem) [0..<words32 s] 0"

definition count_bytes_word :: "buf \<Rightarrow> nat \<Rightarrow> u32 \<Rightarrow> u32" where
  "count_bytes_word mem k ret =
     (let v = load32 mem (4 * k)
      in if v = 0 then ret
         else
           let ret = (if v AND 0x000000ff \<noteq> 0 then ret + 1 else ret);
               ret = (if v AND 0x0000ff00 \<noteq> 0 then ret + 1 else ret);
               ret = (if v AND 0x00ff0000 \<noteq> 0 then ret + 1 else ret)
           in (if v AND 0xff000000 \<noteq> 0 then ret + 1 else ret))"

definition count_bytes :: "'a map_state_scheme \<Rightarrow> buf \<Rightarrow> u32" where
  "count_bytes s mem = fold (count_bytes_word mem) [0..<words32 s] 0"

definition count_non_255_word :: "buf \<Rightarrow> nat \<Rightarrow> u32 \<Rightarrow> u32" where
  "count_non_255_word mem k ret =
     (let v = load32 mem (4 * k)
      in if v = 0xffffffff then ret
         else
           let ret = (if v AND 0x000000ff \<noteq> 0x000000ff then ret + 1 else ret);
               ret = (if v AND 0x0000ff00 \<noteq> 0x0000ff00 then ret + 1 else ret);
               ret = (if v AND 0x00ff0000 \<noteq> 0x00ff0000 then ret + 1 else ret)
           in (if v AND 0xff000000 \<noteq> 0xff000000 then ret + 1 else ret))"

definition count_non_255_bytes :: "'a map_state_scheme \<Rightarrow> buf \<Rightarrow> u32" where
  "count_non_255_bytes s mem = fold (count_non_255_word mem) [0..<words32 s] 0"

section \<open>Hit-count classes\<close>

definition simplify_lookup :: "u8 \<Rightarrow> u8" where
  "simplify_lookup b = (if b = 0 then 1 else 128)"

definition count_class_lookup8 :: "u8 \<Rightarrow> u8" where
  "count_class_lookup8 b =
     (if b = 0 then 0 else if b = 1 then 1 else if b = 2 then 2 else if b = 3 then 4
      else if b \<le> 7 then 8 else if b \<le> 15 then 16 else if b \<le> 31 then 32
      else if b \<le> 127 then 64 else 128)"

text \<open>The table of 65536 entries is built by two nested loops over the bytes.\<close>

definition set_count_class16 :: "nat \<Rightarrow> nat \<Rightarrow> (nat \<Rightarrow> u16) \<Rightarrow> nat \<Rightarrow> u16" where
  "set_count_class16 b1 b2 table =
     table(push_bit 8 b1 + b2 :=
       push_bit 8 (ucast (count_class_lookup8 (of_nat b1))) OR ucast (count_class_lookup8 (of_nat b2)))"

definition init_count_class16 :: "(nat \<Rightarrow> u16) \<Rightarrow> nat \<Rightarrow> u16" where
  "init_count_class16 = fold (\<lambda>b1. fold (set_count_class16 b1) [0..<256]) [0..<256]"

definition count_class_lookup16 :: "u16 \<Rightarrow> u16" where
  "count_class_lookup16 w = init_count_class16 (\<lambda>_. 0) (unat w)"

text \<open>Four half-words of a word, looked up in place.\<close>

definition classify_word :: "u64 \<Rightarrow> u64" where
  "classify_word word =
     (let m = map (\<lambda>k. count_class_lookup16 (ucast (drop_bit (16 * k) word))) [0..<4]
      in ucast (m ! 0) OR push_bit 16 (ucast (m ! 1)) OR push_bit 32 (ucast (m ! 2))
         OR push_bit 48 (ucast (m ! 3)))"

definition classify_counts_word :: "nat \<Rightarrow> buf \<Rightarrow> buf" where
  "classify_counts_word k mem =
     (if load64 mem (8 * k) \<noteq> 0 then store64 mem (8 * k) (classify_word (load64 mem (8 * k))) else mem)"

definition classify_counts :: "'a map_state_scheme \<Rightarrow> 'a map_state_scheme" where
  "classify_counts s =
     s\<lparr>trace_bits := fold classify_counts_word [0..<drop_bit 3 (map_size s)] (trace_bits s)\<rparr>"

definition simplify_trace_word :: "nat \<Rightarrow> buf \<Rightarrow> buf" where
  "simplify_trace_word k mem =
     (if load64 mem (8 * k) \<noteq> 0
      then fold (\<lambda>j m. m[8 * k + j := simplify_lookup (m ! (8 * k + j))]) [0..<8] mem
      else store64 mem (8 * k) 0x0101010101010101)"

definition simplify_trace :: "'a map_state_scheme \<Rightarrow> buf \<Rightarrow> buf" where
  "simplify_trace s bytes = fold simplify_trace_word [0..<drop_bit 3 (map_size s)] bytes"

section \<open>New coverage\<close>

definition discover_word :: "nat \<Rightarrow> u64 \<Rightarrow> u64 \<Rightarrow> nat \<times> u64" where
  "discover_word ret current virgin =
     (if current AND virgin \<noteq> 0
      then (if ret < 2
            then (if list_ex (\<lambda>k. byte_of k current \<noteq> 0 \<and> byte_of k virgin = 0xff) [0..<8] then 2 else 1)
            else ret,
            virgin AND NOT current)
      else (ret, virgin))"

definition has_new_bits_word :: "buf \<Rightarrow> nat \<Rightarrow> nat \<times> buf \<Rightarrow> nat \<times> buf" where
  "has_new_bits_word current k st =
     (let (ret, virgin) = st
      in if load64 current (8 * k) \<noteq> 0
         then (let (ret', w) = discover_word ret (load64 current (8 * k)) (load64 virgin (8 * k))
               in (ret', store64 virgin (8 * k) w))
         else (ret, virgin))"

definition has_new_bits :: "virgin \<Rightarrow> 'a map_state_scheme \<Rightarrow> nat \<times> 'a map_state_scheme" where
  "has_new_bits vm s =
     (let (ret, virgin) = fold (has_new_bits_word (trace_bits s)) [0..<words64 s] (0, get_virgin vm s);
          s = set_virgin vm virgin s
      in (ret, if ret \<noteq> 0 \<and> vm = Virgin_bits then s\<lparr>bitmap_changed := True\<rparr> else s))"

text \<open>
  \<^verbatim>\<open>skim\<close> walks four words at a time until \<^verbatim>\<open>current\<close> reaches \<^verbatim>\<open>current_end\<close>,
  here word \<open>n\<close>.
\<close>

function skim :: "buf \<Rightarrow> buf \<Rightarrow> nat \<Rightarrow> nat \<Rightarrow> bool" where
  "skim virgin current k n =
     (if k < n
      then (if list_ex (\<lambda>j. load64 current (8 * (k + j)) \<noteq> 0 \<and>
                 classify_word (load64 current (8 * (k + j))) AND load64 virgin (8 * (k + j)) \<noteq> 0) [0..<4]
            then True else skim virgin current (k + 4) n)
      else False)"
  by pat_completeness auto
termination by (relation "measure (\<lambda>(_, _, k, n). n - k)") auto

declare skim.simps [simp del]

definition has_new_bits_unclassified :: "virgin \<Rightarrow> 'a map_state_scheme \<Rightarrow> nat \<times> 'a map_state_scheme" where
  "has_new_bits_unclassified vm s =
     (if \<not> skim (get_virgin vm s) (trace_bits s) 0 ((map_size s + 7) div 8) then (0, s)
      else has_new_bits vm (classify_counts s))"

definition minimize_bit :: "buf \<Rightarrow> nat \<Rightarrow> buf \<Rightarrow> buf" where
  "minimize_bit src i dst =
     (if src ! i \<noteq> 0
      then dst[drop_bit 3 i := dst ! drop_bit 3 i OR push_bit (i AND 7) 1] else dst)"

definition minimize_bits :: "'a map_state_scheme \<Rightarrow> buf \<Rightarrow> buf \<Rightarrow> buf" where
  "minimize_bits s dst src = fold (minimize_bit src) [0..<map_size s] dst"

section \<open>What \<open>has_new_bits\<close> computes\<close>

text \<open>
  The verdict over the first \<open>n\<close> bytes of a trace and a virgin map: 2 when a byte that was
  hit is pristine, 1 when a hit-count class is new, 0 otherwise; and the virgin map with the
  seen bits erased.
\<close>

definition new_cov :: "buf \<Rightarrow> buf \<Rightarrow> nat \<Rightarrow> nat" where
  "new_cov cur vir n =
     (if \<exists>j<n. cur ! j \<noteq> 0 \<and> vir ! j = 0xff then 2
      else if \<exists>j<n. cur ! j AND vir ! j \<noteq> 0 then 1 else 0)"

definition erase :: "buf \<Rightarrow> buf \<Rightarrow> nat \<Rightarrow> buf" where
  "erase cur vir n = map (\<lambda>j. if j < n then vir ! j AND NOT (cur ! j) else vir ! j) [0..<length vir]"

lemma length_erase [simp]: "length (erase cur vir n) = length vir"
  by (simp add: erase_def)

lemma nth_erase [simp]:
  "j < length vir \<Longrightarrow> erase cur vir n ! j = (if j < n then vir ! j AND NOT (cur ! j) else vir ! j)"
  by (simp add: erase_def)

lemma load64_eq_0: "load64 b i = 0 \<longleftrightarrow> (\<forall>k<8. b ! (i + k) = 0)"
  by (simp add: u64_eq_iff_bytes)

lemma load64_and_eq_0: "load64 a i AND load64 b i = 0 \<longleftrightarrow> (\<forall>k<8. a ! (i + k) AND b ! (i + k) = 0)"
  by (simp add: u64_eq_iff_bytes)

lemma ex_word_split: "(\<exists>j<8 * Suc n. P j) \<longleftrightarrow> (\<exists>j<8 * n. P j) \<or> (\<exists>k<8. P (8 * n + k))" for n :: nat
proof
  assume "\<exists>j<8 * Suc n. P j"
  then obtain j where j: "j < 8 * Suc n" "P j" by blast
  show "(\<exists>j<8 * n. P j) \<or> (\<exists>k<8. P (8 * n + k))"
  proof (cases "j < 8 * n")
    case False
    then have "j = 8 * n + (j - 8 * n)" "j - 8 * n < 8" using j(1) by auto
    then show ?thesis using j(2) by metis
  qed (use j in auto)
next
  assume "(\<exists>j<8 * n. P j) \<or> (\<exists>k<8. P (8 * n + k))"
  then show "\<exists>j<8 * Suc n. P j"
  proof
    assume "\<exists>j<8 * n. P j"
    then obtain j where "j < 8 * n" "P j" by blast
    moreover then have "j < 8 * Suc n" by simp
    ultimately show ?thesis by blast
  next
    assume "\<exists>k<8. P (8 * n + k)"
    then obtain k where "k < 8" "P (8 * n + k)" by blast
    moreover then have "8 * n + k < 8 * Suc n" by simp
    ultimately show ?thesis by blast
  qed
qed

lemma has_new_bits_word_step:
  assumes "8 * Suc k \<le> length vir"
  shows "has_new_bits_word cur k (new_cov cur vir0 (8 * k), vir) =
    (if \<exists>i<8. cur ! (8 * k + i) AND vir ! (8 * k + i) \<noteq> 0
     then (if new_cov cur vir0 (8 * k) < 2
           then (if \<exists>i<8. cur ! (8 * k + i) \<noteq> 0 \<and> vir ! (8 * k + i) = 0xff then 2 else 1)
           else new_cov cur vir0 (8 * k),
           store64 vir (8 * k) (load64 vir (8 * k) AND NOT (load64 cur (8 * k))))
     else (new_cov cur vir0 (8 * k), vir))"
proof -
  have ex: "list_ex P [0..<8] \<longleftrightarrow> (\<exists>i<8. P i)" for P :: "nat \<Rightarrow> bool"
    by (auto simp: list_ex_iff)
  have stay: "store64 vir (8 * k) (load64 vir (8 * k)) = vir"
    using assms by (intro nth_equalityI) (auto simp: nth_store64)
  have z: "load64 cur (8 * k) = 0 \<Longrightarrow> \<not> (\<exists>i<8. cur ! (8 * k + i) AND vir ! (8 * k + i) \<noteq> 0)"
    by (auto simp: load64_eq_0)
  show ?thesis
    using z by (auto simp: has_new_bits_word_def discover_word_def load64_and_eq_0 ex stay)
qed

lemma has_new_bits_fold:
  assumes "8 * n \<le> length vir"
  shows "fold (has_new_bits_word cur) [0..<n] (0, vir) = (new_cov cur vir (8 * n), erase cur vir (8 * n))"
  using assms
proof (induction n)
  case 0
  show ?case by (auto simp: new_cov_def erase_def intro: nth_equalityI)
next
  case (Suc n)
  let ?hit = "\<exists>i<8. cur ! (8 * n + i) AND vir ! (8 * n + i) \<noteq> 0"
  let ?new = "\<exists>i<8. cur ! (8 * n + i) \<noteq> 0 \<and> vir ! (8 * n + i) = 0xff"
  have old: "erase cur vir (8 * n) ! (8 * n + i) = vir ! (8 * n + i)" if "i < 8" for i
    using that Suc.prems by simp
  have new_hit: "?hit" if "?new"
    using that by force
  have cov: "new_cov cur vir (8 * Suc n) =
     (if ?hit then (if new_cov cur vir (8 * n) < 2 then (if ?new then 2 else 1) else new_cov cur vir (8 * n))
      else new_cov cur vir (8 * n))"
    using new_hit unfolding new_cov_def ex_word_split by auto
  have erased: "erase cur vir (8 * Suc n) = store64 (erase cur vir (8 * n)) (8 * n)
     (load64 (erase cur vir (8 * n)) (8 * n) AND NOT (load64 cur (8 * n)))"
    using Suc.prems by (intro nth_equalityI) (auto simp: nth_store64 old)
  have kept: "erase cur vir (8 * Suc n) = erase cur vir (8 * n)" if "\<not> ?hit"
  proof (rule nth_equalityI)
    fix j
    assume j: "j < length (erase cur vir (8 * Suc n))"
    show "erase cur vir (8 * Suc n) ! j = erase cur vir (8 * n) ! j"
    proof (cases "8 * n \<le> j \<and> j < 8 * n + 8")
      case True
      then have "cur ! j AND vir ! j = 0" using that by (metis le_add_diff_inverse nat_add_left_cancel_less)
      then have "vir ! j AND NOT (cur ! j) = vir ! j" by (rule and_not_disjoint)
      then show ?thesis using j by auto
    qed (use j in auto)
  qed simp
  have hit_eq: "(\<exists>i<8. cur ! (8 * n + i) AND erase cur vir (8 * n) ! (8 * n + i) \<noteq> 0) = ?hit"
    and new_eq: "(\<exists>i<8. cur ! (8 * n + i) \<noteq> 0 \<and> erase cur vir (8 * n) ! (8 * n + i) = 0xff) = ?new"
    using old by auto
  have "fold (has_new_bits_word cur) [0..<Suc n] (0, vir) =
      has_new_bits_word cur n (new_cov cur vir (8 * n), erase cur vir (8 * n))"
    using Suc by simp
  also have "\<dots> = (new_cov cur vir (8 * Suc n), erase cur vir (8 * Suc n))"
  proof (cases ?hit)
    case True
    have "8 * Suc n \<le> length (erase cur vir (8 * n))" using Suc.prems by simp
    from has_new_bits_word_step [OF this, of cur vir, unfolded hit_eq new_eq] show ?thesis
      by (simp only: True cov erased if_True split: if_split)
  next
    case False
    have "8 * Suc n \<le> length (erase cur vir (8 * n))" using Suc.prems by simp
    from has_new_bits_word_step [OF this, of cur vir, unfolded hit_eq new_eq] show ?thesis
      by (simp only: False cov kept if_False simp_thms)
  qed
  finally show ?case .
qed

section \<open>Hit-count classes, byte by byte\<close>

definition map_prefix :: "('a \<Rightarrow> 'a) \<Rightarrow> nat \<Rightarrow> 'a list \<Rightarrow> 'a list" where
  "map_prefix f n xs = map f (take n xs) @ drop n xs"

lemma length_map_prefix [simp]: "length (map_prefix f n xs) = length xs"
  by (simp add: map_prefix_def)

lemma nth_map_prefix [simp]:
  "j < length xs \<Longrightarrow> map_prefix f n xs ! j = (if j < n then f (xs ! j) else xs ! j)"
  by (auto simp: map_prefix_def nth_append min_def)

lemma fold_words_map:
  assumes step: "\<And>k m. 8 * Suc k \<le> length m \<Longrightarrow> length (g k m) = length m \<and>
      (\<forall>j<length m. g k m ! j = (if 8 * k \<le> j \<and> j < 8 * k + 8 then f (m ! j) else m ! j))"
    and n: "8 * n \<le> length m"
  shows "fold g [0..<n] m = map_prefix f (8 * n) m"
  using n
proof (induction n)
  case 0
  show ?case by (simp add: map_prefix_def)
next
  case (Suc n)
  then show ?case
    using step [of n "map_prefix f (8 * n) m"] by (intro nth_equalityI) auto
qed

lemma fold_set_count_class16:
  "fold (set_count_class16 b1) [0..<n] t i =
     (if 256 * b1 \<le> i \<and> i < 256 * b1 + n then set_count_class16 b1 (i - 256 * b1) t i else t i)"
  by (induction n) (auto simp: set_count_class16_def push_bit_eq_mult)

lemma init_count_class16_partial:
  "fold (\<lambda>b1. fold (set_count_class16 b1) [0..<256]) [0..<n] t i =
     (if i < 256 * n then set_count_class16 (i div 256) (i mod 256) t i else t i)"
proof (induction n)
  case (Suc n)
  have "i div 256 = n \<and> i mod 256 = i - 256 * n" if "256 * n \<le> i" "i < 256 * n + 256"
  proof -
    define r where "r = i - 256 * n"
    with that have "i = r + n * 256" "r < 256" by simp_all
    then have "i div 256 = n \<and> i mod 256 = r" by simp
    then show ?thesis by (simp only: r_def)
  qed
  then show ?case
    using Suc by (auto simp: fold_set_count_class16) (auto simp: set_count_class16_def push_bit_eq_mult)
qed simp

lemma count_class_lookup16_eq:
  "count_class_lookup16 w =
     push_bit 8 (ucast (count_class_lookup8 (byte_of 1 w))) OR ucast (count_class_lookup8 (byte_of 0 w))"
proof -
  have "unat w < 256 * 256" using unsigned_less [of w] by simp
  then have "count_class_lookup16 w = set_count_class16 (unat w div 256) (unat w mod 256) (\<lambda>_. 0) (unat w)"
    by (simp only: count_class_lookup16_def init_count_class16_def init_count_class16_partial if_True)
  moreover have "(of_nat (unat w div 256) :: u8) = byte_of 1 w"
  proof -
    have "unat w div 256 = unat (drop_bit 8 w)" by (simp only: unat_drop_bit_eq) (simp add: drop_bit_eq_div)
    then show ?thesis by (simp only: byte_of_def of_nat_unat mult_1_right)
  qed
  moreover have "(of_nat (unat w mod 256) :: u8) = byte_of 0 w"
  proof -
    have "(of_nat (unat w mod 256) :: u8) = of_nat (unat w)"
      by (rule word_of_nat_eq_iff [THEN iffD2]) (simp add: take_bit_eq_mod)
    then show ?thesis by (simp add: byte_of_def)
  qed
  moreover have "push_bit 8 (unat w div 256) + unat w mod 256 = unat w"
    by (simp add: push_bit_eq_mult)
  ultimately show ?thesis
    by (simp only: set_count_class16_def fun_upd_same)
qed

lemma byte_of_count_class_lookup16:
  "byte_of 0 (count_class_lookup16 w) = count_class_lookup8 (byte_of 0 w)"
  "byte_of 1 (count_class_lookup16 w) = count_class_lookup8 (byte_of 1 w)"
  by (rule bit_word_eqI, auto simp: count_class_lookup16_eq byte_of_def bit_simps dest: bit_imp_le_length)+

lemma byte_of_u16s:
  fixes a b c d :: u16
  shows "k < 8 \<Longrightarrow> byte_of k (ucast a OR push_bit 16 (ucast b) OR push_bit 32 (ucast c) OR push_bit 48 (ucast d) :: u64) =
    byte_of (k mod 2) ([a, b, c, d] ! (k div 2))"
proof -
  assume "k < 8"
  then have "k \<in> {0, 1, 2, 3, 4, 5, 6, 7}" by auto
  then show ?thesis
    by (elim insertE emptyE; intro bit_word_eqI) (auto simp: byte_of_def bit_simps dest: bit_imp_le_length)
qed

lemma byte_of_classify_word:
  assumes "k < 8"
  shows "byte_of k (classify_word w) = count_class_lookup8 (byte_of k w)"
proof -
  have half: "byte_of j (count_class_lookup16 (ucast (drop_bit (8 * i) w))) = count_class_lookup8 (byte_of (i + j) w)"
    if "j < 2" for i j
  proof -
    have "byte_of j (ucast (drop_bit (8 * i) w) :: u16) = byte_of (i + j) w"
      using that by (intro bit_word_eqI) (auto simp: byte_of_def bit_simps algebra_simps)
    then show ?thesis
      using that byte_of_count_class_lookup16 by (auto simp: less_2_cases_iff)
  qed
  have "k \<in> {0, 1, 2, 3, 4, 5, 6, 7}" using assms by auto
  then show ?thesis
    using half [of 0 0] half [of 1 0] half [of 0 2] half [of 1 2] half [of 0 4] half [of 1 4] half [of 0 6] half [of 1 6]
    by (elim insertE emptyE) (simp_all add: classify_word_def byte_of_u16s upt_rec)
qed

section \<open>Classified maps and the verdict on a trace\<close>

definition map_ok :: "'a map_state_scheme \<Rightarrow> bool" where
  "map_ok s \<longleftrightarrow> real_map_size s \<le> map_size s \<and> 64 dvd map_size s \<and> length (trace_bits s) = map_size s \<and>
     length (virgin_bits s) = map_size s \<and> length (virgin_tmout s) = map_size s \<and>
     length (virgin_crash s) = map_size s"

lemma classify_word_eq_0 [simp]: "classify_word w = 0 \<longleftrightarrow> w = 0"
proof -
  have "count_class_lookup8 b = 0 \<longleftrightarrow> b = 0" for b
    by (simp add: count_class_lookup8_def)
  then show ?thesis by (simp add: u64_eq_iff_bytes byte_of_classify_word)
qed

lemma classify_counts_word_bytes:
  assumes "8 * Suc k \<le> length m"
  shows "length (classify_counts_word k m) = length m \<and>
    (\<forall>j<length m. classify_counts_word k m ! j =
      (if 8 * k \<le> j \<and> j < 8 * k + 8 then count_class_lookup8 (m ! j) else m ! j))"
proof -
  have zero: "count_class_lookup8 0 = 0" by (simp add: count_class_lookup8_def)
  have byte: "byte_of (j - 8 * k) (classify_word (load64 m (8 * k))) = count_class_lookup8 (m ! j)"
    if "8 * k \<le> j" "j < 8 * k + 8" for j
  proof -
    have "j - 8 * k < 8" using that by simp
    then show ?thesis using that by (simp add: byte_of_classify_word)
  qed
  have zeros: "m ! j = 0" if "load64 m (8 * k) = 0" "8 * k \<le> j" "j < 8 * k + 8" for j
  proof -
    have "m ! (8 * k + (j - 8 * k)) = 0" using that by (intro load64_eq_0 [THEN iffD1, rule_format]) auto
    then show ?thesis using that by simp
  qed
  show ?thesis
    using assms by (auto simp: classify_counts_word_def nth_store64 byte zero zeros)
qed

lemma trace_bits_classify_counts:
  assumes "map_ok s"
  shows "trace_bits (classify_counts s) = map count_class_lookup8 (trace_bits s)"
proof -
  obtain n where n: "map_size s = 8 * n"
    using assms by (auto simp: map_ok_def dest: dvd_trans [rotated, of _ _ 8])
  moreover then have "drop_bit 3 (map_size s) = n" by (simp add: drop_bit_eq_div)
  ultimately show ?thesis
    using assms fold_words_map [OF classify_counts_word_bytes, of n "trace_bits s"]
    by (simp add: classify_counts_def map_ok_def map_prefix_def)
qed

lemma map_ok_classify_counts [simp]: "map_ok s \<Longrightarrow> map_ok (classify_counts s)"
  using trace_bits_classify_counts [of s]
  by (simp add: map_ok_def classify_counts_def)

lemma words64_le: "map_ok s \<Longrightarrow> 8 * words64 s \<le> map_size s"
proof -
  assume ok: "map_ok s"
  then obtain n where n: "map_size s = 64 * n" by (auto simp: map_ok_def)
  with ok have "real_map_size s + 7 < 8 * n * 8 + 8" by (simp add: map_ok_def)
  then have "(real_map_size s + 7) div 8 < 8 * n + 1" by (intro less_mult_imp_div_less) simp
  then show ?thesis by (simp add: words64_def drop_bit_eq_div n)
qed

lemma length_get_virgin: "map_ok s \<Longrightarrow> length (get_virgin vm s) = map_size s"
  by (cases vm) (auto simp: map_ok_def)

lemma get_set_virgin [simp]: "get_virgin vm (set_virgin vm b s) = b"
  by (cases vm) auto

lemma get_virgin_bitmap_changed [simp]: "get_virgin vm (s\<lparr>bitmap_changed := c\<rparr>) = get_virgin vm s"
  by (cases vm) auto

lemma has_new_bits_eq:
  assumes "map_ok s"
  shows "has_new_bits vm s =
    (let n = 8 * words64 s; ret = new_cov (trace_bits s) (get_virgin vm s) n;
         s' = set_virgin vm (erase (trace_bits s) (get_virgin vm s) n) s
     in (ret, if ret \<noteq> 0 \<and> vm = Virgin_bits then s'\<lparr>bitmap_changed := True\<rparr> else s'))"
  using has_new_bits_fold [of "words64 s" "get_virgin vm s" "trace_bits s"] words64_le [OF assms]
  by (simp add: has_new_bits_def length_get_virgin assms Let_def)

lemma new_cov_erase: "n \<le> length vir \<Longrightarrow> new_cov cur (erase cur vir n) n = 0"
proof -
  assume n: "n \<le> length vir"
  have clash: "c AND (v AND NOT c) = 0" for c v :: u8
    by (rule bit_word_eqI) (auto simp: bit_simps)
  have "\<not> (c \<noteq> 0 \<and> v AND NOT c = 0xff)" for c v :: u8
    using clash [of c v] by auto
  with n clash show ?thesis by (auto simp: new_cov_def)
qed

lemma map_ok_set_virgin [simp]:
  "map_ok s \<Longrightarrow> length b = map_size s \<Longrightarrow> map_ok (set_virgin vm b s)"
  by (cases vm) (auto simp: map_ok_def)

lemma map_ok_bitmap_changed [simp]: "map_ok (s\<lparr>bitmap_changed := c\<rparr>) = map_ok s"
  by (simp add: map_ok_def)

lemma set_virgin_frame [simp]:
  "trace_bits (set_virgin vm b s) = trace_bits s" "map_size (set_virgin vm b s) = map_size s"
  "real_map_size (set_virgin vm b s) = real_map_size s" "words64 (set_virgin vm b s) = words64 s"
  "bitmap_changed (set_virgin vm b s) = bitmap_changed s"
  by (cases vm; simp add: words64_def)+

lemma words64_bitmap_changed [simp]: "words64 (s\<lparr>bitmap_changed := c\<rparr>) = words64 s"
  by (simp add: words64_def)

lemma map_ok_has_new_bits [simp]: "map_ok s \<Longrightarrow> map_ok (snd (has_new_bits vm s))"
  by (cases vm) (auto simp: has_new_bits_eq Let_def map_ok_def)

lemma has_new_bits_frame:
  assumes "map_ok s"
  shows "trace_bits (snd (has_new_bits vm s)) = trace_bits s"
    and "words64 (snd (has_new_bits vm s)) = words64 s"
    and "get_virgin vm (snd (has_new_bits vm s)) = erase (trace_bits s) (get_virgin vm s) (8 * words64 s)"
  using assms by (cases vm; simp add: has_new_bits_eq Let_def words64_def)+

lemma has_new_bits_twice:
  assumes "map_ok s"
  shows "fst (has_new_bits vm (snd (has_new_bits vm s))) = 0"
proof -
  have "map_ok (snd (has_new_bits vm s))" using assms by simp
  then show ?thesis
    using words64_le [OF assms] length_get_virgin [OF assms]
    by (simp add: has_new_bits_eq [of "snd (has_new_bits vm s)"] Let_def has_new_bits_frame [OF assms] new_cov_erase)
qed

text \<open>The four-word scan stops at the first word whose classified hit counts are still virgin.\<close>

definition fresh_word :: "buf \<Rightarrow> buf \<Rightarrow> nat \<Rightarrow> bool" where
  "fresh_word cur vir j \<longleftrightarrow> classify_word (load64 cur (8 * j)) AND load64 vir (8 * j) \<noteq> 0"

lemma skim_iff:
  assumes "k \<le> n" and "4 dvd n - k"
  shows "skim vir cur k n \<longleftrightarrow> (\<exists>j. k \<le> j \<and> j < n \<and> fresh_word cur vir j)"
  using assms
proof (induction vir cur k n rule: skim.induct)
  case (1 vir cur k n)
  show ?case
  proof (cases "k < n")
    case True
    with "1.prems" have k4: "k + 4 \<le> n" "4 dvd n - (k + 4)"
    proof -
      obtain m where m: "n - k = 4 * m" using "1.prems" by (elim dvdE)
      with True obtain m' where "m = Suc m'" by (cases m) auto
      with m True have "n = k + 4 + 4 * m'" by simp
      then show "k + 4 \<le> n" and "4 dvd n - (k + 4)" by simp_all
    qed
    let ?four = "\<exists>j<4. load64 cur (8 * (k + j)) \<noteq> 0 \<and>
        classify_word (load64 cur (8 * (k + j))) AND load64 vir (8 * (k + j)) \<noteq> 0"
    have zero: "load64 cur i \<noteq> 0 \<and> classify_word (load64 cur i) AND w \<noteq> 0 \<longleftrightarrow>
        classify_word (load64 cur i) AND w \<noteq> 0" for i w
      using classify_word_eq_0 [THEN iffD2, OF refl] by (cases "load64 cur i = 0") (simp_all del: classify_word_eq_0)
    have four: "?four \<longleftrightarrow> (\<exists>j<4. fresh_word cur vir (k + j))"
      unfolding zero fresh_word_def ..
    have split: "(\<exists>j. k \<le> j \<and> j < n \<and> P j) \<longleftrightarrow> (\<exists>j<4. P (k + j)) \<or> (\<exists>j. k + 4 \<le> j \<and> j < n \<and> P j)" for P
    proof
      assume "\<exists>j. k \<le> j \<and> j < n \<and> P j"
      then obtain j where j: "k \<le> j" "j < n" "P j" by blast
      show "(\<exists>j<4. P (k + j)) \<or> (\<exists>j. k + 4 \<le> j \<and> j < n \<and> P j)"
      proof (cases "j < k + 4")
        case True
        then have "j - k < 4 \<and> P (k + (j - k))" using j by simp
        then show ?thesis by blast
      qed (use j in auto)
    next
      assume "(\<exists>j<4. P (k + j)) \<or> (\<exists>j. k + 4 \<le> j \<and> j < n \<and> P j)"
      then show "\<exists>j. k \<le> j \<and> j < n \<and> P j"
        using k4(1) by (metis add_leE le_add1 nat_add_left_cancel_less order_less_le_trans)
    qed
    have "skim vir cur k n \<longleftrightarrow> ?four \<or> skim vir cur (k + 4) n"
      using True by (subst skim.simps) (auto simp: list_ex_iff Bex_def)
    then show ?thesis
      using "1.IH" True k4 four split by (auto simp: list_ex_iff)
  qed (use "1.prems" in \<open>simp add: skim.simps\<close>)
qed

lemma count_class_lookup8_eq_0 [simp]: "count_class_lookup8 b = 0 \<longleftrightarrow> b = 0"
  by (simp add: count_class_lookup8_def)

lemma fresh_word_bytes:
  "fresh_word cur vir j \<longleftrightarrow> (\<exists>k<8. count_class_lookup8 (cur ! (8 * j + k)) AND vir ! (8 * j + k) \<noteq> 0)"
  by (simp add: fresh_word_def u64_eq_iff_bytes byte_of_classify_word)

text \<open>
  Words past the real map: the runtime hands out indices below the real map size only, so
  a trace is zero from there on.
\<close>

definition trace_tail_clear :: "'a map_state_scheme \<Rightarrow> bool" where
  "trace_tail_clear s \<longleftrightarrow> (\<forall>j. 8 * words64 s \<le> j \<and> j < map_size s \<longrightarrow> trace_bits s ! j = 0)"

lemma map_words:
  assumes "map_ok s"
  obtains n where "map_size s = 8 * n" "4 dvd n" "(map_size s + 7) div 8 = n" "words64 s \<le> n"
proof -
  obtain m where m: "map_size s = 64 * m" using assms by (auto simp: map_ok_def)
  have "words64 s \<le> 8 * m" using words64_le [OF assms] m by simp
  moreover have "(map_size s + 7) div 8 = 8 * m" using m by simp
  ultimately show thesis using m by (intro that [of "8 * m"]) auto
qed

lemma words64_classify_counts [simp]: "words64 (classify_counts s) = words64 s"
  by (simp add: classify_counts_def words64_def)

lemma get_virgin_classify_counts [simp]: "get_virgin vm (classify_counts s) = get_virgin vm s"
  by (cases vm) (simp_all add: classify_counts_def)

lemma skim_map_iff:
  assumes ok: "map_ok s" and tail: "trace_tail_clear s"
  shows "skim (get_virgin vm s) (trace_bits s) 0 ((map_size s + 7) div 8) \<longleftrightarrow>
    new_cov (trace_bits (classify_counts s)) (get_virgin vm s) (8 * words64 s) \<noteq> 0"
proof -
  let ?c = "trace_bits s" and ?v = "get_virgin vm s"
  obtain n where n: "map_size s = 8 * n" "4 dvd n" "(map_size s + 7) div 8 = n" "words64 s \<le> n"
    using map_words [OF ok] .
  have len: "length ?c = 8 * n" using ok n(1) by (simp add: map_ok_def)
  let ?hit = "\<lambda>j. count_class_lookup8 (?c ! j) AND ?v ! j \<noteq> 0"
  have "skim ?v ?c 0 n \<longleftrightarrow> (\<exists>j<n. fresh_word ?c ?v j)"
    using skim_iff [of 0 n ?v ?c] n(2) by simp
  also have "\<dots> \<longleftrightarrow> (\<exists>i<8 * n. ?hit i)"
  proof
    assume "\<exists>j<n. fresh_word ?c ?v j"
    then obtain j k where jk: "j < n" "k < 8" "?hit (8 * j + k)" by (auto simp: fresh_word_bytes)
    then have "8 * j + k < 8 * n" by simp
    with jk show "\<exists>i<8 * n. ?hit i" by blast
  next
    assume "\<exists>i<8 * n. ?hit i"
    then obtain i where i: "i < 8 * n" "?hit i" by blast
    then have "i div 8 < n" "i mod 8 < 8" "?hit (8 * (i div 8) + i mod 8)" by simp_all
    then show "\<exists>j<n. fresh_word ?c ?v j" unfolding fresh_word_bytes by blast
  qed
  also have "\<dots> \<longleftrightarrow> (\<exists>i<8 * words64 s. ?hit i)"
  proof -
    have "i < 8 * words64 s" if "i < 8 * n" "?hit i" for i
    proof (rule ccontr)
      assume "\<not> i < 8 * words64 s"
      then have "?c ! i = 0" using that(1) tail n(1) by (simp add: trace_tail_clear_def)
      with that(2) show False by (simp add: count_class_lookup8_def)
    qed
    moreover have "i < 8 * n" if "i < 8 * words64 s" for i using that n(4) by simp
    ultimately show ?thesis by blast
  qed
  also have "\<dots> \<longleftrightarrow> new_cov (map count_class_lookup8 ?c) ?v (8 * words64 s) \<noteq> 0"
  proof -
    have nth: "i < 8 * words64 s \<Longrightarrow> map count_class_lookup8 ?c ! i = count_class_lookup8 (?c ! i)" for i
      using len n(4) by simp
    have "?hit i" if "?c ! i \<noteq> 0" "?v ! i = 0xff" for i
      unfolding that(2) and_0xff using that(1) by simp
    then show ?thesis by (auto simp: new_cov_def nth)
  qed
  finally show ?thesis by (simp only: n(3) trace_bits_classify_counts [OF ok])
qed

text \<open>Nothing new: erasing changes nothing and the state is as it was.\<close>

lemma erase_id:
  assumes "new_cov cur vir n = 0" and "n \<le> length vir"
  shows "erase cur vir n = vir"
proof (rule nth_equalityI)
  fix j assume "j < length (erase cur vir n)"
  then show "erase cur vir n ! j = vir ! j"
    using assms by (auto simp: new_cov_def and_not_disjoint split: if_splits)
qed simp

lemma set_get_virgin [simp]: "set_virgin vm (get_virgin vm s) s = s"
  by (cases vm) auto

lemma has_new_bits_nothing:
  assumes "map_ok s" and "new_cov (trace_bits s) (get_virgin vm s) (8 * words64 s) = 0"
  shows "has_new_bits vm s = (0, s)"
  using assms words64_le [OF assms(1)] length_get_virgin [OF assms(1)]
  by (simp add: has_new_bits_eq Let_def erase_id)

lemma has_new_bits_unclassified_eq:
  assumes "map_ok s" and "trace_tail_clear s"
  shows "has_new_bits_unclassified vm s =
    (if fst (has_new_bits vm (classify_counts s)) = 0 then (0, s)
     else has_new_bits vm (classify_counts s))"
  using skim_map_iff [OF assms, of vm] assms(1)
  by (auto simp: has_new_bits_unclassified_def has_new_bits_eq Let_def)

section \<open>The minimised map and the trimmed trace\<close>

lemma drop_bit_3: "drop_bit 3 n = n div 8" for n :: nat
  by (simp add: drop_bit_eq_div)

lemma and_7: "n AND 7 = n mod 8" for n :: nat
  using take_bit_eq_mask [of 3 n] by (simp add: mask_eq_exp_minus_1 take_bit_eq_mod)

lemma length_minimize_fold [simp]: "length (fold (minimize_bit src) is dst) = length dst"
  by (induction "is" arbitrary: dst) (auto simp: minimize_bit_def)

lemma bit_minimize_bit:
  assumes "n < 8 * length dst"
  shows "bit (minimize_bit src n dst ! (j div 8)) (j mod 8) \<longleftrightarrow>
    bit (dst ! (j div 8)) (j mod 8) \<or> (j = n \<and> src ! n \<noteq> 0)"
proof -
  have "n div 8 < length dst" using assms by auto
  moreover have "j = n \<longleftrightarrow> n div 8 = j div 8 \<and> n mod 8 = j mod 8"
    by (metis div_mult_mod_eq)
  moreover have "bit (push_bit (n mod 8) 1 :: u8) (j mod 8) \<longleftrightarrow> n mod 8 = j mod 8"
    by (auto simp: bit_simps)
  ultimately show ?thesis
    by (auto simp: minimize_bit_def drop_bit_3 and_7 nth_list_update_if bit_or_iff simp del: push_bit_of_1)
qed

lemma bit_minimize_bits:
  assumes "map_size s \<le> 8 * length dst" and "j < map_size s"
  shows "bit (minimize_bits s dst src ! (j div 8)) (j mod 8) \<longleftrightarrow>
    bit (dst ! (j div 8)) (j mod 8) \<or> src ! j \<noteq> 0"
proof -
  have "bit (fold (minimize_bit src) [0..<n] dst ! (j div 8)) (j mod 8) \<longleftrightarrow>
    bit (dst ! (j div 8)) (j mod 8) \<or> (j < n \<and> src ! j \<noteq> 0)" if "n \<le> 8 * length dst" for n
    using that by (induction n) (auto simp: bit_minimize_bit less_Suc_eq)
  from this [OF assms(1)] show ?thesis using assms(2) by (simp add: minimize_bits_def)
qed

lemma simplify_trace_word_bytes:
  assumes "8 * Suc k \<le> length m"
  shows "length (simplify_trace_word k m) = length m \<and>
    (\<forall>j<length m. simplify_trace_word k m ! j =
      (if 8 * k \<le> j \<and> j < 8 * k + 8 then simplify_lookup (m ! j) else m ! j))"
proof (cases "load64 m (8 * k) = 0")
  case True
  have ones: "byte_of i (0x0101010101010101 :: u64) = 1" if "i < 8" for i
  proof -
    have "i \<in> {0, 1, 2, 3, 4, 5, 6, 7}" using that by auto
    then show ?thesis by (auto simp: byte_of_def drop_bit_eq_div)
  qed
  have zeros: "m ! j = 0" if "8 * k \<le> j" "j < 8 * k + 8" for j
  proof -
    have "m ! (8 * k + (j - 8 * k)) = 0"
      using that True by (intro load64_eq_0 [THEN iffD1, rule_format]) auto
    then show ?thesis using that by simp
  qed
  show ?thesis
    using assms True by (auto simp: simplify_trace_word_def nth_store64 ones zeros simplify_lookup_def)
next
  case False
  let ?g = "\<lambda>j m. m[8 * k + j := simplify_lookup (m ! (8 * k + j))]"
  have "length (fold ?g [0..<n] m) = length m \<and> (\<forall>j<length m. fold ?g [0..<n] m ! j =
      (if 8 * k \<le> j \<and> j < 8 * k + n then simplify_lookup (m ! j) else m ! j))" if "n \<le> 8" for n
    using that assms by (induction n) (auto simp: nth_list_update_if)
  then show ?thesis using False by (simp add: simplify_trace_word_def)
qed

lemma simplify_trace_eq:
  assumes "map_ok s" and "length b = map_size s"
  shows "simplify_trace s b = map simplify_lookup b"
proof -
  obtain n where n: "map_size s = 8 * n" using map_words [OF assms(1)] by metis
  then have "drop_bit 3 (map_size s) = n" by (simp add: drop_bit_eq_div)
  then show ?thesis
    using assms n fold_words_map [OF simplify_trace_word_bytes, of n b]
    by (simp add: simplify_trace_def map_prefix_def)
qed

section \<open>Counting bytes\<close>

lemma byte_of_load32 [simp]: "k < 4 \<Longrightarrow> byte_of k (load32 b i) = b ! (i + k)"
  by (rule bit_word_eqI) (auto simp: byte_of_def bit_simps bit_load32)

lemma byte_of_and_lane:
  fixes x :: u32
  assumes "k < 4" and "j < 4"
  shows "byte_of j (x AND push_bit (8 * k) 0xff) = (if j = k then byte_of k x else 0)"
proof -
  have m: "(0xff :: u32) = mask 8" by (simp add: mask_eq_exp_minus_1)
  have "\<not> (8 * k \<le> n + 8 * j \<and> n + 8 * j - 8 * k < 8)" if "n < 8" "j \<noteq> k" for n
    using that by (cases "j < k") auto
  then show ?thesis
    unfolding m using assms by (intro bit_word_eqI) (auto simp: byte_of_def bit_simps)
qed

lemma u32_eq_iff_bytes: "x = y \<longleftrightarrow> (\<forall>k<4. byte_of k x = byte_of k y)" for x y :: u32
proof
  assume bytes: "\<forall>k<4. byte_of k x = byte_of k y"
  show "x = y"
  proof (rule bit_word_eqI)
    fix n
    assume "n < LENGTH(32)"
    then have "bit (byte_of (n div 8) x) (n mod 8) = bit (byte_of (n div 8) y) (n mod 8)"
      using bytes by simp
    then show "bit x n = bit y n" by (simp add: byte_of_def bit_simps)
  qed
qed simp

lemma and_lane_eq:
  "x AND push_bit (8 * k) 0xff = y AND push_bit (8 * k) 0xff \<longleftrightarrow> byte_of k x = byte_of k y"
  if "k < 4" for x y :: u32
  using that by (subst u32_eq_iff_bytes) (auto simp: byte_of_and_lane simp del: byte_of_and)

lemma byte_of_ones: "k < 4 \<Longrightarrow> byte_of k (- 1 :: u32) = 0xff"
proof -
  assume "k < 4"
  then have "byte_of k (- 1 :: u32) = - 1"
    by (intro bit_word_eqI) (auto simp: byte_of_def bit_simps)
  then show ?thesis by simp
qed

lemma lanes_test:
  fixes v :: u32
  shows "v AND 0x000000ff = 0 \<longleftrightarrow> byte_of 0 v = 0" "v AND 0x0000ff00 = 0 \<longleftrightarrow> byte_of 1 v = 0"
    "v AND 0x00ff0000 = 0 \<longleftrightarrow> byte_of 2 v = 0" "v AND 0xff000000 = 0 \<longleftrightarrow> byte_of 3 v = 0"
    "v AND 0x000000ff = 0x000000ff \<longleftrightarrow> byte_of 0 v = 0xff" "v AND 0x0000ff00 = 0x0000ff00 \<longleftrightarrow> byte_of 1 v = 0xff"
    "v AND 0x00ff0000 = 0x00ff0000 \<longleftrightarrow> byte_of 2 v = 0xff" "v AND 0xff000000 = 0xff000000 \<longleftrightarrow> byte_of 3 v = 0xff"
  using and_lane_eq [of 0 v 0] and_lane_eq [of 1 v 0] and_lane_eq [of 2 v 0] and_lane_eq [of 3 v 0]
    and_lane_eq [of 0 v "-1"] and_lane_eq [of 1 v "-1"] and_lane_eq [of 2 v "-1"] and_lane_eq [of 3 v "-1"]
  by (simp_all add: push_bit_eq_mult byte_of_ones)

definition byte_count :: "(u8 \<Rightarrow> bool) \<Rightarrow> buf \<Rightarrow> nat" where
  "byte_count P b = length (filter P b)"

lemma take_4_Suc: "4 * Suc k \<le> length m \<Longrightarrow>
  take (4 * Suc k) m = take (4 * k) m @ [m ! (4 * k), m ! (4 * k + 1), m ! (4 * k + 2), m ! (4 * k + 3)]"
proof -
  assume len: "4 * Suc k \<le> length m"
  have "take (4 * Suc k) m = take (4 * k) m @ take 4 (drop (4 * k) m)"
    by (simp only: take_add [symmetric]) (simp add: add.commute)
  moreover have "take 4 (drop (4 * k) m) = [m ! (4 * k), m ! (4 * k + 1), m ! (4 * k + 2), m ! (4 * k + 3)]"
    using len by (intro nth_equalityI) (auto simp: numeral_eq_Suc less_Suc_eq)
  ultimately show ?thesis by simp
qed

lemma load32_eq_bytes:
  "load32 m i = 0 \<longleftrightarrow> m ! i = 0 \<and> m ! (i + 1) = 0 \<and> m ! (i + 2) = 0 \<and> m ! (i + 3) = 0"
  "load32 m i = 0xffffffff \<longleftrightarrow> m ! i = 0xff \<and> m ! (i + 1) = 0xff \<and> m ! (i + 2) = 0xff \<and> m ! (i + 3) = 0xff"
proof -
  have four: "(\<forall>k<4. P k) \<longleftrightarrow> P 0 \<and> P 1 \<and> P 2 \<and> P (3 :: nat)" for P
    by (simp add: numeral_eq_Suc All_less_Suc) blast
  have ones: "byte_of k (0xffffffff :: u32) = 0xff" if "k < 4" for k
  proof -
    have "(0xffffffff :: u32) = - 1" by simp
    then show ?thesis using byte_of_ones [OF that] by (simp only:)
  qed
  show "load32 m i = 0 \<longleftrightarrow> m ! i = 0 \<and> m ! (i + 1) = 0 \<and> m ! (i + 2) = 0 \<and> m ! (i + 3) = 0"
    by (subst u32_eq_iff_bytes) (simp add: four)
  show "load32 m i = 0xffffffff \<longleftrightarrow> m ! i = 0xff \<and> m ! (i + 1) = 0xff \<and> m ! (i + 2) = 0xff \<and> m ! (i + 3) = 0xff"
    by (subst u32_eq_iff_bytes) (simp add: four ones)
qed

lemma load32_byte_tests:
  "load32 m i AND 0x000000ff = 0 \<longleftrightarrow> m ! i = 0" "load32 m i AND 0x0000ff00 = 0 \<longleftrightarrow> m ! (i + 1) = 0"
  "load32 m i AND 0x00ff0000 = 0 \<longleftrightarrow> m ! (i + 2) = 0" "load32 m i AND 0xff000000 = 0 \<longleftrightarrow> m ! (i + 3) = 0"
  "load32 m i AND 0x000000ff = 0x000000ff \<longleftrightarrow> m ! i = 0xff" "load32 m i AND 0x0000ff00 = 0x0000ff00 \<longleftrightarrow> m ! (i + 1) = 0xff"
  "load32 m i AND 0x00ff0000 = 0x00ff0000 \<longleftrightarrow> m ! (i + 2) = 0xff" "load32 m i AND 0xff000000 = 0xff000000 \<longleftrightarrow> m ! (i + 3) = 0xff"
  by (simp_all only: lanes_test) simp_all

lemma count_bytes_word_step:
  "count_bytes_word m k ret = ret + of_nat (byte_count (\<lambda>b. b \<noteq> 0) [m ! (4 * k), m ! (4 * k + 1), m ! (4 * k + 2), m ! (4 * k + 3)])"
  unfolding count_bytes_word_def Let_def load32_eq_bytes(1) load32_byte_tests byte_count_def
  by simp

lemma count_bytes_eq:
  assumes "4 * words32 s \<le> length m"
  shows "count_bytes s m = of_nat (byte_count (\<lambda>b. b \<noteq> 0) (take (4 * words32 s) m))"
proof -
  have "fold (count_bytes_word m) [0..<n] 0 = of_nat (byte_count (\<lambda>b. b \<noteq> 0) (take (4 * n) m))"
    if "4 * n \<le> length m" for n
    using that
  proof (induction n)
    case (Suc n)
    then show ?case
      by (simp only: take_4_Suc upt_Suc_append fold_append o_apply fold_simps count_bytes_word_step le0)
        (simp add: byte_count_def)
  qed (simp add: byte_count_def)
  from this [OF assms] show ?thesis by (simp add: count_bytes_def)
qed
lemma count_non_255_word_step:
  "count_non_255_word m k ret = ret + of_nat (byte_count (\<lambda>b. b \<noteq> 0xff) [m ! (4 * k), m ! (4 * k + 1), m ! (4 * k + 2), m ! (4 * k + 3)])"
  unfolding count_non_255_word_def Let_def load32_eq_bytes(2) load32_byte_tests byte_count_def
  by simp

lemma count_non_255_bytes_eq:
  assumes "4 * words32 s \<le> length m"
  shows "count_non_255_bytes s m = of_nat (byte_count (\<lambda>b. b \<noteq> 0xff) (take (4 * words32 s) m))"
proof -
  have "fold (count_non_255_word m) [0..<n] 0 = of_nat (byte_count (\<lambda>b. b \<noteq> 0xff) (take (4 * n) m))"
    if "4 * n \<le> length m" for n
    using that
  proof (induction n)
    case (Suc n)
    then show ?case
      by (simp only: take_4_Suc upt_Suc_append fold_append o_apply fold_simps count_non_255_word_step le0)
        (simp add: byte_count_def)
  qed (simp add: byte_count_def)
  from this [OF assms] show ?thesis by (simp add: count_non_255_bytes_def)
qed

end
