(* ===== verification/State.thy ===== *)
theory State
  imports Bitmap Complex_Main
begin

text \<open>
  The state of the fuzzer: the fields of \<^verbatim>\<open>struct queue_entry\<close>,
  \<^verbatim>\<open>struct extra_data\<close>, \<^verbatim>\<open>afl_forkserver_t\<close> and \<^verbatim>\<open>afl_state_t\<close>
  (\<^verbatim>\<open>include/afl-fuzz.h\<close>) that the modelled code reads or writes, grouped as the
  components use them, and the world around the program as a record of functions.

  A pointer to a queue entry is the entry's index in \<^verbatim>\<open>queue_buf\<close>: entries are
  appended, never freed and never reordered while the fuzzer runs. A null pointer is
  \<^term>\<open>None\<close>.
\<close>

section \<open>Enumerations\<close>

datatype fault = FSRV_RUN_OK | FSRV_RUN_TMOUT | FSRV_RUN_CRASH | FSRV_RUN_ERROR
  | FSRV_RUN_NOINST | FSRV_RUN_NOBITS

datatype schedule = EXPLORE | MMOPT | EXPLOIT | FAST | COE | LIN | QUAD | RARE | SEEK

text \<open>The enumeration is compared with \<^verbatim>\<open><\<close>, so it carries the order of its declaration.\<close>

fun schedule_num :: "schedule \<Rightarrow> nat" where
  "schedule_num EXPLORE = 0" | "schedule_num MMOPT = 1" | "schedule_num EXPLOIT = 2"
| "schedule_num FAST = 3" | "schedule_num COE = 4" | "schedule_num LIN = 5"
| "schedule_num QUAD = 6" | "schedule_num RARE = 7" | "schedule_num SEEK = 8"

instantiation schedule :: linorder
begin

definition less_eq_schedule :: "schedule \<Rightarrow> schedule \<Rightarrow> bool" where
  "less_eq_schedule a b \<longleftrightarrow> schedule_num a \<le> schedule_num b"

definition less_schedule :: "schedule \<Rightarrow> schedule \<Rightarrow> bool" where
  "less_schedule a b \<longleftrightarrow> schedule_num a < schedule_num b"

instance
proof
  fix a b :: schedule
  show "a \<le> b \<Longrightarrow> b \<le> a \<Longrightarrow> a = b"
    by (cases a; cases b) (simp_all add: less_eq_schedule_def)
qed (auto simp: less_eq_schedule_def less_schedule_def)

end

datatype val_type = STAGE_VAL_NONE | STAGE_VAL_LE | STAGE_VAL_BE

datatype stage_id = STAGE_FLIP1 | STAGE_FLIP2 | STAGE_FLIP4 | STAGE_FLIP8 | STAGE_FLIP16
  | STAGE_FLIP32 | STAGE_ARITH8 | STAGE_ARITH16 | STAGE_ARITH32 | STAGE_INTEREST8
  | STAGE_INTEREST16 | STAGE_INTEREST32 | STAGE_EXTRAS_UO | STAGE_EXTRAS_UI | STAGE_EXTRAS_AO
  | STAGE_EXTRAS_AI | STAGE_HAVOC | STAGE_SPLICE | STAGE_PYTHON | STAGE_CUSTOM_MUTATOR
  | STAGE_COLORIZATION | STAGE_ITS | STAGE_INF | STAGE_QUICK

section \<open>Queue entries and dictionary tokens\<close>

text \<open>
  \<^term>\<open>q_file\<close> is the contents of the file \<^verbatim>\<open>fname\<close> names; the fields of
  \<^verbatim>\<open>struct skipdet_entry\<close>, which every entry owns, are put beside the others. The
  \<^verbatim>\<open>double\<close> \<^verbatim>\<open>perf_score\<close> only ever holds the \<^verbatim>\<open>u32\<close> that
  \<^verbatim>\<open>calculate_score\<close> returns; other floating-point values are rational numbers.
\<close>

record queue_entry =
  q_file :: buf
  q_len :: u32
  q_id :: u32
  cal_failed :: u8
  trim_done :: bool
  was_fuzzed :: bool
  passed_det :: bool
  has_new_cov :: bool
  var_behavior :: bool
  favored :: bool
  fs_redundant :: bool
  disabled :: bool
  bitmap_size :: u32
  fuzz_level :: u32
  n_fuzz_entry :: u32
  exec_us :: u64
  handicap :: u64
  depth :: u64
  exec_cksum :: u64
  trace_mini :: "buf option"
  tc_ref :: u32
  testcase_buf :: "buf option"
  mother :: "nat option"
  perf_score :: u32
  weight :: rat
  continue_inf :: bool
  done_eff :: bool
  undet_bits :: u32
  quick_eff_bytes :: u32
  skip_eff_map :: "buf option"
  done_inf_map :: "buf option"

record extra_data =
  e_data :: buf
  e_len :: nat
  hit_cnt :: u32

section \<open>The fuzzer\<close>

record rng_state = map_state +
  rand_seed :: "u64 \<times> u64 \<times> u64"
  rand_cnt :: u32
  fixed_seed :: bool
  urandom_reads :: nat

text \<open>
  \<^term>\<open>testcase\<close> is what was last written for the target to read,
  \<^term>\<open>delivered\<close> is what the target has been given so far, in order, and
  \<^term>\<open>ticks\<close> the number of times the clock has been read: the two positions of the
  program in the world around it.
\<close>

record fsrv_state = rng_state +
  exec_tmout :: u32
  hang_tmout :: u32
  total_execs :: u64
  stop_soon :: bool
  skip_requested :: bool
  testcase :: buf
  delivered :: "buf list"
  ticks :: nat

record queue_state = fsrv_state +
  queue_buf :: "queue_entry list"
  queue_cur :: nat
  queue_top :: nat
  queued_items :: u32
  active_items :: u32
  pending_not_fuzzed :: u32
  pending_favored :: u32
  queued_favored :: u32
  queued_with_cov :: u32
  queued_variable :: u32
  queued_discovered :: u32
  ready_for_splicing_count :: u32
  cur_depth :: u32
  max_depth :: u32
  queue_cycle :: u64
  cycles_wo_finds :: u64
  start_time :: u64
  last_find_time :: u64
  longest_find_time :: u64
  smallest_favored :: int
  score_changed :: bool
  reinit_table :: bool
  top_rated :: "nat option list"
  schedule :: schedule
  n_fuzz :: "u32 list"
  non_instrumented_mode :: bool
  afl_disable_redundant :: bool
  q_testcase_max_cache_size :: u64
  q_testcase_cache_size :: u64
  q_testcase_max_cache_entries :: u32
  q_testcase_max_cache_count :: u32
  q_testcase_cache_count :: u32
  q_testcase_smallest_free :: u32
  q_testcase_evictions :: u32
  q_testcase_cache :: "nat option list"
  cache_do_once :: bool

record dict_state = queue_state +
  extras :: "extra_data list"
  a_extras :: "extra_data list"
  max_det_extras :: u32
  auto_changed :: bool

record stage_state = dict_state +
  stage_name :: string
  stage_short :: string
  stage_cur :: u32
  stage_max :: u32
  stage_cur_byte :: u32
  stage_cur_val :: u32
  stage_val_type :: val_type
  stage_finds :: "stage_id \<Rightarrow> u64"
  stage_cycles :: "stage_id \<Rightarrow> u64"
  blocks_eff_total :: u64
  blocks_eff_select :: u64
  no_arith :: bool
  saved_crashes :: u64
  cur_skipped_items :: u32
  subseq_tmouts :: u32

record afl_state = stage_state +
  crash_mode :: fault
  min_length :: nat
  max_length :: nat
  first_trace :: buf
  var_bytes :: buf
  var_byte_count :: u32
  cal_fast :: bool
  resuming_fuzz :: bool
  calibration_time_us :: u64
  total_cal_us :: u64
  total_cal_cycles :: u64
  total_bitmap_size :: u64
  total_bitmap_entries :: u64
  total_crashes :: u64
  total_tmouts :: u64
  saved_hangs :: u64
  saved_tmouts :: u64
  last_hang_time :: u64
  last_crash_time :: u64
  last_crash_execs :: u64
  fuzz_mode :: bool
  switch_fuzz_mode :: u64
  run_over10m :: bool
  ignore_timeouts :: bool
  keep_timeouts :: bool
  queue_files :: "buf list"
  crash_files :: "buf list"
  hang_files :: "buf list"
  current_entry :: u32
  use_splicing :: bool
  splicing_with :: int
  input_mode :: nat
  havoc_div :: u32
  havoc_max_mult :: u32
  havoc_stack_pow2 :: nat
  in_training :: bool
  stack_epsilon :: rat
  stack_with_most_finds :: u32
  finds_per_stack :: "u32 list"
  finds_per_mutator :: "u32 list list"
  prob_table_mut :: "rat list list"
  alias_table_mut :: "u32 list list"
  mut_probabilities :: "rat list list"
  using_egreedy_for_nstack :: bool
  libc_draws :: nat
  skip_deterministic :: bool
  disable_trim :: bool
  old_seed_selection :: bool
  main_node_id :: u32
  main_node_max :: u32
  clean_trace :: buf
  bytes_trim_in :: u64
  bytes_trim_out :: u64
  trim_execs :: u64
  trim_time_us :: u64
  alias_table :: "u32 list"
  alias_probability :: "rat list"
  limit_time_sig :: int
  undet_bits_threshold :: u32
  last_cov_undet :: u64
  virgin_det_bits :: "buf option"
  inf_skipped_bytes :: u64
  inf_execs_cost :: u64
  inf_time_cost :: u64
  cycle_schedules :: bool
  expand_havoc :: u8
  not_on_tty :: bool

type_synonym afl = afl_state

section \<open>The world\<close>

text \<open>
  What the program reaches through the operating system and through libraries that are not
  its own code. A run of the target sees everything delivered before it (so it need not be
  deterministic), the current input and the timeout; it yields the trace left in the shared
  map, the status, and whether a signal arrived that asks to stop or to skip.
  \<open>libc_rand k\<close> is the result of the \<open>k\<close>-th call of \<^verbatim>\<open>rand\<close>, \<open>uninit\<close> the
  contents of memory that has not been written, \<open>libm_log2\<close>, \<open>libm_log10\<close> and \<open>libm_log\<close> the
  logarithms of the mathematical library, and \<open>env_set\<close> tells which environment variables are set.
\<close>

record run_outcome =
  out_trace :: buf
  out_fault :: fault
  out_stop :: bool
  out_skip :: bool

record world =
  target :: "buf list \<Rightarrow> buf \<Rightarrow> u32 \<Rightarrow> run_outcome"
  XXH3_64bits :: "buf \<Rightarrow> u64"
  clock_ms :: "nat \<Rightarrow> u64"
  clock_us :: "nat \<Rightarrow> u64"
  urandom :: "nat \<Rightarrow> u64 \<times> u64 \<times> u64"
  libc_rand :: "nat \<Rightarrow> nat"
  uninit :: "nat \<Rightarrow> u8"
  libm_log2 :: "u32 \<Rightarrow> rat"
  libm_log10 :: "u32 \<Rightarrow> rat"
  libm_log :: "u32 \<Rightarrow> rat"
  env_set :: "string \<Rightarrow> bool"

definition hash64 :: "world \<Rightarrow> buf \<Rightarrow> u64" where
  "hash64 w key = XXH3_64bits w key"

definition get_cur_time :: "world \<Rightarrow> 'a fsrv_state_scheme \<Rightarrow> u64 \<times> 'a fsrv_state_scheme" where
  "get_cur_time w s = (clock_ms w (ticks s), s\<lparr>ticks := Suc (ticks s)\<rparr>)"

definition get_cur_time_us :: "world \<Rightarrow> 'a fsrv_state_scheme \<Rightarrow> u64 \<times> 'a fsrv_state_scheme" where
  "get_cur_time_us w s = (clock_us w (ticks s), s\<lparr>ticks := Suc (ticks s)\<rparr>)"

end
