(* ===== verification/Rng.thy ===== *)
theory Rng
  imports State "HOL-Library.Monad_Syntax"
begin

text \<open>
  Random numbers: \<^verbatim>\<open>rand_set_seed\<close> and \<^verbatim>\<open>rand_next\<close> (romuDuoJr, 64-bit
  hosts) of \<^verbatim>\<open>src/afl-performance.c\<close>, \<^verbatim>\<open>rand_below\<close> and
  \<^verbatim>\<open>rand_below_datalen\<close> of \<^verbatim>\<open>include/afl-fuzz.h\<close>,
  \<^verbatim>\<open>choose_block_len\<close> of \<^verbatim>\<open>include/afl-mutations.h\<close> and the two
  power-of-two helpers. \<^verbatim>\<open>rand_below\<close> rejects values until one is in range, so it is
  a partial function; what it returns is bounded and unbiased.
\<close>

section \<open>The generator\<close>

definition ROTL64 :: "u64 \<Rightarrow> nat \<Rightarrow> u64" where
  "ROTL64 x n = push_bit n x OR drop_bit (64 - n) x"

definition rand_set_seed :: "world \<Rightarrow> u64 \<Rightarrow> 'a rng_state_scheme \<Rightarrow> 'a rng_state_scheme" where
  "rand_set_seed w init_seed s =
     (let s0 = hash64 w (map (\<lambda>k. byte_of k init_seed) [0..<8]);
          s1 = s0 XOR 0x1234567890abcdef
      in s\<lparr>rand_seed := (s0, s1, (s0 AND 0x1234567890abcdef) XOR (s1 OR 0xfedcba9876543210))\<rparr>)"

definition rand_next :: "'a rng_state_scheme \<Rightarrow> u64 \<times> 'a rng_state_scheme" where
  "rand_next s =
     (let (xp, s1, s2) = rand_seed s
      in (xp, s\<lparr>rand_seed := (15241094284759029579 * s1, ROTL64 (s1 - xp) 27, s2)\<rparr>))"

section \<open>Uniform choice\<close>

definition RESEED_RNG :: u64 where "RESEED_RNG = 2500000"

text \<open>The counter is decremented on every call; reaching zero reseeds from the system.\<close>

definition maybe_reseed :: "world \<Rightarrow> 'a rng_state_scheme \<Rightarrow> 'a rng_state_scheme" where
  "maybe_reseed w s =
     (let hit = (rand_cnt s = 0); s = s\<lparr>rand_cnt := rand_cnt s - 1\<rparr>
      in if hit \<and> \<not> fixed_seed s
         then (let seed = urandom w (urandom_reads s)
               in s\<lparr>rand_seed := seed, urandom_reads := Suc (urandom_reads s),
                    rand_cnt := ucast (RESEED_RNG div 2 + fst (snd seed) mod RESEED_RNG)\<rparr>)
         else s)"

text \<open>\<^verbatim>\<open>UINT64_MAX - (UINT64_MAX % limit)\<close>.\<close>

definition rand_limit :: "u32 \<Rightarrow> u64" where
  "rand_limit limit = - 1 - (- 1) mod ucast limit"

partial_function (option) rand_unbiased :: "u32 \<Rightarrow> 'a rng_state_scheme \<Rightarrow> (u64 \<times> 'a rng_state_scheme) option" where
  "rand_unbiased limit s =
     (let (r, s') = rand_next s in if r \<ge> rand_limit limit then rand_unbiased limit s' else Some (r, s'))"

definition rand_below :: "world \<Rightarrow> u32 \<Rightarrow> 'a rng_state_scheme \<Rightarrow> (u32 \<times> 'a rng_state_scheme) option" where
  "rand_below w limit s =
     (if limit \<le> 1 then Some (0, s)
      else Option.bind (rand_unbiased limit (maybe_reseed w s))
             (\<lambda>(r, s'). Some (ucast (r mod ucast limit), s')))"

text \<open>
  The operands of \<^verbatim>\<open>%\<close> are evaluated from left to right; C leaves their order open.
\<close>

definition rand_below_datalen :: "world \<Rightarrow> u32 \<Rightarrow> 'a rng_state_scheme \<Rightarrow> (u32 \<times> 'a rng_state_scheme) option" where
  "rand_below_datalen w limit s =
     (if limit \<le> 1 then Some (0, s)
      else
        Option.bind (rand_below w 3 s) (\<lambda>(c, s).
        if c = 2 then
          Option.bind (rand_below w limit s) (\<lambda>(a, s).
          Option.bind (rand_below w (limit - 1) s) (\<lambda>(b, s).
          Option.bind (rand_below w (limit - 1) s) (\<lambda>(d, s).
          Some (a mod (1 + b) mod (1 + d), s))))
        else if c = 1 then
          Option.bind (rand_below w limit s) (\<lambda>(a, s).
          Option.bind (rand_below w (limit - 1) s) (\<lambda>(b, s).
          Some (a mod (1 + b), s)))
        else if c = 0 then rand_below w limit s
        else Some (1, s)))"

section \<open>Block lengths\<close>

definition HAVOC_BLK_SMALL :: u32 where "HAVOC_BLK_SMALL = 32"
definition HAVOC_BLK_MEDIUM :: u32 where "HAVOC_BLK_MEDIUM = 128"
definition HAVOC_BLK_LARGE :: u32 where "HAVOC_BLK_LARGE = 1500"
definition HAVOC_BLK_XL :: u32 where "HAVOC_BLK_XL = 32768"

text \<open>The \<^verbatim>\<open>switch\<close> that picks the range of lengths, then the draw from it.\<close>

definition block_range :: "world \<Rightarrow> u32 \<Rightarrow> afl \<Rightarrow> ((u32 \<times> u32) \<times> afl) option" where
  "block_range w rlim s =
     Option.bind (rand_below w rlim s) (\<lambda>(c, s).
     if c = 0 then Some ((1, HAVOC_BLK_SMALL), s)
     else if c = 1 then Some ((HAVOC_BLK_SMALL, HAVOC_BLK_MEDIUM), s)
     else Option.bind (rand_below w 10 s) (\<lambda>(t, s).
       Some (if t \<noteq> 0 then (HAVOC_BLK_MEDIUM, HAVOC_BLK_LARGE) else (HAVOC_BLK_LARGE, HAVOC_BLK_XL), s)))"

definition choose_block_len :: "world \<Rightarrow> u32 \<Rightarrow> afl \<Rightarrow> (u32 \<times> afl) option" where
  "choose_block_len w limit s =
     (let rlim = (if \<not> run_over10m s then 1 else ucast (min (queue_cycle s) 3)) in
      Option.bind (block_range w rlim s) (\<lambda>((min_value, max_value), s).
      let min_value = (if min_value \<ge> limit then 1 else min_value) in
      Option.bind (rand_below w (min max_value limit - min_value + 1) s) (\<lambda>(r, s).
      Some (min_value + r, s))))"

section \<open>Powers of two\<close>

definition next_pow2 :: "u64 \<Rightarrow> u64" where
  "next_pow2 in_val =
     (let out = in_val - 1;
          out = out OR drop_bit 1 out; out = out OR drop_bit 2 out; out = out OR drop_bit 4 out;
          out = out OR drop_bit 8 out; out = out OR drop_bit 16 out
      in out + 1)"

lemma unat_ucast_u32_u64 [simp]: "unat (ucast x :: u64) = unat x" for x :: u32
proof -
  have "unat x < 2 ^ 64" using unsigned_less [of x] by (rule order_less_trans) simp
  then show ?thesis by (simp add: unsigned_ucast_eq take_bit_nat_eq_self)
qed

lemma word_mod_le: "a mod b \<le> a" for a b :: "'a::len word"
  by (simp add: word_le_nat_alt unat_mod)

section \<open>What the choices return\<close>

definition rng_only :: "'a rng_state_scheme \<Rightarrow> 'a rng_state_scheme \<Rightarrow> bool" where
  "rng_only s s' \<longleftrightarrow> (\<exists>seed c u. s' = s\<lparr>rand_seed := seed, rand_cnt := c, urandom_reads := u\<rparr>)"

lemma rng_only_refl [simp, intro]: "rng_only s s"
  unfolding rng_only_def
  by (intro exI [of _ "rand_seed s"] exI [of _ "rand_cnt s"] exI [of _ "urandom_reads s"]) simp

lemma rng_only_trans [trans]:
  assumes "rng_only a b" and "rng_only b c"
  shows "rng_only a c"
proof -
  obtain s1 c1 u1 s2 c2 u2 where
    "b = a\<lparr>rand_seed := s1, rand_cnt := c1, urandom_reads := u1\<rparr>"
    "c = b\<lparr>rand_seed := s2, rand_cnt := c2, urandom_reads := u2\<rparr>"
    using assms by (auto simp: rng_only_def)
  then have "c = a\<lparr>rand_seed := s2, rand_cnt := c2, urandom_reads := u2\<rparr>" by simp
  then show ?thesis unfolding rng_only_def by blast
qed

lemma rng_only_updI [intro]:
  "rng_only s (s\<lparr>rand_seed := x\<rparr>)" "rng_only s (s\<lparr>rand_cnt := c\<rparr>)"
proof -
  have "s\<lparr>rand_seed := x\<rparr> = s\<lparr>rand_seed := x, rand_cnt := rand_cnt s, urandom_reads := urandom_reads s\<rparr>"
    by simp
  then show "rng_only s (s\<lparr>rand_seed := x\<rparr>)" unfolding rng_only_def by blast
  have "s\<lparr>rand_cnt := c\<rparr> = s\<lparr>rand_seed := rand_seed s, rand_cnt := c, urandom_reads := urandom_reads s\<rparr>"
    by simp
  then show "rng_only s (s\<lparr>rand_cnt := c\<rparr>)" unfolding rng_only_def by blast
qed

lemma rng_only_rand_next: "rng_only s (snd (rand_next s))"
  by (auto simp: rand_next_def Let_def split: prod.splits)

lemma rng_only_maybe_reseed: "rng_only s (maybe_reseed w s)"
proof (cases "rand_cnt s = 0 \<and> \<not> fixed_seed s")
  case True
  let ?seed = "urandom w (urandom_reads s)"
  have "maybe_reseed w s = s\<lparr>rand_seed := ?seed,
      rand_cnt := ucast (RESEED_RNG div 2 + fst (snd ?seed) mod RESEED_RNG),
      urandom_reads := Suc (urandom_reads s)\<rparr>"
    using True by (simp add: maybe_reseed_def Let_def)
  then show ?thesis unfolding rng_only_def by blast
next
  case False
  then show ?thesis by (auto simp: maybe_reseed_def Let_def)
qed

lemma rand_unbiased_result:
  assumes "rand_unbiased limit s = Some (r, s')"
  shows "r < rand_limit limit \<and> rng_only s s'"
proof -
  have "fst p < rand_limit limit \<and> rng_only s (snd p)" if "rand_unbiased limit s = Some p"
    for p and s :: "'a rng_state_scheme"
  proof (rule rand_unbiased.raw_induct
      [where P = "\<lambda>limit s p. fst p < rand_limit limit \<and> rng_only s (snd p)", OF _ that])
    fix f and limit :: u32 and s :: "'a rng_state_scheme" and p
    assume 1: "\<And>limit s p. f limit s = Some p \<Longrightarrow> fst p < rand_limit limit \<and> rng_only s (snd p)"
      and 2: "(let (r, s') = rand_next s in if rand_limit limit \<le> r then f limit s' else Some (r, s')) = Some p"
    obtain r s1 where n: "rand_next s = (r, s1)" by (cases "rand_next s")
    have step: "rng_only s s1" using rng_only_rand_next [of s] by (simp add: n)
    show "fst p < rand_limit limit \<and> rng_only s (snd p)"
    proof (cases "rand_limit limit \<le> r")
      case True
      then show ?thesis using 1 [of limit s1 p] 2 rng_only_trans [OF step] by (simp add: n)
    next
      case False
      then show ?thesis using 2 step by (auto simp: n)
    qed
  qed
  from this [OF assms] show ?thesis by simp
qed

lemma rand_below_result:
  assumes "rand_below w limit s = Some (r, s')"
  shows "(if limit \<le> 1 then r = 0 else r < limit) \<and> rng_only s s'"
proof (cases "limit \<le> 1")
  case True
  then show ?thesis using assms by (auto simp: rand_below_def)
next
  case False
  then obtain x where x: "rand_unbiased limit (maybe_reseed w s) = Some (x, s')"
    and r: "r = ucast (x mod ucast limit)"
    using assms by (auto simp: rand_below_def Option.bind_eq_Some_conv)
  have "unat limit \<noteq> 0" using False by (auto simp: word_le_nat_alt)
  then have "unat (x mod ucast limit) < unat limit" by (simp add: unat_mod)
  moreover have "unat (ucast (x mod ucast limit) :: u32) \<le> unat (x mod ucast limit)"
    by (simp add: unsigned_ucast_eq)
  ultimately have "r < limit" unfolding r by (simp add: word_less_nat_alt)
  then show ?thesis
    using False rand_unbiased_result [OF x] rng_only_trans [OF rng_only_maybe_reseed] by auto
qed

lemma rand_below_less: "rand_below w limit s = Some (r, s') \<Longrightarrow> 0 < limit \<Longrightarrow> r < limit"
  using rand_below_result [of w limit s r s'] by (auto split: if_splits simp: word_gt_0)

text \<open>
  The accepted raw values split evenly over the residues: the choice is uniform when the
  generator is.
\<close>

lemma unat_rand_limit:
  "unat (rand_limit limit) = (2 ^ 64 - 1) - (2 ^ 64 - 1) mod unat limit"
proof -
  have m: "unat ((- 1 :: u64) mod ucast limit) = (2 ^ 64 - 1) mod unat limit"
    by (simp add: unat_mod unsigned_minus_1_eq_mask mask_eq_exp_minus_1)
  have "(- 1 :: u64) mod ucast limit \<le> - 1" by simp
  then show ?thesis
    unfolding rand_limit_def by (subst unat_sub) (simp_all add: m unsigned_minus_1_eq_mask mask_eq_exp_minus_1)
qed

lemma card_residue:
  assumes "0 < l" and "k < l" and "l dvd (n :: nat)"
  shows "card {r. r < n \<and> r mod l = k} = n div l"
proof -
  obtain m where n: "n = l * m" using assms(3) by blast
  have "{r. r < n \<and> r mod l = k} = (\<lambda>i. k + i * l) ` {..<m}"
  proof (intro equalityI subsetI)
    fix r assume "r \<in> {r. r < n \<and> r mod l = k}"
    then have "r = k + r div l * l" "r div l < m"
      using n assms(1) by (auto simp: less_mult_imp_div_less mult.commute)
    then show "r \<in> (\<lambda>i. k + i * l) ` {..<m}" by blast
  next
    fix r assume "r \<in> (\<lambda>i. k + i * l) ` {..<m}"
    then obtain i where i: "i < m" "r = k + i * l" by auto
    have "k + i * l < Suc i * l" using assms(2) by simp
    also have "\<dots> \<le> m * l" using i by (intro mult_le_mono1) simp
    finally show "r \<in> {r. r < n \<and> r mod l = k}" using i assms by (simp add: n mult.commute)
  qed
  moreover have "inj_on (\<lambda>i. k + i * l) {..<m}" using assms(1) by (auto simp: inj_on_def)
  ultimately show ?thesis using assms(1) by (simp add: card_image n)
qed

lemma rand_below_unbiased:
  assumes "1 < limit" and "k < limit"
  shows "card {r :: u64. r < rand_limit limit \<and> (ucast (r mod ucast limit) :: u32) = k} =
    unat (rand_limit limit) div unat limit"
proof -
  let ?l = "unat limit" and ?n = "unat (rand_limit limit)"
  have l: "0 < ?l" using assms by (simp add: word_less_nat_alt)
  have res: "(ucast (r mod ucast limit) :: u32) = k \<longleftrightarrow> unat r mod ?l = unat k" for r :: u64
  proof -
    have "unat r mod ?l < 2 ^ 32"
      using l unsigned_less [of limit] by (intro order_less_trans [OF mod_less_divisor]) simp_all
    then have "unat (ucast (r mod ucast limit) :: u32) = unat r mod ?l"
      by (simp add: unsigned_ucast_eq unat_mod take_bit_nat_eq_self)
    then show ?thesis by (metis unsigned_word_eqI)
  qed
  have "unat ` {r :: u64. r < rand_limit limit \<and> unat r mod ?l = unat k} = {r. r < ?n \<and> r mod ?l = unat k}"
  proof (intro equalityI subsetI)
    fix n assume n: "n \<in> {r. r < ?n \<and> r mod ?l = unat k}"
    moreover have "unat (rand_limit limit) < 2 ^ LENGTH(64)" by (rule unsigned_less)
    ultimately have "n < 2 ^ 64" by simp
    then have "unat (of_nat n :: u64) = n" by (simp add: unat_of_nat take_bit_nat_eq_self)
    then show "n \<in> unat ` {r :: u64. r < rand_limit limit \<and> unat r mod ?l = unat k}"
      using n by (intro image_eqI [of _ _ "of_nat n"]) (simp_all add: word_less_nat_alt)
  qed (auto simp: word_less_nat_alt)
  moreover have "card (unat ` {r :: u64. r < rand_limit limit \<and> unat r mod ?l = unat k}) =
      card {r :: u64. r < rand_limit limit \<and> unat r mod ?l = unat k}"
    by (rule card_image) (intro inj_onI unsigned_word_eqI)
  ultimately have "card {r :: u64. r < rand_limit limit \<and> unat r mod ?l = unat k} =
      card {r. r < ?n \<and> r mod ?l = unat k}"
    by (simp only:)
  also have "\<dots> = ?n div ?l"
    using assms l by (intro card_residue) (simp_all add: word_less_nat_alt unat_rand_limit)
  finally show ?thesis by (simp only: res)
qed

lemma rand_below_datalen_less:
  assumes "rand_below_datalen w limit s = Some (r, s')" and "0 < limit"
  shows "r < limit"
proof -
  have m: "a mod b < limit" if "a < limit" for a b :: u32
    using word_mod_le that by (rule order_le_less_trans)
  have L: "a < limit" if "rand_below w limit s1 = Some (a, s2)" for a s1 s2
    using that assms(2) by (rule rand_below_less)
  show ?thesis
    using assms
    by (auto simp: rand_below_datalen_def Option.bind_eq_Some_conv word_gt_0 split: if_splits
        intro!: m intro: L)
qed


lemma block_range_bounds:
  assumes "block_range w rlim s = Some ((lo, hi), s')"
  shows "1 \<le> lo \<and> lo \<le> hi \<and> hi \<le> HAVOC_BLK_XL \<and> rng_only s s'"
proof -
  obtain c s1 where c: "rand_below w rlim s = Some (c, s1)"
    using assms by (auto simp: block_range_def Option.bind_eq_Some_conv)
  have fr: "rng_only s s1" using rand_below_result [OF c] by blast
  show ?thesis
  proof (cases "c = 0 \<or> c = 1")
    case True
    then show ?thesis
      using assms fr by (auto simp: block_range_def c HAVOC_BLK_SMALL_def HAVOC_BLK_MEDIUM_def HAVOC_BLK_XL_def)
  next
    case False
    then obtain t where t: "rand_below w 10 s1 = Some (t, s')"
      and lh: "(lo, hi) = (if t \<noteq> 0 then (HAVOC_BLK_MEDIUM, HAVOC_BLK_LARGE) else (HAVOC_BLK_LARGE, HAVOC_BLK_XL))"
      using assms by (auto simp: block_range_def c Option.bind_eq_Some_conv)
    have "rng_only s s'" using rng_only_trans [OF fr] rand_below_result [OF t] by blast
    then show ?thesis using lh
      by (cases "t = 0") (simp_all add: HAVOC_BLK_MEDIUM_def HAVOC_BLK_LARGE_def HAVOC_BLK_XL_def)
  qed
qed

lemma choose_block_len_bounds:
  assumes "choose_block_len w limit s = Some (r, s')" and "0 < limit"
  shows "1 \<le> r \<and> r \<le> limit \<and> r \<le> HAVOC_BLK_XL \<and> rng_only s s'"
proof -
  have XL: "unat HAVOC_BLK_XL < 40000" by (simp add: HAVOC_BLK_XL_def)
  have pick: "1 \<le> lo + v \<and> lo + v \<le> min hi limit"
    if v: "rand_below w (min hi limit - lo + 1) s1 = Some (v, s2)"
      and lo: "lo = (if l0 \<ge> limit then 1 else l0)" and hi: "1 \<le> l0" "l0 \<le> hi" "hi \<le> HAVOC_BLK_XL"
    for lo hi l0 v and s1 s2 :: afl
  proof -
    have "unat lo \<le> unat (min hi limit)" "1 \<le> unat lo"
      using lo hi assms(2) by (auto simp: min_def word_le_nat_alt word_less_nat_alt)
    moreover have "unat (min hi limit) < 40000"
      using hi(3) XL by (auto simp: min_def word_le_nat_alt word_less_nat_alt)
    ultimately have d: "unat (min hi limit - lo + 1) = unat (min hi limit) - unat lo + 1"
      by (simp add: unat_word_ariths unat_sub word_le_nat_alt)
    have "unat v < unat (min hi limit - lo + 1)"
      using rand_below_less [OF v] d by (simp add: word_less_nat_alt)
    with d have "unat lo + unat v \<le> unat (min hi limit)" using \<open>unat lo \<le> unat (min hi limit)\<close> by simp
    then have "unat (lo + v) = unat lo + unat v"
      using \<open>unat (min hi limit) < 40000\<close> by (simp add: unat_word_ariths)
    then show ?thesis
      using \<open>1 \<le> unat lo\<close> \<open>unat lo + unat v \<le> unat (min hi limit)\<close> by (simp add: word_le_nat_alt)
  qed
  define rlim :: u32 where "rlim = (if \<not> run_over10m s then 1 else ucast (min (queue_cycle s) 3))"
  obtain l0 hi s1 where b: "block_range w rlim s = Some ((l0, hi), s1)"
    using assms(1) unfolding choose_block_len_def Let_def rlim_def [symmetric]
    by (cases "block_range w rlim s") auto
  define lo where "lo = (if l0 \<ge> limit then 1 else l0)"
  obtain v where v: "rand_below w (min hi limit - lo + 1) s1 = Some (v, s')" and "r = lo + v"
    using assms(1) unfolding choose_block_len_def Let_def rlim_def [symmetric]
    by (cases "rand_below w (min hi limit - lo + 1) s1") (auto simp: b lo_def)
  have bounds: "1 \<le> l0" "l0 \<le> hi" "hi \<le> HAVOC_BLK_XL" "rng_only s s1"
    using block_range_bounds [OF b] by blast+
  have "rng_only s s'" using rng_only_trans [OF bounds(4)] rand_below_result [OF v] by blast
  then show ?thesis using pick [OF v lo_def bounds(1-3)] bounds(3) \<open>r = lo + v\<close>
    by (auto simp: min_def split: if_splits)
qed

section \<open>Rounding up to a power of two\<close>

definition smeared :: "u64 \<Rightarrow> nat \<Rightarrow> u64 \<Rightarrow> bool" where
  "smeared x k y \<longleftrightarrow> (\<forall>n. bit y n \<longleftrightarrow> (\<exists>j<k. bit x (n + j)))"

lemma smeared_double:
  assumes "smeared x k y"
  shows "smeared x (k + k) (y OR drop_bit k y)"
proof -
  have "(\<exists>j<k. bit x (n + j)) \<or> (\<exists>j<k. bit x (k + n + j)) \<longleftrightarrow> (\<exists>j<k + k. bit x (n + j))" for n
  proof
    assume "\<exists>j<k + k. bit x (n + j)"
    then obtain j where j: "j < k + k" "bit x (n + j)" by blast
    show "(\<exists>j<k. bit x (n + j)) \<or> (\<exists>j<k. bit x (k + n + j))"
    proof (cases "j < k")
      case False
      then have "j - k < k" "bit x (k + n + (j - k))" using j by (simp_all add: algebra_simps)
      then show ?thesis by blast
    qed (use j in blast)
  next
    assume "(\<exists>j<k. bit x (n + j)) \<or> (\<exists>j<k. bit x (k + n + j))"
    then show "\<exists>j<k + k. bit x (n + j)"
    proof
      assume "\<exists>j<k. bit x (k + n + j)"
      then obtain j where "j < k" "bit x (n + (k + j))" by (auto simp: algebra_simps)
      then show ?thesis by (intro exI [of _ "k + j"]) simp
    qed (auto intro: trans_less_add1)
  qed
  then show ?thesis using assms by (simp add: smeared_def bit_simps)
qed

lemma smeared_to: "smeared x k y \<Longrightarrow> m = k + k \<Longrightarrow> smeared x m (y OR drop_bit k y)"
  using smeared_double by simp

lemma next_pow2_smeared: "\<exists>y. next_pow2 v = y + 1 \<and> smeared (v - 1) 32 y"
proof -
  define x where "x = v - 1"
  define y1 where "y1 = x OR drop_bit 1 x"
  define y2 where "y2 = y1 OR drop_bit 2 y1"
  define y4 where "y4 = y2 OR drop_bit 4 y2"
  define y8 where "y8 = y4 OR drop_bit 8 y4"
  define y16 where "y16 = y8 OR drop_bit 16 y8"
  have "smeared x 1 x" by (simp add: smeared_def)
  then have "smeared x 2 y1" unfolding y1_def by (rule smeared_to) simp
  then have "smeared x 4 y2" unfolding y2_def by (rule smeared_to) simp
  then have "smeared x 8 y4" unfolding y4_def by (rule smeared_to) simp
  then have "smeared x 16 y8" unfolding y8_def by (rule smeared_to) simp
  then have "smeared x 32 y16" unfolding y16_def by (rule smeared_to) simp
  moreover have "next_pow2 v = y16 + 1"
    by (simp only: next_pow2_def Let_def x_def y1_def y2_def y4_def y8_def y16_def)
  ultimately show ?thesis unfolding x_def by blast
qed

lemma next_pow2_correct:
  assumes "0 < v" and "v \<le> 2 ^ 32"
  shows "\<exists>e\<le>32. next_pow2 v = 2 ^ e \<and> v \<le> 2 ^ e \<and> (\<forall>e'<e. (2 :: u64) ^ e' < v)"
proof -
  obtain y where y: "next_pow2 v = y + 1" "smeared (v - 1) 32 y" using next_pow2_smeared by blast
  define x where "x = unat (v - 1)"
  have v: "unat v = x + 1" using assms(1) by (simp add: x_def unat_sub word_le_nat_alt word_less_nat_alt)
  have bits: "bit y n \<longleftrightarrow> (\<exists>j<32. n + j < 64 \<and> bit x (n + j))" for n
  proof -
    have "bit (v - 1) m \<longleftrightarrow> m < 64 \<and> bit x m" for m
      using bit_imp_le_length [of "v - 1" m] by (auto simp: x_def bit_unsigned_iff)
    then show ?thesis using y(2) by (simp add: smeared_def)
  qed
  have x32: "x < 2 ^ 32" using assms(2) v by (simp add: word_le_nat_alt)
  show ?thesis
  proof (cases "x = 0")
    case True
    then have "y = 0" using bits by (intro bit_word_eqI) simp
    moreover have "v = 1" using True v by (metis add_0 unat_1 unsigned_word_eqI)
    ultimately show ?thesis using y(1) by (intro exI [of _ 0]) simp
  next
    case False
    then obtain t where t: "2 ^ t \<le> x" "x < 2 ^ (t + 1)" using ex_power_ivl1 [of 2 x] by auto
    then have t32: "t < 32"
      using x32 by (metis linorder_not_less order_le_less_trans power_increasing_iff one_less_numeral_iff semiring_norm(76))
    have top: "bit x t"
    proof -
      have "x div 2 ^ t = 1" using t by (intro div_nat_eqI) simp_all
      then show ?thesis by (simp add: bit_iff_odd)
    qed
    have above: "\<not> bit x m" if "t < m" for m
    proof -
      have "(2 :: nat) ^ (t + 1) \<le> 2 ^ m" using that by (intro power_increasing) simp_all
      with t(2) have "x < 2 ^ m" by simp
      then show ?thesis by (simp add: bit_iff_odd)
    qed
    have "y = mask (t + 1)"
    proof (rule bit_word_eqI)
      fix n assume "n < LENGTH(64)"
      show "bit y n = bit (mask (t + 1) :: u64) n"
      proof (cases "n \<le> t")
        case True
        then have "bit y n" using top t32 by (subst bits) (intro exI [of _ "t - n"], simp)
        then show ?thesis using True t32 by (simp add: bit_simps)
      next
        case False
        then have "\<not> bit y n" using above by (subst bits) auto
        then show ?thesis using False by (simp add: bit_simps)
      qed
    qed
    then have np: "next_pow2 v = 2 ^ (t + 1)"
      unfolding y(1) by (simp add: mask_eq_exp_minus_1)
    have pow: "unat (2 ^ e :: u64) = 2 ^ e" if "e \<le> 32" for e
    proof -
      have "(2 :: nat) ^ e < 2 ^ 64" using that by (intro power_strict_increasing) simp_all
      moreover have "(2 :: u64) ^ e = of_nat (2 ^ e)" by simp
      ultimately show ?thesis by (simp only: unat_of_nat) (simp add: take_bit_nat_eq_self)
    qed
    have "v \<le> 2 ^ (t + 1)" using v t(2) pow [of "t + 1"] t32 by (simp add: word_le_nat_alt)
    moreover have "(2 :: u64) ^ e' < v" if "e' < t + 1" for e'
    proof -
      have "(2 :: nat) ^ e' \<le> 2 ^ t" using that by (intro power_increasing) simp_all
      then have "2 ^ e' < unat v" using v t(1) by linarith
      then show ?thesis using pow [of e'] that t32 by (simp add: word_less_nat_alt)
    qed
    ultimately show ?thesis using np t32 by (intro exI [of _ "t + 1"]) simp
  qed
qed

end
