(* ===== verification/Extras.thy ===== *)
theory Extras
  imports Filters Rng
begin

text \<open>
  The dictionaries (\<^verbatim>\<open>src/afl-fuzz-extras.c\<close>): the user's tokens, kept sorted by
  length and free of duplicates, and the tokens the fuzzer collects itself. A token stores
  exactly its \<^verbatim>\<open>len\<close> bytes; what lies behind them in the fixed-size array of an
  automatic token is never read. \<^verbatim>\<open>qsort\<close> is the stable sort of the C library.
\<close>

definition MIN_AUTO_EXTRA :: nat where "MIN_AUTO_EXTRA = 3"
definition MAX_AUTO_EXTRA :: nat where "MAX_AUTO_EXTRA = 32"
definition USE_AUTO_EXTRAS :: nat where "USE_AUTO_EXTRAS = 4096"
definition MAX_AUTO_EXTRAS :: nat where "MAX_AUTO_EXTRAS = 8 * USE_AUTO_EXTRAS"
definition MAX_DICT_FILE :: nat where "MAX_DICT_FILE = 128"

section \<open>Operations\<close>

definition tolower :: "u8 \<Rightarrow> u8" where
  "tolower c = (if 65 \<le> c \<and> c \<le> 90 then c + 32 else c)"

text \<open>True when the blocks differ, as \<^verbatim>\<open>memcmp\<close> is.\<close>

definition memcmp_nocase :: "buf \<Rightarrow> buf \<Rightarrow> nat \<Rightarrow> bool" where
  "memcmp_nocase m1 m2 n = list_ex (\<lambda>k. tolower (m1 ! k) XOR tolower (m2 ! k) \<noteq> 0) [0..<n]"

definition token :: "buf \<Rightarrow> nat \<Rightarrow> extra_data" where
  "token mem n = \<lparr>e_data = take n mem, e_len = n, hit_cnt = 0\<rparr>"

definition add_extra_nocheck :: "buf \<Rightarrow> nat \<Rightarrow> extra_data list \<Rightarrow> extra_data list" where
  "add_extra_nocheck mem n xs = xs @ [token mem n]"

definition sort_extras :: "extra_data list \<Rightarrow> extra_data list" where
  "sort_extras xs = sort_key e_len xs"

text \<open>The scan of \<^verbatim>\<open>add_extra\<close>: it ends at the first longer token behind an equally long one.\<close>

fun known_extra :: "buf \<Rightarrow> nat \<Rightarrow> bool \<Rightarrow> extra_data list \<Rightarrow> bool" where
  "known_extra mem n found [] = False"
| "known_extra mem n found (e # es) =
     (if e_len e = n then (if take n (e_data e) = take n mem then True else known_extra mem n True es)
      else if found then False else known_extra mem n found es)"

definition add_extra :: "buf \<Rightarrow> nat \<Rightarrow> extra_data list \<Rightarrow> extra_data list" where
  "add_extra mem n xs =
     (if known_extra mem n False xs then xs
      else if n > MAX_DICT_FILE then xs
      else sort_extras (add_extra_nocheck mem n xs))"

text \<open>\<^verbatim>\<open>dedup_extras\<close>: the inner loop deletes in place and restarts at the same index.\<close>

definition remove_at :: "nat \<Rightarrow> 'a list \<Rightarrow> 'a list" where
  "remove_at j xs = take j xs @ drop (j + 1) xs"

function dedup_inner :: "nat \<Rightarrow> nat \<Rightarrow> extra_data list \<Rightarrow> extra_data list" where
  "dedup_inner i j xs =
     (if j < length xs then
        if e_len (xs ! i) \<noteq> e_len (xs ! j) then xs
        else if take (e_len (xs ! i)) (e_data (xs ! i)) = take (e_len (xs ! i)) (e_data (xs ! j))
        then dedup_inner i j (remove_at j xs)
        else dedup_inner i (j + 1) xs
      else xs)"
  by pat_completeness auto
termination
  by (relation "measure (\<lambda>(i, j, xs). length xs - j)") (auto simp: remove_at_def)

declare dedup_inner.simps [simp del]

function dedup_outer :: "nat \<Rightarrow> extra_data list \<Rightarrow> extra_data list" where
  "dedup_outer i xs =
     (if i < length xs - 1 then dedup_outer (i + 1) (dedup_inner i (i + 1) xs) else xs)"
  by pat_completeness auto

lemma length_dedup_inner: "length (dedup_inner i j xs) \<le> length xs"
proof (induction i j xs rule: dedup_inner.induct)
  case (1 i j xs)
  then show ?case
    by (subst dedup_inner.simps) (auto simp: remove_at_def intro: order_trans)
qed

termination dedup_outer
proof (relation "measure (\<lambda>(i, xs). length xs - i)", goal_cases)
  case (2 i xs)
  then show ?case using length_dedup_inner [of i "i + 1" xs] by simp
qed simp

declare dedup_outer.simps [simp del]

definition dedup_extras :: "extra_data list \<Rightarrow> extra_data list" where
  "dedup_extras xs = (if length xs < 2 then xs else dedup_outer 0 xs)"

text \<open>
  \<^verbatim>\<open>deunicode_extras\<close>: the zero bytes of a token are counted by position, and a token
  that looks like UTF-16 or UTF-32 text is added once more without them.
\<close>

definition zeros_at :: "(nat \<Rightarrow> bool) \<Rightarrow> extra_data \<Rightarrow> nat" where
  "zeros_at P e = length (filter (\<lambda>j. P j \<and> e_data e ! j = 0) [0..<e_len e])"

definition pick_bytes :: "(nat \<Rightarrow> bool) \<Rightarrow> extra_data \<Rightarrow> buf" where
  "pick_bytes P e = map (\<lambda>j. e_data e ! j) (filter P [0..<e_len e])"

definition deunicode_one :: "extra_data \<Rightarrow> extra_data list \<Rightarrow> extra_data list" where
  "deunicode_one e xs =
     (let n = e_len e;
          z1 = zeros_at (\<lambda>j. j mod 4 = 0 \<or> j mod 4 = 2) e; z2 = zeros_at (\<lambda>j. j mod 4 = 1 \<or> j mod 4 = 3) e;
          z3 = zeros_at (\<lambda>j. j mod 4 = 2) e; z4 = zeros_at (\<lambda>j. j mod 4 = 3) e;
          half = n div 2; quarter = half div 2
      in if n < 6 \<or> n > 64 \<or> n mod 2 \<noteq> 0 then xs
         else if z1 < half \<and> z2 < half \<or> z1 + z2 = n then xs
         else
           let xs = (if n mod 4 = 0 \<and> n \<ge> 12 \<and> (z3 = quarter \<or> z4 = quarter) \<and> z1 + z2 = quarter * 3
                     then let b = pick_bytes (\<lambda>j. j mod 4 = (if z4 < quarter then 3
                                    else if z3 < quarter then 2 else if z2 < half then 1 else 0)) e
                          in add_extra_nocheck b (length b) xs
                     else xs);
               b = pick_bytes (\<lambda>j. j mod 2 = (if z1 < half then 0 else 1)) e
           in add_extra_nocheck b (length b) xs)"

definition deunicode_extras :: "extra_data list \<Rightarrow> extra_data list" where
  "deunicode_extras xs = (if xs = [] then xs else sort_extras (fold deunicode_one xs xs))"

text \<open>\<^verbatim>\<open>maybe_add_auto\<close> and the tests it makes, in their order.\<close>

definition one_byte_run :: "buf \<Rightarrow> nat \<Rightarrow> bool" where
  "one_byte_run mem n \<longleftrightarrow> 0 < n \<and> list_all (\<lambda>i. mem ! 0 XOR mem ! i = 0) [1..<n]"

text \<open>
  The 16-bit table holds \<^verbatim>\<open>s16\<close> values and \<^verbatim>\<open>*((u16 *)mem)\<close> is unsigned; both
  operands of \<^verbatim>\<open>==\<close> are promoted to \<^verbatim>\<open>int\<close>, so the first test is on integers.
\<close>

definition builtin16 :: "u16 \<Rightarrow> bool" where
  "builtin16 v \<longleftrightarrow> list_ex (\<lambda>x. uint v = sint x \<or> v = SWAP16 x) interesting_16"

definition builtin32 :: "u32 \<Rightarrow> bool" where
  "builtin32 v \<longleftrightarrow> list_ex (\<lambda>x. v = x \<or> v = SWAP32 x) interesting_32"

fun bump_auto :: "buf \<Rightarrow> nat \<Rightarrow> extra_data list \<Rightarrow> extra_data list option" where
  "bump_auto mem n [] = None"
| "bump_auto mem n (e # es) =
     (if e_len e = n \<and> \<not> memcmp_nocase (e_data e) mem n
      then Some (e\<lparr>hit_cnt := hit_cnt e + 1\<rparr> # es) else map_option ((#) e) (bump_auto mem n es))"

definition sort_a_extras :: "extra_data list \<Rightarrow> extra_data list" where
  "sort_a_extras xs =
     (let xs = sort_key (\<lambda>e. - int (unat (hit_cnt e))) xs; k = min USE_AUTO_EXTRAS (length xs)
      in sort_key e_len (take k xs) @ drop k xs)"

definition maybe_add_auto :: "world \<Rightarrow> buf \<Rightarrow> nat \<Rightarrow> 'a dict_state_scheme \<Rightarrow> 'a dict_state_scheme option" where
  "maybe_add_auto w mem n s =
     (if one_byte_run mem n \<or> n > MAX_AUTO_EXTRA then Some s
      else if n = 2 \<and> builtin16 (load16 mem 0) then Some s
      else if n = 4 \<and> builtin32 (load32 mem 0) then Some s
      else if list_ex (\<lambda>e. \<not> memcmp_nocase (e_data e) mem n)
                (takeWhile (\<lambda>e. e_len e = n) (dropWhile (\<lambda>e. \<not> e_len e \<ge> n) (extras s)))
      then Some s
      else
        let s = s\<lparr>auto_changed := True\<rparr> in
        case bump_auto mem n (a_extras s) of
          Some xs \<Rightarrow> Some (s\<lparr>a_extras := sort_a_extras xs\<rparr>)
        | None \<Rightarrow>
            if length (a_extras s) < MAX_AUTO_EXTRAS
            then Some (s\<lparr>a_extras := sort_a_extras (a_extras s @ [token mem n])\<rparr>)
            else Option.bind (rand_below w (of_nat ((MAX_AUTO_EXTRAS + 1) div 2)) s) (\<lambda>(r, s).
                   Some (s\<lparr>a_extras := sort_a_extras ((a_extras s)[MAX_AUTO_EXTRAS div 2 + unat r := token mem n])\<rparr>)))"

lemma in_set_drop_iff: "x \<in> set (drop j xs) \<longleftrightarrow> (\<exists>k. j \<le> k \<and> k < length xs \<and> x = xs ! k)"
proof
  assume "x \<in> set (drop j xs)"
  then obtain m where "m < length xs - j" "x = xs ! (j + m)" by (auto simp: in_set_conv_nth)
  then show "\<exists>k. j \<le> k \<and> k < length xs \<and> x = xs ! k" by (intro exI [of _ "j + m"]) simp
next
  assume "\<exists>k. j \<le> k \<and> k < length xs \<and> x = xs ! k"
  then obtain k where "j \<le> k" "k < length xs" "x = xs ! k" by blast
  then have "k - j < length (drop j xs)" "drop j xs ! (k - j) = x" by simp_all
  then show "x \<in> set (drop j xs)" by (metis nth_mem)
qed

section \<open>Duplicates\<close>

definition tokens_ok :: "extra_data list \<Rightarrow> bool" where
  "tokens_ok xs \<longleftrightarrow> (\<forall>e\<in>set xs. length (e_data e) = e_len e)"

definition by_length :: "extra_data list \<Rightarrow> bool" where
  "by_length xs \<longleftrightarrow> sorted (map e_len xs)"

lemma by_length_nth: "by_length xs \<Longrightarrow> i \<le> j \<Longrightarrow> j < length xs \<Longrightarrow> e_len (xs ! i) \<le> e_len (xs ! j)"
  using sorted_nth_mono [of "map e_len xs" i j] by (simp add: by_length_def)

lemma by_length_filter_tail:
  assumes "by_length xs"
  shows "by_length (take j xs @ filter P (drop j xs))"
proof -
  have "sorted_wrt (\<lambda>x y. e_len x \<le> e_len y) (take j xs @ drop j xs)"
    using assms by (simp add: by_length_def sorted_map)
  then show ?thesis
    unfolding by_length_def sorted_map sorted_wrt_append by (auto intro: sorted_wrt_filter)
qed

lemma dedup_inner_eq:
  assumes "by_length xs" "tokens_ok xs" "i < j" "j \<le> length xs"
  shows "dedup_inner i j xs = take j xs @ filter (\<lambda>e. e_data e \<noteq> e_data (xs ! i)) (drop j xs)"
  using assms
proof (induction i j xs rule: dedup_inner.induct)
  case (1 i j xs)
  show ?case
  proof (cases "j < length xs")
    case False
    then show ?thesis using 1(6) by (subst dedup_inner.simps) simp
  next
    case j: True
    have i: "i < length xs" using j 1(5) by simp
    have wf: "length (e_data (xs ! k)) = e_len (xs ! k)" if "k < length xs" for k
      using 1(4) that by (simp add: tokens_ok_def)
    have drop: "drop j xs = xs ! j # drop (Suc j) xs" using j by (rule Cons_nth_drop_Suc [symmetric])
    show ?thesis
    proof (cases "e_len (xs ! i) = e_len (xs ! j)")
      case False
      have "e_data e \<noteq> e_data (xs ! i)" if e: "e \<in> set (drop j xs)" for e
      proof -
        obtain k where k: "j \<le> k" "k < length xs" "e = xs ! k"
          using e by (auto simp: in_set_drop_iff)
        have "e_len (xs ! i) < e_len (xs ! k)"
          using False by_length_nth [OF 1(3), of i j] by_length_nth [OF 1(3), of j k] k j 1(5) by simp
        then show ?thesis using wf [OF i] wf [OF k(2)] k(3) by auto
      qed
      then have "filter (\<lambda>e. e_data e \<noteq> e_data (xs ! i)) (drop j xs) = drop j xs" by simp
      then show ?thesis using False j by (subst dedup_inner.simps) simp
    next
      case len: True
      have same: "take (e_len (xs ! i)) (e_data (xs ! i)) = take (e_len (xs ! i)) (e_data (xs ! j)) \<longleftrightarrow>
          e_data (xs ! j) = e_data (xs ! i)"
        using wf [OF i] wf [OF j] len by auto
      show ?thesis
      proof (cases "e_data (xs ! j) = e_data (xs ! i)")
        case True
        let ?ys = "remove_at j xs"
        have ys: "take j ?ys = take j xs" "drop j ?ys = drop (Suc j) xs" "?ys ! i = xs ! i" "j \<le> length ?ys"
          using j 1(5) by (simp_all add: remove_at_def nth_append)
        have "by_length ?ys" "tokens_ok ?ys"
        proof -
          have "?ys = take j xs @ filter (\<lambda>_. True) (drop (Suc j) xs)" by (simp add: remove_at_def)
          moreover have "by_length (take (Suc j) xs @ drop (Suc j) xs)" using 1(3) by simp
          then have "by_length (take j xs @ drop (Suc j) xs)"
            using j by (auto simp: by_length_def sorted_append take_Suc_conv_app_nth)
          ultimately show "by_length ?ys" by simp
          show "tokens_ok ?ys"
            using 1(4) by (auto simp: tokens_ok_def remove_at_def dest: in_set_takeD in_set_dropD)
        qed
        then have "dedup_inner i j ?ys = take j ?ys @ filter (\<lambda>e. e_data e \<noteq> e_data (?ys ! i)) (drop j ?ys)"
          using 1(1) [OF j] len same True 1(5) ys(4) by simp
        then show ?thesis using len same True j drop by (subst dedup_inner.simps) (simp add: ys)
      next
        case False
        then have "dedup_inner i (j + 1) xs =
            take (j + 1) xs @ filter (\<lambda>e. e_data e \<noteq> e_data (xs ! i)) (drop (j + 1) xs)"
          using 1(2) [OF j] len same 1(3-5) j by simp
        then show ?thesis
          using len same False j drop by (subst dedup_inner.simps) (simp add: take_Suc_conv_app_nth)
      qed
    qed
  qed
qed

lemma dedup_outer_spec:
  assumes "by_length xs" "tokens_ok xs"
    and "\<forall>a b. a < i \<and> a < b \<and> b < length xs \<longrightarrow> e_data (xs ! a) \<noteq> e_data (xs ! b)"
  shows "by_length (dedup_outer i xs) \<and> distinct (map e_data (dedup_outer i xs)) \<and>
    e_data ` set (dedup_outer i xs) = e_data ` set xs"
  using assms
proof (induction i xs rule: dedup_outer.induct)
  case (1 i xs)
  show ?case
  proof (cases "i < length xs - 1")
    case False
    then have "distinct (map e_data xs)"
      using 1(4) unfolding distinct_conv_nth
      by (metis (no_types, lifting) False Suc_diff_1 length_map less_antisym less_nat_zero_code
          linorder_neqE_nat not_less_less_Suc_eq nth_map order_less_trans gr_implies_not0 gr0I)
    then show ?thesis using False 1(2) by (subst (1 2 3) dedup_outer.simps) simp
  next
    case i: True
    let ?ys = "dedup_inner i (i + 1) xs"
    have ys: "?ys = take (i + 1) xs @ filter (\<lambda>e. e_data e \<noteq> e_data (xs ! i)) (drop (i + 1) xs)"
      using dedup_inner_eq [OF 1(2,3), of i "i + 1"] i by simp
    have sub: "set ?ys \<subseteq> set xs" unfolding ys by (auto dest: in_set_takeD in_set_dropD)
    have keep: "e_data ` set ?ys = e_data ` set xs"
    proof
      show "e_data ` set xs \<subseteq> e_data ` set ?ys"
      proof
        fix d assume "d \<in> e_data ` set xs"
        then obtain e where e: "e \<in> set (take (i + 1) xs) \<or> e \<in> set (drop (i + 1) xs)" "d = e_data e"
        proof -
          obtain e where "e \<in> set xs" "d = e_data e" using \<open>d \<in> e_data ` set xs\<close> by blast
          moreover have "set xs = set (take (i + 1) xs) \<union> set (drop (i + 1) xs)"
            by (metis append_take_drop_id set_append)
          ultimately show thesis using that by blast
        qed
        have at: "xs ! i \<in> set (take (i + 1) xs)"
          using i by (simp add: take_Suc_conv_app_nth)
        have "d = e_data (xs ! i) \<or> e \<in> set ?ys"
          unfolding ys using e by auto
        moreover have "xs ! i \<in> set ?ys" unfolding ys using at by simp
        ultimately show "d \<in> e_data ` set ?ys" using e(2) by blast
      qed
    qed (use sub in blast)
    have "by_length ?ys" unfolding ys by (rule by_length_filter_tail [OF 1(2)])
    moreover have "tokens_ok ?ys" using 1(3) sub by (auto simp: tokens_ok_def)
    moreover have "\<forall>a b. a < i + 1 \<and> a < b \<and> b < length ?ys \<longrightarrow> e_data (?ys ! a) \<noteq> e_data (?ys ! b)"
    proof (intro allI impI)
      fix a b assume ab: "a < i + 1 \<and> a < b \<and> b < length ?ys"
      have ya: "?ys ! a = xs ! a" using ab i unfolding ys by (simp add: nth_append)
      have len: "length (take (i + 1) xs) = i + 1" using i by simp
      show "e_data (?ys ! a) \<noteq> e_data (?ys ! b)"
      proof (cases "b < i + 1")
        case True
        then have "?ys ! b = xs ! b" using i unfolding ys by (simp add: nth_append)
        then show ?thesis using 1(4) ab True i ya by auto
      next
        case False
        then have "?ys ! b \<in> set (filter (\<lambda>e. e_data e \<noteq> e_data (xs ! i)) (drop (i + 1) xs))"
          using ab len unfolding ys by (auto simp: nth_append simp del: set_filter intro!: nth_mem)
        then have "?ys ! b \<in> set (drop (i + 1) xs)" "e_data (?ys ! b) \<noteq> e_data (xs ! i)" by auto
        then obtain k where k: "i + 1 \<le> k" "k < length xs" "?ys ! b = xs ! k" "e_data (xs ! k) \<noteq> e_data (xs ! i)"
          unfolding in_set_drop_iff by metis
        then show ?thesis using 1(4) ab ya by (cases "a = i") auto
      qed
    qed
    ultimately show ?thesis using 1(1) [OF i] keep i by (subst (1 2 3) dedup_outer.simps) simp
  qed
qed

lemma dedup_extras_spec:
  assumes "by_length xs" and "tokens_ok xs"
  shows "by_length (dedup_extras xs) \<and> distinct (map e_data (dedup_extras xs)) \<and>
    e_data ` set (dedup_extras xs) = e_data ` set xs"
proof (cases "length xs < 2")
  case True
  then consider "xs = []" | x where "xs = [x]" by (cases xs; cases "tl xs") auto
  then show ?thesis by cases (auto simp: dedup_extras_def by_length_def)
next
  case False
  then show ?thesis using dedup_outer_spec [OF assms, of 0] by (simp add: dedup_extras_def)
qed

section \<open>Automatic tokens\<close>

definition dict_ok :: "'a dict_state_scheme \<Rightarrow> bool" where
  "dict_ok s \<longleftrightarrow> length (a_extras s) \<le> MAX_AUTO_EXTRAS \<and> tokens_ok (a_extras s) \<and>
     (\<forall>e\<in>set (a_extras s). e_len e \<le> MAX_AUTO_EXTRA) \<and> by_length (take USE_AUTO_EXTRAS (a_extras s))"

lemma set_sort_a_extras [simp]: "set (sort_a_extras xs) = set xs"
proof -
  have "set (take k ys) \<union> set (drop k ys) = set ys" for k and ys :: "extra_data list"
    by (metis append_take_drop_id set_append)
  then show ?thesis by (simp add: sort_a_extras_def Let_def)
qed

lemma length_sort_a_extras [simp]: "length (sort_a_extras xs) = length xs"
  by (simp add: sort_a_extras_def Let_def)

lemma by_length_sort_a_extras: "by_length (take USE_AUTO_EXTRAS (sort_a_extras xs))"
proof -
  have "take USE_AUTO_EXTRAS (sort_a_extras xs) =
      sort_key e_len (take (min USE_AUTO_EXTRAS (length xs)) (sort_key (\<lambda>e. - int (unat (hit_cnt e))) xs))"
    by (auto simp: sort_a_extras_def Let_def min_def)
  then show ?thesis by (simp add: by_length_def)
qed

lemma bump_auto_None: "bump_auto mem n xs = None \<longleftrightarrow> (\<forall>e\<in>set xs. e_len e = n \<longrightarrow> memcmp_nocase (e_data e) mem n)"
  by (induction xs) auto

lemma bump_auto_Some:
  assumes "bump_auto mem n xs = Some ys"
  shows "length ys = length xs \<and> map e_len ys = map e_len xs \<and> map e_data ys = map e_data xs \<and>
    (\<exists>e\<in>set ys. e_len e = n \<and> \<not> memcmp_nocase (e_data e) mem n)"
  using assms by (induction xs arbitrary: ys) (auto split: if_splits)

lemma dict_ok_sorted:
  assumes "length xs \<le> MAX_AUTO_EXTRAS" "tokens_ok xs" "\<forall>e\<in>set xs. e_len e \<le> MAX_AUTO_EXTRA"
  shows "dict_ok (s\<lparr>a_extras := sort_a_extras xs\<rparr>)"
  using assms by (simp add: dict_ok_def tokens_ok_def by_length_sort_a_extras)

lemma tokens_ok_map_cong:
  assumes "map e_len ys = map e_len xs" "map e_data ys = map e_data xs"
  shows "tokens_ok ys = tokens_ok xs"
proof -
  have "tokens_ok zs \<longleftrightarrow> map (length \<circ> e_data) zs = map e_len zs" for zs
    by (induction zs) (auto simp: tokens_ok_def)
  moreover have "map (length \<circ> e_data) ys = map (length \<circ> e_data) xs"
    using assms(2) by (metis map_map)
  ultimately show ?thesis using assms(1) by (simp only:)
qed

lemma token_simps [simp]: "e_len (token mem n) = n" "e_data (token mem n) = take n mem"
  by (simp_all add: token_def)

lemma memcmp_nocase_token: "\<not> memcmp_nocase (take n mem) mem n"
  by (auto simp: memcmp_nocase_def list_ex_iff)

lemma dict_ok_rng_only:
  assumes "rng_only s s'"
  shows "dict_ok s' = dict_ok s" "a_extras s' = a_extras s" "extras s' = extras s"
proof -
  obtain a b c where "s' = s\<lparr>rand_seed := a, rand_cnt := b, urandom_reads := c\<rparr>"
    using assms unfolding rng_only_def by blast
  then show "dict_ok s' = dict_ok s" "a_extras s' = a_extras s" "extras s' = extras s"
    by (simp_all add: dict_ok_def)
qed

definition auto_known :: "buf \<Rightarrow> nat \<Rightarrow> 'a dict_state_scheme \<Rightarrow> bool" where
  "auto_known mem n s \<longleftrightarrow> (\<exists>e\<in>set (a_extras s). e_len e = n \<and> \<not> memcmp_nocase (e_data e) mem n)"

lemma maybe_add_auto_result:
  assumes "maybe_add_auto w mem n s = Some s'" and "dict_ok s" and "n \<le> length mem"
  shows "dict_ok s' \<and> extras s' = extras s \<and> (s' = s \<or> auto_known mem n s')"
proof -
  let ?t = "s\<lparr>auto_changed := True\<rparr>"
  have ok: "length (a_extras s) \<le> MAX_AUTO_EXTRAS" "tokens_ok (a_extras s)"
    "\<forall>e\<in>set (a_extras s). e_len e \<le> MAX_AUTO_EXTRA" using assms(2) by (simp_all add: dict_ok_def)
  consider "s' = s" | ys where "n \<le> MAX_AUTO_EXTRA" "bump_auto mem n (a_extras s) = Some ys"
      "s' = ?t\<lparr>a_extras := sort_a_extras ys\<rparr>"
    | "n \<le> MAX_AUTO_EXTRA" "length (a_extras s) < MAX_AUTO_EXTRAS"
      "s' = ?t\<lparr>a_extras := sort_a_extras (a_extras s @ [token mem n])\<rparr>"
    | r t where "n \<le> MAX_AUTO_EXTRA" "\<not> length (a_extras s) < MAX_AUTO_EXTRAS"
      "rand_below w (of_nat ((MAX_AUTO_EXTRAS + 1) div 2)) ?t = Some (r, t)"
      "s' = t\<lparr>a_extras := sort_a_extras ((a_extras t)[MAX_AUTO_EXTRAS div 2 + unat r := token mem n])\<rparr>"
  proof -
    have r: "s' = s \<or> n \<le> MAX_AUTO_EXTRA \<and> (case bump_auto mem n (a_extras s) of
          Some xs \<Rightarrow> Some (?t\<lparr>a_extras := sort_a_extras xs\<rparr>)
        | None \<Rightarrow>
            if length (a_extras s) < MAX_AUTO_EXTRAS
            then Some (?t\<lparr>a_extras := sort_a_extras (a_extras s @ [token mem n])\<rparr>)
            else Option.bind (rand_below w (of_nat ((MAX_AUTO_EXTRAS + 1) div 2)) ?t) (\<lambda>(r, s).
                   Some (s\<lparr>a_extras := sort_a_extras ((a_extras s)[MAX_AUTO_EXTRAS div 2 + unat r := token mem n])\<rparr>)))
        = Some s'"
      using assms(1) unfolding maybe_add_auto_def Let_def
      by (simp split: if_split_asm cong: option.case_cong)
    show thesis
    proof (cases "s' = s")
      case False
      show thesis
      proof (cases "bump_auto mem n (a_extras s)")
        case (Some ys)
        with False r that(2) show thesis by simp
      next
        case None
        show thesis
        proof (cases "length (a_extras s) < MAX_AUTO_EXTRAS")
          case True
          with False None r that(3) show thesis by simp
        next
          case full: False
          with False None r obtain x t where
            "n \<le> MAX_AUTO_EXTRA" "rand_below w (of_nat ((MAX_AUTO_EXTRAS + 1) div 2)) ?t = Some (x, t)"
            "s' = t\<lparr>a_extras := sort_a_extras ((a_extras t)[MAX_AUTO_EXTRAS div 2 + unat x := token mem n])\<rparr>"
            by (cases "rand_below w (of_nat ((MAX_AUTO_EXTRAS + 1) div 2)) ?t") auto
          with full show thesis by (intro that(4)) auto
        qed
      qed
    qed (rule that(1))
  qed
  then show ?thesis
  proof cases
    case 1
    then show ?thesis using assms(2) by simp
  next
    case (2 ys)
    note b = bump_auto_Some [OF 2(2)]
    have "\<forall>e\<in>set ys. e_len e \<le> MAX_AUTO_EXTRA"
      using ok(3) b by (metis list.set_map imageI image_iff)
    then have "dict_ok s'"
      unfolding 2(3) using b ok tokens_ok_map_cong [of ys "a_extras s"] by (intro dict_ok_sorted) auto
    then show ?thesis using b 2(3) by (auto simp: auto_known_def)
  next
    case 3
    have "dict_ok s'"
      unfolding 3(3) using ok assms(3) 3(1,2) by (intro dict_ok_sorted) (auto simp: tokens_ok_def)
    then show ?thesis using 3(3) memcmp_nocase_token by (auto simp: auto_known_def)
  next
    case (4 r t)
    have only: "rng_only ?t t" using rand_below_result [OF 4(3)] by simp
    have keep: "a_extras t = a_extras s" "extras t = extras s"
      using dict_ok_rng_only(2,3) [OF only] by simp_all
    have "r < of_nat ((MAX_AUTO_EXTRAS + 1) div 2)"
      using rand_below_less [OF 4(3)] by (simp add: MAX_AUTO_EXTRAS_def USE_AUTO_EXTRAS_def)
    then have i: "MAX_AUTO_EXTRAS div 2 + unat r < length (a_extras s)"
      using ok(1) 4(2) by (simp add: MAX_AUTO_EXTRAS_def USE_AUTO_EXTRAS_def word_less_nat_alt)
    let ?xs = "(a_extras s)[MAX_AUTO_EXTRAS div 2 + unat r := token mem n]"
    have sub: "set ?xs \<subseteq> insert (token mem n) (set (a_extras s))" by (rule set_update_subset_insert)
    then have "dict_ok s'"
      unfolding 4(4) keep using ok assms(3) 4(1) by (intro dict_ok_sorted) (auto simp: tokens_ok_def)
    moreover have "auto_known mem n s'"
      unfolding auto_known_def
      by (rule bexI [of _ "token mem n"]) (use i in \<open>simp_all add: 4(4) keep set_update_memI memcmp_nocase_token\<close>)
    ultimately show ?thesis using 4(4) keep by simp
  qed
qed

section \<open>UTF-16 tokens\<close>

definition utf16le :: "buf \<Rightarrow> buf" where
  "utf16le t = concat (map (\<lambda>c. [c, 0]) t)"

lemma length_utf16le [simp]: "length (utf16le t) = 2 * length t"
  by (induction t) (auto simp: utf16le_def)

lemma nth_utf16le: "j < 2 * length t \<Longrightarrow> utf16le t ! j = (if even j then t ! (j div 2) else 0)"
proof (induction t arbitrary: j)
  case (Cons c t)
  have step: "utf16le (c # t) = c # 0 # utf16le t" by (simp add: utf16le_def)
  show ?case
  proof (cases j)
    case (Suc i)
    then show ?thesis
    proof (cases i)
      case (Suc k)
      have "utf16le t ! k = (if even k then t ! (k div 2) else 0)"
        using Cons \<open>j = Suc i\<close> Suc by simp
      then show ?thesis using Suc \<open>j = Suc i\<close> by (simp add: step)
    qed (simp add: step)
  qed (simp add: step)
qed simp

lemma filter_even_upt: "map f (filter even [0..<2 * n]) = map (\<lambda>i. f (2 * i)) [0..<n]"
  by (induction n) auto

lemma length_filter_odd_upt: "length (filter odd [0..<2 * n]) = n"
  by (induction n) auto

lemma deunicode_utf16:
  assumes "0 \<notin> set t" and "3 \<le> length t" and "length t \<le> 32"
  shows "deunicode_one (token (utf16le t) (2 * length t)) xs =
    add_extra_nocheck t (length t) xs"
proof -
  let ?e = "token (utf16le t) (2 * length t)"
  have par: "(j mod 4 = 0 \<or> j mod 4 = 2) = even j" "(j mod 4 = 1 \<or> j mod 4 = 3) = odd j" for j :: nat
    by presburger+
  have at: "e_data ?e ! j = (if even j then t ! (j div 2) else 0)" if "j < 2 * length t" for j
    using that by (simp add: nth_utf16le)
  have nz: "t ! i \<noteq> 0" if "i < length t" for i using that assms(1) by (metis nth_mem)
  have none: "filter (\<lambda>j. even j \<and> e_data ?e ! j = 0) [0..<2 * length t] = []"
    using at nz by (auto simp: filter_empty_conv)
  have "filter (\<lambda>j. odd j \<and> e_data ?e ! j = 0) [0..<2 * length t] = filter odd [0..<2 * length t]"
    using at by (intro filter_cong) auto
  then have z2: "zeros_at odd ?e = length t" by (simp add: zeros_at_def length_filter_odd_upt)
  have z1: "zeros_at even ?e = 0" using none by (simp add: zeros_at_def)
  have "pick_bytes (\<lambda>j. j mod 2 = 0) ?e = map (\<lambda>i. utf16le t ! (2 * i)) [0..<length t]"
    unfolding pick_bytes_def even_iff_mod_2_eq_zero [symmetric]
    by (simp add: filter_even_upt)
  also have "\<dots> = t" by (rule nth_equalityI) (auto simp: nth_utf16le)
  finally have pick: "pick_bytes (\<lambda>j. j mod 2 = 0) ?e = t" .
  have "\<not> (6 \<le> length t \<and> length t = length t div 2 * 3)" by presburger
  then show ?thesis
    using assms(2,3) unfolding deunicode_one_def Let_def par token_simps z1 z2
    by (auto simp: pick)
qed

end
