(* ===== verification/Flow.thy ===== *)
theory Flow
  imports State "HOL-Library.Monad_Syntax"
begin

text \<open>
  Commands: how the development writes down the statements of \<open>fuzz_one_original\<close>, one
  large C function whose stages leave it with \<^verbatim>\<open>goto\<close>. A command maps a state to the
  exit it takes and the state it leaves; \<^term>\<open>None\<close> is a loop that does not end.
  The predicate \<open>wp\<close> says that a command ends and that its exit and final state satisfy a
  postcondition, so every theorem stated with it is a total-correctness theorem.
\<close>

section \<open>Commands\<close>

text \<open>
  The labels a stage jumps to, the end of the process in \<^verbatim>\<open>FATAL\<close>, and an access
  outside an array, which ends nowhere the source intends.
\<close>

datatype flow = Next | Custom_mutator_stage | Havoc_stage | Retry_splicing | Abandon_entry | Abort_calibration | Abort_trimming
  | Cleanup_skipdet | Return_zero | Break | Fatal | Invalid_access

type_synonym 's cmd = "'s \<Rightarrow> (flow \<times> 's) option"

definition upd :: "('s \<Rightarrow> 's) \<Rightarrow> 's cmd" where
  "upd f s = Some (Next, f s)"

definition goto :: "flow \<Rightarrow> 's cmd" where
  "goto l s = Some (l, s)"

definition cond :: "('s \<Rightarrow> bool) \<Rightarrow> 's cmd \<Rightarrow> 's cmd \<Rightarrow> 's cmd" where
  "cond b c d s = (if b s then c s else d s)"

text \<open>A command that depends on values read from the state when it is reached.\<close>

definition reading :: "('s \<Rightarrow> 'a) \<Rightarrow> ('a \<Rightarrow> 's cmd) \<Rightarrow> 's cmd" where
  "reading f c s = c (f s) s"

fun steps :: "'s cmd list \<Rightarrow> 's cmd" where
  "steps [] s = Some (Next, s)"
| "steps (c # cs) s =
     Option.bind (c s) (\<lambda>(f, s'). if f = Next then steps cs s' else Some (f, s'))"

declare steps.simps [simp del]

text \<open>\<^verbatim>\<open>for (i = 0; i < n; ++i)\<close> over a local variable.\<close>

definition for_range :: "nat \<Rightarrow> nat \<Rightarrow> (nat \<Rightarrow> 's cmd) \<Rightarrow> 's cmd" where
  "for_range lo hi body = steps (map body [lo..<hi])"

text \<open>A loop whose condition reads state that its body may change.\<close>

partial_function (option) while_cmd :: "('s \<Rightarrow> bool) \<Rightarrow> 's cmd \<Rightarrow> 's cmd" where
  "while_cmd b c s =
     (if b s then Option.bind (c s) (\<lambda>(f, s'). if f = Next then while_cmd b c s' else Some (f, s'))
      else Some (Next, s))"

text \<open>A label behind a command, or the end of the loop a \<^verbatim>\<open>break\<close> leaves.\<close>

definition until :: "flow \<Rightarrow> 's cmd \<Rightarrow> 's cmd" where
  "until l c s = map_option (\<lambda>(f, s'). (if f = l then Next else f, s')) (c s)"

text \<open>\<^verbatim>\<open>do { } while (b)\<close>\<close>

definition do_while :: "'s cmd \<Rightarrow> ('s \<Rightarrow> bool) \<Rightarrow> 's cmd" where
  "do_while c b = steps [c, while_cmd b c]"

text \<open>A label before a command that jumps back to it.\<close>

partial_function (option) loop_on :: "flow \<Rightarrow> 's cmd \<Rightarrow> 's cmd" where
  "loop_on l c s = Option.bind (c s) (\<lambda>(f, s'). if f = l then loop_on l c s' else Some (f, s'))"

section \<open>Weakest preconditions\<close>

text \<open>
  \<^term>\<open>wp d c Q s\<close>: from \<open>s\<close> the command ends with its exit and state in \<open>Q\<close>, or does not end
  and the flag \<open>d\<close> allows that. With \<^term>\<open>False\<close> for \<open>d\<close> this is total correctness.
\<close>

definition wp :: "bool \<Rightarrow> 's cmd \<Rightarrow> (flow \<Rightarrow> 's \<Rightarrow> bool) \<Rightarrow> 's \<Rightarrow> bool" where
  "wp d c Q s \<longleftrightarrow> (case c s of None \<Rightarrow> d | Some (f, s') \<Rightarrow> Q f s')"

text \<open>The postcondition that continues with \<open>R\<close> on the normal exit and asks \<open>Q\<close> of the others.\<close>

definition andthen :: "('s \<Rightarrow> bool) \<Rightarrow> (flow \<Rightarrow> 's \<Rightarrow> bool) \<Rightarrow> flow \<Rightarrow> 's \<Rightarrow> bool" where
  "andthen R Q f s \<longleftrightarrow> (if f = Next then R s else Q f s)"

lemma andthen_simps [simp, loop_simps]:
  "andthen R Q Next s = R s" "f \<noteq> Next \<Longrightarrow> andthen R Q f s = Q f s"
  by (simp_all add: andthen_def)

lemma wp_upd [simp, loop_simps]: "wp d (upd f) Q s \<longleftrightarrow> Q Next (f s)"
  by (simp add: wp_def upd_def)

lemma wp_goto [simp, loop_simps]: "wp d (goto l) Q s \<longleftrightarrow> Q l s"
  by (simp add: wp_def goto_def)

lemma wp_cond [simp, loop_simps]: "wp d (cond b c e) Q s \<longleftrightarrow> (if b s then wp d c Q s else wp d e Q s)"
  by (simp add: wp_def cond_def)

lemma wp_reading [simp, loop_simps]: "wp d (reading f c) Q s \<longleftrightarrow> wp d (c (f s)) Q s"
  by (simp add: wp_def reading_def)

lemma wp_until [simp, loop_simps]:
  "wp d (until l c) Q s \<longleftrightarrow> wp d c (\<lambda>f s'. Q (if f = l then Next else f) s') s"
  by (auto simp: wp_def until_def split: option.splits)

lemma wp_Nil [simp, loop_simps]: "wp d (steps []) Q s \<longleftrightarrow> Q Next s"
  by (simp add: wp_def steps.simps)

lemma wp_Cons [simp, loop_simps]:
  "wp d (steps (c # cs)) Q s \<longleftrightarrow> wp d c (andthen (wp d (steps cs) Q) Q) s"
  by (cases "c s") (auto simp: wp_def andthen_def steps.simps split: if_splits)

lemma andthen_done [simp, loop_simps]:
  "andthen (wp d (steps []) Q) Q = Q" "andthen (Q Next) Q = Q" "andthen (andthen R Q Next) Q = andthen R Q"
  "andthen R (andthen R' Q) = andthen R Q"
  by (auto simp: andthen_def fun_eq_iff)

lemma wp_single [simp, loop_simps]: "wp d (steps [c]) Q = wp d c Q"
  by (rule ext) simp

lemma wp_mono:
  assumes "wp d c Q s" and "\<And>f s'. Q f s' \<Longrightarrow> R f s'"
  shows "wp d c R s"
  using assms by (auto simp: wp_def split: option.splits)

lemma wp_append:
  "wp d (steps (cs @ ds)) Q s \<longleftrightarrow> wp d (steps cs) (andthen (wp d (steps ds) Q) Q) s"
proof (induction cs arbitrary: s)
  case (Cons c cs)
  have "wp d (steps (cs @ ds)) Q = wp d (steps cs) (andthen (wp d (steps ds) Q) Q)"
    by (rule ext) (rule Cons)
  moreover have "andthen (wp d (steps cs) (andthen (wp d (steps ds) Q) Q)) Q =
      andthen (wp d (steps cs) (andthen (wp d (steps ds) Q) Q)) (andthen (wp d (steps ds) Q) Q)"
    by (auto simp: andthen_def fun_eq_iff)
  ultimately show ?case by simp
qed simp

lemma wp_total: "wp False c Q s \<Longrightarrow> \<exists>f s'. c s = Some (f, s') \<and> Q f s'"
  by (auto simp: wp_def split: option.splits)

lemma wp_result: "wp d c Q s \<Longrightarrow> c s = Some (f, s') \<Longrightarrow> Q f s'"
  by (simp add: wp_def)

text \<open>Sequencing, one statement at a time.\<close>

lemma wp_seq:
  assumes "wp d c (andthen R Q) s" and "\<And>s. R s \<Longrightarrow> wp d (steps cs) Q s"
  shows "wp d (steps (c # cs)) Q s"
  unfolding wp_Cons
proof (rule wp_mono [OF assms(1)])
  fix f s'
  assume "andthen R Q f s'"
  then show "andthen (wp d (steps cs) Q) Q f s'" using assms(2) by (cases "f = Next") auto
qed

lemma andthen_absorb [simp]: "andthen R (andthen R' Q) = andthen R Q"
  by (auto simp: andthen_def fun_eq_iff)

text \<open>A counted loop keeps an invariant that may mention the counter.\<close>

lemma wp_for_range:
  assumes "I lo s" and "lo \<le> hi"
    and "\<And>i s. lo \<le> i \<Longrightarrow> i < hi \<Longrightarrow> I i s \<Longrightarrow> wp d (body i) (andthen (I (Suc i)) Q) s"
    and "\<And>s. I hi s \<Longrightarrow> Q Next s"
  shows "wp d (for_range lo hi body) Q s"
proof -
  have "wp d (steps (map body [lo..<hi])) Q s"
    using assms(2,1,3)
  proof (induction lo arbitrary: s rule: inc_induct)
    case base
    then show ?case using assms(4) by simp
  next
    case (step n)
    have "wp d (body n) (andthen (I (Suc n)) Q) s" using step by blast
    then have "wp d (body n) (andthen (wp d (steps (map body [Suc n..<hi])) Q) Q) s"
    proof (rule wp_mono)
      fix f s'
      assume "andthen (I (Suc n)) Q f s'"
      then show "andthen (wp d (steps (map body [Suc n..<hi])) Q) Q f s'"
        using step by (cases "f = Next") auto
    qed
    then show ?case using step(2) by (simp add: upt_conv_Cons)
  qed
  then show ?thesis by (simp add: for_range_def)
qed

lemma wp_for_range_empty [simp]: "hi \<le> lo \<Longrightarrow> wp d (for_range lo hi body) Q s \<longleftrightarrow> Q Next s"
  by (simp add: for_range_def)

text \<open>A conditional loop ends when a measure decreases.\<close>

lemma wp_while:
  assumes "I s"
    and "\<And>s. I s \<Longrightarrow> b s \<Longrightarrow> wp d c (andthen (\<lambda>s'. I s' \<and> m s' < (m s :: nat)) Q) s"
    and "\<And>s. I s \<Longrightarrow> \<not> b s \<Longrightarrow> Q Next s"
  shows "wp d (while_cmd b c) Q s"
  using assms(1)
proof (induction "m s" arbitrary: s rule: less_induct)
  case less
  show ?case
  proof (cases "b s")
    case True
    have c: "wp d c (andthen (\<lambda>s'. I s' \<and> m s' < m s) Q) s" using assms(2) less(2) True by blast
    show ?thesis
    proof (cases "c s")
      case None
      then show ?thesis using c True by (simp add: wp_def while_cmd.simps [of b c s])
    next
      case (Some r)
      obtain f s' where r: "r = (f, s')" by (cases r)
      show ?thesis
      proof (cases "f = Next")
        case True
        then have "wp d (while_cmd b c) Q s'" using c Some r less(1) by (simp add: wp_def)
        then show ?thesis using True Some r \<open>b s\<close> by (simp add: wp_def while_cmd.simps [of b c s])
      next
        case False
        then show ?thesis using c Some r \<open>b s\<close> by (simp add: wp_def while_cmd.simps [of b c s])
      qed
    qed
  next
    case False
    then show ?thesis using assms(3) less(2) by (simp add: wp_def while_cmd.simps [of b c s])
  qed
qed

text \<open>Where a loop need not end, its invariant is enough.\<close>

lemma while_partial_result:
  assumes r: "while_cmd b c s = Some r" and c: "\<And>s. I s \<Longrightarrow> b s \<Longrightarrow> wp True c (andthen I Q) s"
    and e: "\<And>s. I s \<Longrightarrow> \<not> b s \<Longrightarrow> Q Next s" and I: "I s"
  shows "Q (fst r) (snd r)"
proof -
  have "b = b \<longrightarrow> c = c \<longrightarrow> I s \<longrightarrow> Q (fst r) (snd r)"
  proof (rule while_cmd.raw_induct [where P = "\<lambda>b' c' s r. b' = b \<longrightarrow> c' = c \<longrightarrow> I s \<longrightarrow> Q (fst r) (snd r)", OF _ r])
    fix loop b' and c' :: "'a cmd" and s r
    assume IH: "\<And>b' c' s r. loop b' c' s = Some r \<Longrightarrow> b' = b \<longrightarrow> c' = c \<longrightarrow> I s \<longrightarrow> Q (fst r) (snd r)"
      and step: "(if b' s then Option.bind (c' s) (\<lambda>(f, s'). if f = Next then loop b' c' s' else Some (f, s'))
        else Some (Next, s)) = Some r"
    show "b' = b \<longrightarrow> c' = c \<longrightarrow> I s \<longrightarrow> Q (fst r) (snd r)"
    proof (intro impI)
      assume "b' = b" "c' = c" and J: "I s"
      note step = step [unfolded \<open>b' = b\<close> \<open>c' = c\<close>]
      show "Q (fst r) (snd r)"
      proof (cases "b s")
        case True
        from step True obtain p where "c s = Some p" and rest: "(\<lambda>(f, s'). if f = Next then loop b c s' else Some (f, s')) p = Some r"
          by (auto simp: bind_eq_Some_conv)
        moreover obtain f s' where "p = (f, s')" by (cases p)
        ultimately have s': "c s = Some (f, s')" and rest: "(if f = Next then loop b c s' else Some (f, s')) = Some r"
          by simp_all
        have "andthen I Q f s'" by (rule wp_result [OF c [OF J True] s'])
        then show ?thesis using rest IH [of b c s' r] by (cases "f = Next") (auto simp: andthen_def)
      next
        case False
        then show ?thesis using step e [OF J] by auto
      qed
    qed
  qed
  then show ?thesis using I by simp
qed

lemma wp_while_partial:
  assumes I: "I s" and c: "\<And>s. I s \<Longrightarrow> b s \<Longrightarrow> wp True c (andthen I Q) s" and e: "\<And>s. I s \<Longrightarrow> \<not> b s \<Longrightarrow> Q Next s"
  shows "wp True (while_cmd b c) Q s"
proof (cases "while_cmd b c s")
  case (Some r)
  then show ?thesis using while_partial_result [OF Some c e I] by (cases r) (simp add: wp_def)
qed (simp add: wp_def)

text \<open>So does a backward jump.\<close>

lemma wp_loop_on:
  assumes "I s"
    and "\<And>s. I s \<Longrightarrow> wp d c (\<lambda>f s'. if f = l then I s' \<and> m s' < (m s :: nat) else Q f s') s"
  shows "wp d (loop_on l c) Q s"
  using assms(1)
proof (induction "m s" arbitrary: s rule: less_induct)
  case less
  note step = assms(2) [OF less(2)]
  show ?case
  proof (cases "c s")
    case None
    then show ?thesis using step by (simp add: wp_def loop_on.simps [of l c s])
  next
    case (Some r)
    obtain f s' where r: "r = (f, s')" by (cases r)
    show ?thesis
    proof (cases "f = l")
      case True
      then have "wp d (loop_on l c) Q s'" using step Some r less(1) by (simp add: wp_def)
      then show ?thesis using True Some r by (simp add: wp_def loop_on.simps [of l c s])
    next
      case False
      then show ?thesis using step Some r by (simp add: wp_def loop_on.simps [of l c s])
    qed
  qed
qed

section \<open>Invariants of commands\<close>

text \<open>Whenever the command returns, by whatever exit, \<open>J\<close> still holds.\<close>

definition keeps_inv :: "('s \<Rightarrow> bool) \<Rightarrow> 's cmd \<Rightarrow> bool" where
  "keeps_inv J c \<longleftrightarrow> (\<forall>s f s'. c s = Some (f, s') \<longrightarrow> J s \<longrightarrow> J s')"

lemma keeps_inv_result: "keeps_inv J c \<Longrightarrow> c s = Some (f, s') \<Longrightarrow> J s \<Longrightarrow> J s'"
  by (auto simp: keeps_inv_def)

lemma wp_keeps:
  assumes "wp d c Q s" and "keeps_inv J c" and "J s"
  shows "wp d c (\<lambda>f s'. Q f s' \<and> J s') s"
  using assms keeps_inv_result [OF assms(2) _ assms(3)] by (auto simp: wp_def split: option.splits)

lemma keeps_inv_upd [simp]: "keeps_inv J (upd f) \<longleftrightarrow> (\<forall>s. J s \<longrightarrow> J (f s))"
  by (simp add: keeps_inv_def upd_def)

lemma keeps_inv_goto [simp]: "keeps_inv J (goto l)"
  by (simp add: keeps_inv_def goto_def)

lemma keeps_inv_cond [simp]: "keeps_inv J c \<Longrightarrow> keeps_inv J d \<Longrightarrow> keeps_inv J (cond b c d)"
  by (simp add: keeps_inv_def cond_def)

lemma keeps_inv_reading [simp]: "(\<And>x. keeps_inv J (c x)) \<Longrightarrow> keeps_inv J (reading f c)"
  by (simp add: keeps_inv_def reading_def)

lemma keeps_inv_Nil [simp]: "keeps_inv J (steps [])"
  by (simp add: keeps_inv_def steps.simps)

lemma keeps_inv_Cons [simp]: "keeps_inv J c \<Longrightarrow> keeps_inv J (steps cs) \<Longrightarrow> keeps_inv J (steps (c # cs))"
  by (auto simp: keeps_inv_def steps.simps Option.bind_eq_Some_conv split: if_splits)

lemma keeps_inv_for_range [simp]:
  assumes "\<And>i. keeps_inv J (body i)"
  shows "keeps_inv J (for_range lo hi body)"
proof -
  have "keeps_inv J (steps (map body is))" for "is" using assms by (induction "is") simp_all
  then show ?thesis by (simp add: for_range_def)
qed

lemma keeps_inv_until [simp]: "keeps_inv J c \<Longrightarrow> keeps_inv J (until l c)"
  by (auto simp: keeps_inv_def until_def split: if_splits)

lemma keeps_inv_while [simp]:
  assumes "keeps_inv J c"
  shows "keeps_inv J (while_cmd b c)"
proof -
  have "keeps_inv J c \<longrightarrow> J s \<longrightarrow> J (snd r)" if "while_cmd b c s = Some r" for s r
  proof (rule while_cmd.raw_induct [where P = "\<lambda>b c s r. keeps_inv J c \<longrightarrow> J s \<longrightarrow> J (snd r)", OF _ that], intro impI)
    fix loop and b and c :: "'a cmd" and s r
    assume IH: "\<And>b c s r. loop b c s = Some r \<Longrightarrow> keeps_inv J c \<longrightarrow> J s \<longrightarrow> J (snd r)"
      and step: "(if b s then Option.bind (c s) (\<lambda>(f, s'). if f = Next then loop b c s' else Some (f, s'))
        else Some (Next, s)) = Some r"
      and c: "keeps_inv J c" and J: "J s"
    show "J (snd r)"
    proof (cases "b s")
      case True
      then obtain f s' where s': "c s = Some (f, s')"
        and rest: "(if f = Next then loop b c s' else Some (f, s')) = Some r"
        using step by (auto simp: Option.bind_eq_Some_conv)
      have "J s'" by (rule keeps_inv_result [OF c s' J])
      then show ?thesis using rest IH [of b c s' r] c by (auto split: if_splits)
    next
      case False
      then show ?thesis using step J by auto
    qed
  qed
  then show ?thesis using assms by (auto simp: keeps_inv_def)
qed

lemma keeps_inv_loop_on [simp]:
  assumes "keeps_inv J c"
  shows "keeps_inv J (loop_on l c)"
proof -
  have "keeps_inv J c \<longrightarrow> J s \<longrightarrow> J (snd r)" if "loop_on l c s = Some r" for s r
  proof (rule loop_on.raw_induct [where P = "\<lambda>l c s r. keeps_inv J c \<longrightarrow> J s \<longrightarrow> J (snd r)", OF _ that], intro impI)
    fix loop and l and c :: "'a cmd" and s r
    assume IH: "\<And>l c s r. loop l c s = Some r \<Longrightarrow> keeps_inv J c \<longrightarrow> J s \<longrightarrow> J (snd r)"
      and step: "Option.bind (c s) (\<lambda>(f, s'). if f = l then loop l c s' else Some (f, s')) = Some r"
      and c: "keeps_inv J c" and J: "J s"
    obtain f s' where s': "c s = Some (f, s')" and rest: "(if f = l then loop l c s' else Some (f, s')) = Some r"
      using step by (auto simp: Option.bind_eq_Some_conv)
    have "J s'" by (rule keeps_inv_result [OF c s' J])
    then show "J (snd r)" using rest IH [of l c s' r] c by (auto split: if_splits)
  qed
  then show ?thesis using assms by (auto simp: keeps_inv_def)
qed

end
