(* ===== verification/Queue.thy ===== *)
theory Queue
  imports Rng
begin

text \<open>
  The queue of test cases (\<^verbatim>\<open>src/afl-fuzz-queue.c\<close>): adding an entry, the contest for the
  bytes of the bitmap in \<^verbatim>\<open>top_rated\<close>, and the choice of the favored entries. The
  marker files kept in the output directory for other tools are not modelled.
\<close>

section \<open>Entries\<close>

definition entry :: "'a queue_state_scheme \<Rightarrow> nat \<Rightarrow> queue_entry" where
  "entry s q = queue_buf s ! q"

definition upd_entry :: "nat \<Rightarrow> (queue_entry \<Rightarrow> queue_entry) \<Rightarrow> 'a queue_state_scheme \<Rightarrow> 'a queue_state_scheme" where
  "upd_entry q f s = s\<lparr>queue_buf := (queue_buf s)[q := f (queue_buf s ! q)]\<rparr>"

definition mark_as_variable :: "nat \<Rightarrow> 'a queue_state_scheme \<Rightarrow> 'a queue_state_scheme" where
  "mark_as_variable q = upd_entry q (\<lambda>e. e\<lparr>var_behavior := True\<rparr>)"

definition mark_as_redundant :: "nat \<Rightarrow> bool \<Rightarrow> 'a queue_state_scheme \<Rightarrow> 'a queue_state_scheme" where
  "mark_as_redundant q state s =
     (if state = fs_redundant (entry s q) then s
      else let s = upd_entry q (\<lambda>e. e\<lparr>fs_redundant := state\<rparr>) s
           in if state \<and> afl_disable_redundant s then upd_entry q (\<lambda>e. e\<lparr>disabled := True\<rparr>) s else s)"

text \<open>\<^verbatim>\<open>ck_alloc\<close> clears the new entry; the file \<open>mem\<close> names is already written.\<close>

definition new_entry :: "buf \<Rightarrow> nat \<Rightarrow> bool \<Rightarrow> 'a queue_state_scheme \<Rightarrow> queue_entry" where
  "new_entry file len passed s = \<lparr>q_file = file, q_len = of_nat len, q_id = queued_items s, cal_failed = 0,
     trim_done = False, was_fuzzed = False, passed_det = passed, has_new_cov = False,
     var_behavior = False, favored = False, fs_redundant = False, disabled = False,
     bitmap_size = 0, fuzz_level = 0, n_fuzz_entry = 0, exec_us = 0, handicap = 0,
     depth = ucast (cur_depth s + 1), exec_cksum = 0, trace_mini = None, tc_ref = 0,
     testcase_buf = None, mother = Some (queue_cur s), perf_score = 0, weight = 0, continue_inf = False,
     done_eff = False, undet_bits = 0, quick_eff_bytes = 0, skip_eff_map = None, done_inf_map = None\<rparr>"

definition add_to_queue :: "world \<Rightarrow> buf \<Rightarrow> nat \<Rightarrow> bool \<Rightarrow> 'a queue_state_scheme \<Rightarrow> 'a queue_state_scheme" where
  "add_to_queue w file len passed s =
     (let q = new_entry file len passed s;
          s = (if depth q > ucast (max_depth s) then s\<lparr>max_depth := ucast (depth q)\<rparr> else s);
          s = s\<lparr>queue_top := length (queue_buf s)\<rparr>;
          s = (if q_len q > 4 then s\<lparr>ready_for_splicing_count := ready_for_splicing_count s + 1\<rparr> else s);
          s = s\<lparr>queued_items := queued_items s + 1, active_items := active_items s + 1,
                pending_not_fuzzed := pending_not_fuzzed s + 1, cycles_wo_finds := 0,
                queue_buf := queue_buf s @ [q]\<rparr>;
          (cur_time, s) = get_cur_time w s;
          s = (if start_time s \<noteq> 0 \<and> longest_find_time s < cur_time - last_find_time s
               then s\<lparr>longest_find_time :=
                      cur_time - (if last_find_time s = 0 then start_time s else last_find_time s)\<rparr>
               else s)
      in s\<lparr>last_find_time := cur_time\<rparr>)"

section \<open>The contest for the bytes of the bitmap\<close>

definition fuzz_p2 :: "'a queue_state_scheme \<Rightarrow> queue_entry \<Rightarrow> u64" where
  "fuzz_p2 s e =
     (if schedule s \<ge> FAST \<and> schedule s < RARE then 0
      else if schedule s = RARE then next_pow2 (ucast (n_fuzz s ! unat (n_fuzz_entry e)))
      else ucast (fuzz_level e))"

definition fav_factor :: "'a queue_state_scheme \<Rightarrow> queue_entry \<Rightarrow> u64" where
  "fav_factor s e =
     (if schedule s \<ge> RARE \<or> fixed_seed s then ucast (push_bit 2 (q_len e)) else exec_us e * ucast (q_len e))"

text \<open>One entry gives up a byte; its own map goes with its last byte.\<close>

definition drop_ref :: "nat \<Rightarrow> 'a queue_state_scheme \<Rightarrow> 'a queue_state_scheme" where
  "drop_ref t = upd_entry t (\<lambda>e. let e = e\<lparr>tc_ref := tc_ref e - 1\<rparr>
      in if tc_ref e = 0 then e\<lparr>trace_mini := None\<rparr> else e)"

definition win_byte :: "nat \<Rightarrow> nat \<Rightarrow> 'a queue_state_scheme \<Rightarrow> 'a queue_state_scheme" where
  "win_byte q i s =
     (let s = s\<lparr>top_rated := (top_rated s)[i := Some q]\<rparr>;
          mini = minimize_bits s (replicate (map_size s div 8) 0) (trace_bits s)
      in (upd_entry q (\<lambda>e. let e = e\<lparr>tc_ref := tc_ref e + 1\<rparr>
             in if trace_mini e = None then e\<lparr>trace_mini := Some mini\<rparr> else e) s)\<lparr>score_changed := True\<rparr>)"

definition contest :: "nat \<Rightarrow> u64 \<Rightarrow> u64 \<Rightarrow> nat \<Rightarrow> 'a queue_state_scheme \<Rightarrow> 'a queue_state_scheme" where
  "contest q p2 fav i s =
     (if trace_bits s ! i = 0 then s
      else case top_rated s ! i of
        None \<Rightarrow> win_byte q i s
      | Some t \<Rightarrow> if p2 > fuzz_p2 s (entry s t) then s
                   else if fav > fav_factor s (entry s t) then s
                   else win_byte q i (drop_ref t s))"

definition update_bitmap_score :: "nat \<Rightarrow> 'a queue_state_scheme \<Rightarrow> 'a queue_state_scheme" where
  "update_bitmap_score q s =
     fold (contest q (fuzz_p2 s (entry s q)) (fav_factor s (entry s q))) [0..<map_size s] s"

section \<open>The favored entries\<close>

text \<open>\<^verbatim>\<open>temp_v[j] &= ~trace_mini[j]\<close> for every \<open>j\<close>, from the last one down.\<close>

definition remove_bits :: "buf \<Rightarrow> buf \<Rightarrow> buf" where
  "remove_bits mini v = fold (\<lambda>j v. if mini ! j \<noteq> 0 then v[j := v ! j AND NOT (mini ! j)] else v)
     (rev [0..<length v]) v"

definition favor :: "nat \<Rightarrow> 'a queue_state_scheme \<Rightarrow> 'a queue_state_scheme" where
  "favor t s =
     (if favored (entry s t) then s
      else let s = (upd_entry t (\<lambda>e. e\<lparr>favored := True\<rparr>) s)\<lparr>queued_favored := queued_favored s + 1\<rparr>
           in if was_fuzzed (entry s t) then s
              else s\<lparr>pending_favored := pending_favored s + 1,
                     smallest_favored := (if smallest_favored s < 0 then uint (q_id (entry s t))
                                          else smallest_favored s)\<rparr>)"

definition cull_step :: "nat \<Rightarrow> buf \<times> 'a queue_state_scheme \<Rightarrow> buf \<times> 'a queue_state_scheme" where
  "cull_step i vs =
     (let (v, s) = vs in
      case top_rated s ! i of
        None \<Rightarrow> (v, s)
      | Some t \<Rightarrow>
          if bit (v ! (i div 8)) (i mod 8)
          then (remove_bits (the (trace_mini (entry s t))) v, favor t s)
          else (v, s))"

definition mark_redundancy :: "nat \<Rightarrow> 'a queue_state_scheme \<Rightarrow> 'a queue_state_scheme" where
  "mark_redundancy i s =
     (if disabled (entry s i) then s else mark_as_redundant i (\<not> favored (entry s i)) s)"

definition cull_queue :: "'a queue_state_scheme \<Rightarrow> 'a queue_state_scheme" where
  "cull_queue s =
     (if \<not> score_changed s \<or> non_instrumented_mode s then s
      else let s = s\<lparr>score_changed := False, queued_favored := 0, pending_favored := 0\<rparr>;
               s = fold (\<lambda>i. upd_entry i (\<lambda>e. e\<lparr>favored := False\<rparr>)) [0..<unat (queued_items s)] s;
               s = s\<lparr>smallest_favored := -1\<rparr>;
               (v, s) = fold cull_step [0..<map_size s] (replicate (map_size s div 8) 255, s);
               s = fold mark_redundancy [0..<unat (queued_items s)] s
           in s\<lparr>reinit_table := True\<rparr>)"

section \<open>The invariant of the contest\<close>

definition bytes_held :: "'a queue_state_scheme \<Rightarrow> nat \<Rightarrow> nat set" where
  "bytes_held s q = {i. i < map_size s \<and> top_rated s ! i = Some q}"

text \<open>
  Reference counts count the bytes an entry holds, an entry has a map of its own exactly
  while it holds a byte, and, where the flag \<open>c\<close> is set, that map contains every byte it holds.
\<close>

definition held_ok :: "bool \<Rightarrow> 'a queue_state_scheme \<Rightarrow> nat set \<Rightarrow> queue_entry \<Rightarrow> bool" where
  "held_ok c s H e \<longleftrightarrow>
     unat (tc_ref e) = card H \<and>
     (case trace_mini e of
        None \<Rightarrow> H = {}
      | Some m \<Rightarrow> H \<noteq> {} \<and> length m = map_size s div 8 \<and> (c \<longrightarrow> (\<forall>i \<in> H. bit (m ! (i div 8)) (i mod 8))))"

definition rated :: "bool \<Rightarrow> 'a queue_state_scheme \<Rightarrow> bool" where
  "rated c s \<longleftrightarrow>
     length (top_rated s) = map_size s \<and> 8 dvd map_size s \<and> map_size s < 2 ^ 32 \<and>
     (\<forall>i q. i < map_size s \<longrightarrow> top_rated s ! i = Some q \<longrightarrow> q < length (queue_buf s)) \<and>
     (\<forall>q < length (queue_buf s). held_ok c s (bytes_held s q) (entry s q))"

text \<open>
  With \<^term>\<open>False\<close> for the flag nothing is said of the bits in the maps: the counts are right, and
  who has a map at all.
\<close>

abbreviation rated_ok :: "'a queue_state_scheme \<Rightarrow> bool" where "rated_ok \<equiv> rated True"
abbreviation counted_ok :: "'a queue_state_scheme \<Rightarrow> bool" where "counted_ok \<equiv> rated False"

text \<open>
  The map an entry already has covers the trace it competes with. An entry without a map, as it
  is when its calibration calls, meets this; an entry with one meets it for any trace that hits
  no byte the map lacks.
\<close>

definition mini_covers :: "'a queue_state_scheme \<Rightarrow> nat \<Rightarrow> bool" where
  "mini_covers s q \<longleftrightarrow> (\<forall>m i. trace_mini (entry s q) = Some m \<longrightarrow> i < map_size s \<longrightarrow>
     trace_bits s ! i \<noteq> 0 \<longrightarrow> bit (m ! (i div 8)) (i mod 8))"

lemma finite_bytes_held [simp, intro]: "finite (bytes_held s q)"
  by (simp add: bytes_held_def)

lemma entry_upd_entry [simp]:
  "q < length (queue_buf s) \<Longrightarrow> entry (upd_entry q f s) q' = (if q' = q then f (entry s q) else entry s q')"
  by (simp add: entry_def upd_entry_def nth_list_update_if)

lemma upd_entry_frame [simp]:
  "map_size (upd_entry q f s) = map_size s" "trace_bits (upd_entry q f s) = trace_bits s"
  "top_rated (upd_entry q f s) = top_rated s" "length (queue_buf (upd_entry q f s)) = length (queue_buf s)"
  "schedule (upd_entry q f s) = schedule s" "fixed_seed (upd_entry q f s) = fixed_seed s"
  "n_fuzz (upd_entry q f s) = n_fuzz s" "real_map_size (upd_entry q f s) = real_map_size s"
  "queued_favored (upd_entry q f s) = queued_favored s" "pending_favored (upd_entry q f s) = pending_favored s"
  "smallest_favored (upd_entry q f s) = smallest_favored s" "queued_items (upd_entry q f s) = queued_items s"
  "afl_disable_redundant (upd_entry q f s) = afl_disable_redundant s"
  by (simp_all add: upd_entry_def)

lemma bytes_held_less: "bytes_held s q \<subseteq> {..<map_size s}"
  by (auto simp: bytes_held_def)

lemma card_bytes_held_le: "card (bytes_held s q) \<le> map_size s"
  using card_mono [OF _ bytes_held_less, of s q] by simp

lemma minimize_bits_frame [simp]:
  "minimize_bits (s\<lparr>top_rated := r\<rparr>) dst src = minimize_bits s dst src"
  by (simp add: minimize_bits_def)

lemma mini_of_trace:
  assumes "8 dvd map_size s" and "i < map_size s" and "trace_bits s ! i \<noteq> 0"
  shows "bit (minimize_bits s (replicate (map_size s div 8) 0) (trace_bits s) ! (i div 8)) (i mod 8)"
  using assms by (subst bit_minimize_bits) auto

text \<open>One entry takes a byte nobody else holds any more.\<close>

lemma bytes_held_win_byte:
  assumes "i < length (top_rated s)" and "length (top_rated s) = map_size s"
  shows "bytes_held (win_byte q i s) q' =
    (if q' = q then insert i (bytes_held s q) else bytes_held s q' - {i})"
  using assms by (auto simp: bytes_held_def win_byte_def Let_def nth_list_update_if)

lemma entry_score_changed [simp]:
  "entry (s\<lparr>score_changed := b\<rparr>) q = entry s q" "entry (s\<lparr>top_rated := r\<rparr>) q = entry s q"
  by (simp_all add: entry_def)


lemma held_ok_cong: "map_size s' = map_size s \<Longrightarrow> held_ok c s' = held_ok c s"
  by (simp add: held_ok_def fun_eq_iff split: option.split)

text \<open>Between the two halves of a change of hands, byte \<open>i\<close> belongs to nobody.\<close>

definition open_at :: "bool \<Rightarrow> nat \<Rightarrow> 'a queue_state_scheme \<Rightarrow> bool" where
  "open_at c i s \<longleftrightarrow>
     length (top_rated s) = map_size s \<and> 8 dvd map_size s \<and> map_size s < 2 ^ 32 \<and>
     (\<forall>j q. j < map_size s \<longrightarrow> j \<noteq> i \<longrightarrow> top_rated s ! j = Some q \<longrightarrow> q < length (queue_buf s)) \<and>
     (\<forall>q < length (queue_buf s). held_ok c s (bytes_held s q - {i}) (entry s q))"

lemma open_at_free:
  assumes "rated c s" and "i < map_size s" and "top_rated s ! i = None"
  shows "open_at c i s"
proof -
  have "bytes_held s q - {i} = bytes_held s q" for q
    using assms(3) by (auto simp: bytes_held_def)
  then show ?thesis using assms by (auto simp: rated_def open_at_def)
qed

lemma held_ok_drop:
  assumes ok: "held_ok c s H e" and i: "i \<in> H" and fin: "finite H"
  shows "held_ok c s (H - {i}) (let e = e\<lparr>tc_ref := tc_ref e - 1\<rparr> in if tc_ref e = 0 then e\<lparr>trace_mini := None\<rparr> else e)"
proof -
  have card: "unat (tc_ref e) = card H" using ok by (simp add: held_ok_def)
  have pos: "0 < card H" using i fin by (auto simp: card_gt_0_iff)
  have minus: "unat (tc_ref e - 1) = card (H - {i})"
    using card pos i by (subst unat_sub) (auto simp: word_le_nat_alt)
  obtain m where m: "trace_mini e = Some m" using ok i by (auto simp: held_ok_def split: option.splits)
  show ?thesis
  proof (cases "H = {i}")
    case True
    then have "tc_ref e - 1 = 0" using minus by (simp add: unat_eq_0 [symmetric])
    then show ?thesis using True by (simp add: held_ok_def)
  next
    case False
    then have ne: "H - {i} \<noteq> {}" using i by auto
    then have "tc_ref e - 1 \<noteq> 0" using minus fin by (auto simp: unat_eq_0 [symmetric] card_gt_0_iff)
    then show ?thesis using ok m ne minus by (auto simp: held_ok_def Let_def)
  qed
qed

lemma open_at_drop_ref:
  assumes ok: "rated c s" and i: "i < map_size s" and t: "top_rated s ! i = Some t"
  shows "open_at c i (drop_ref t s)"
proof -
  have len: "t < length (queue_buf s)" using ok i t by (auto simp: rated_def)
  have it: "i \<in> bytes_held s t" using i t by (simp add: bytes_held_def)
  have H: "bytes_held (drop_ref t s) q = bytes_held s q" for q
    by (simp add: bytes_held_def drop_ref_def)
  have cong: "held_ok c (drop_ref t s) = held_ok c s" by (rule held_ok_cong) (simp add: drop_ref_def)
  have others: "bytes_held s q - {i} = bytes_held s q" if "q \<noteq> t" for q
    using that t by (auto simp: bytes_held_def)
  have "held_ok c s (bytes_held s q - {i}) (entry (drop_ref t s) q)" if "q < length (queue_buf s)" for q
  proof (cases "q = t")
    case True
    have "held_ok c s (bytes_held s t) (entry s t)" using ok len by (simp add: rated_def)
    from held_ok_drop [OF this it] show ?thesis by (simp add: drop_ref_def True len)
  next
    case False
    then show ?thesis using ok that len by (simp add: drop_ref_def others rated_def)
  qed
  then show ?thesis
    using ok unfolding open_at_def H cong by (auto simp: rated_def drop_ref_def)
qed

lemma held_ok_add:
  assumes ok: "held_ok c s H e" and i: "i \<notin> H" and fin: "finite H" and small: "card H < 2 ^ 32 - 1"
    and mini: "length mini = map_size s div 8" "bit (mini ! (i div 8)) (i mod 8)"
    and covers: "\<And>m. c \<Longrightarrow> trace_mini e = Some m \<Longrightarrow> bit (m ! (i div 8)) (i mod 8)"
  shows "held_ok c s (insert i H) (let e = e\<lparr>tc_ref := tc_ref e + 1\<rparr>
    in if trace_mini e = None then e\<lparr>trace_mini := Some mini\<rparr> else e)"
proof -
  have "unat (tc_ref e + 1) = unat (tc_ref e) + 1"
    using ok small by (subst unat_add_lem [THEN iffD1]) (simp_all add: held_ok_def)
  then show ?thesis
    using ok i fin mini covers by (cases "trace_mini e") (auto simp: held_ok_def Let_def)
qed

lemma rated_ok_win_byte:
  assumes op: "open_at c i s" and i: "i < map_size s" and q: "q < length (queue_buf s)"
    and hit: "trace_bits s ! i \<noteq> 0" and covers: "c \<longrightarrow> mini_covers s q"
  shows "rated c (win_byte q i s)"
proof -
  have len: "length (top_rated s) = map_size s" and dvd: "8 dvd map_size s" and small: "map_size s < 2 ^ 32"
    using op by (simp_all add: open_at_def)
  have H: "bytes_held (win_byte q i s) q' = (if q' = q then insert i (bytes_held s q) else bytes_held s q' - {i})" for q'
    by (rule bytes_held_win_byte) (use i len in auto)
  have cong: "held_ok c (win_byte q i s) = held_ok c s"
    by (rule held_ok_cong) (simp add: win_byte_def Let_def)
  have "card (bytes_held s q - {i}) \<le> card ({..<map_size s} - {i})"
    by (rule card_mono) (use bytes_held_less [of s q] in auto)
  also have "\<dots> < 2 ^ 32 - 1" using i small by simp
  finally have card: "card (bytes_held s q - {i}) < 2 ^ 32 - 1" .
  have "held_ok c s (insert i (bytes_held s q - {i})) (entry (win_byte q i s) q)"
  proof -
    have "held_ok c s (insert i (bytes_held s q - {i})) (let e = (entry s q)\<lparr>tc_ref := tc_ref (entry s q) + 1\<rparr>
      in if trace_mini e = None
         then e\<lparr>trace_mini := Some (minimize_bits s (replicate (map_size s div 8) 0) (trace_bits s))\<rparr> else e)"
    proof (rule held_ok_add [OF _ _ _ card])
      show "held_ok c s (bytes_held s q - {i}) (entry s q)" using op q by (simp add: open_at_def)
      show "bit (m ! (i div 8)) (i mod 8)" if c "trace_mini (entry s q) = Some m" for m
        using covers that i hit by (simp add: mini_covers_def)
    qed (use mini_of_trace [OF dvd i hit] in \<open>simp_all add: minimize_bits_def\<close>)
    then show ?thesis using q by (auto simp: win_byte_def Let_def split: if_splits)
  qed
  moreover have "held_ok c s (bytes_held s q' - {i}) (entry (win_byte q i s) q')"
    if "q' \<noteq> q" "q' < length (queue_buf s)" for q'
    using that op q by (simp add: win_byte_def Let_def open_at_def)
  ultimately have "held_ok c s (bytes_held (win_byte q i s) q') (entry (win_byte q i s) q')"
    if "q' < length (queue_buf s)" for q'
    using that unfolding H by (auto simp: insert_absorb)
  then show ?thesis
    using op i q unfolding rated_def cong
    by (auto simp: open_at_def win_byte_def Let_def nth_list_update_if split: if_splits)
qed


text \<open>What a contest leaves alone.\<close>

definition same_entry :: "queue_entry \<Rightarrow> queue_entry \<Rightarrow> bool" where
  "same_entry e e' \<longleftrightarrow> e' = e\<lparr>tc_ref := tc_ref e', trace_mini := trace_mini e'\<rparr>"

definition contest_frame :: "'a queue_state_scheme \<Rightarrow> 'a queue_state_scheme \<Rightarrow> bool" where
  "contest_frame s s' \<longleftrightarrow>
     s' = s\<lparr>queue_buf := queue_buf s', top_rated := top_rated s', score_changed := score_changed s'\<rparr> \<and>
     list_all2 same_entry (queue_buf s) (queue_buf s')"

lemma same_entry_refl [simp, intro]: "same_entry e e"
  by (simp add: same_entry_def)

lemma same_entry_upd:
  assumes "same_entry e e'"
  shows "same_entry e (let e = e'\<lparr>tc_ref := r e'\<rparr> in if P e then e\<lparr>trace_mini := m\<rparr> else e)"
  using assms by (cases e; cases e') (simp add: same_entry_def Let_def)

lemma contest_frame_refl [simp, intro]: "contest_frame s s"
  by (simp add: contest_frame_def list_all2_refl)

lemma list_all2_update_right:
  assumes "list_all2 P xs ys" and "q < length ys \<Longrightarrow> P (xs ! q) (ys ! q) \<Longrightarrow> P (xs ! q) y"
  shows "list_all2 P xs (ys[q := y])"
  using assms by (auto simp: list_all2_conv_all_nth nth_list_update_if)

lemma contest_frame_upd:
  assumes "contest_frame s s'" and "\<And>e e'. same_entry e e' \<Longrightarrow> same_entry e (f e')"
  shows "contest_frame s (upd_entry q f s')"
proof -
  have "list_all2 same_entry (queue_buf s) ((queue_buf s')[q := f (queue_buf s' ! q)])"
    by (rule list_all2_update_right) (use assms in \<open>simp_all add: contest_frame_def\<close>)
  then show ?thesis
    using assms(1) by (cases s; cases s') (simp add: contest_frame_def upd_entry_def)
qed

lemma contest_frame_rated [intro]:
  "contest_frame s s' \<Longrightarrow> contest_frame s (s'\<lparr>top_rated := r\<rparr>)"
  by (cases s; cases s') (simp add: contest_frame_def)

lemma contest_frame_changed [intro]:
  "contest_frame s s' \<Longrightarrow> contest_frame s (s'\<lparr>score_changed := b\<rparr>)"
  by (cases s; cases s') (simp add: contest_frame_def)

lemma contest_frame_contest:
  assumes "contest_frame s s'"
  shows "contest_frame s (contest q p2 fav i s')"
proof -
  have win: "contest_frame s (win_byte q i x)" if "contest_frame s x" for x
    unfolding win_byte_def
    by (simp only: Let_def) (intro contest_frame_changed contest_frame_upd contest_frame_rated that
        same_entry_upd [unfolded Let_def])
  have drop: "contest_frame s (drop_ref t s')" for t
    unfolding drop_ref_def by (rule contest_frame_upd [OF assms same_entry_upd])
  show ?thesis
    using win [OF drop] win [OF assms] assms by (simp add: contest_def split: option.split)
qed

lemma contest_frame_fold:
  "contest_frame s s' \<Longrightarrow> contest_frame s (fold (contest q p2 fav) is s')"
  by (induction "is" arbitrary: s') (simp_all add: contest_frame_contest)

lemma contest_frameD:
  assumes "contest_frame s s'"
  shows "map_size s' = map_size s" "trace_bits s' = trace_bits s"
    "length (queue_buf s') = length (queue_buf s)"
    "q < length (queue_buf s) \<Longrightarrow> fuzz_p2 s' (entry s' q) = fuzz_p2 s (entry s q)"
    "q < length (queue_buf s) \<Longrightarrow> fav_factor s' (entry s' q) = fav_factor s (entry s q)"
proof -
  have s': "s' = s\<lparr>queue_buf := queue_buf s', top_rated := top_rated s', score_changed := score_changed s'\<rparr>"
    and same: "list_all2 same_entry (queue_buf s) (queue_buf s')"
    using assms unfolding contest_frame_def by blast+
  show "map_size s' = map_size s" "trace_bits s' = trace_bits s"
    by (subst s', simp)+
  have eqs: "schedule s' = schedule s" "n_fuzz s' = n_fuzz s" "fixed_seed s' = fixed_seed s"
    by (subst s', simp)+
  show "length (queue_buf s') = length (queue_buf s)" using same by (simp add: list_all2_lengthD)
  have "same_entry (entry s q) (entry s' q)" if "q < length (queue_buf s)" for q
    using same that by (simp add: list_all2_nthD entry_def)
  then have e: "entry s' q = (entry s q)\<lparr>tc_ref := tc_ref (entry s' q), trace_mini := trace_mini (entry s' q)\<rparr>"
    if "q < length (queue_buf s)" for q
    using that by (simp add: same_entry_def)
  show "fuzz_p2 s' (entry s' q) = fuzz_p2 s (entry s q)" if "q < length (queue_buf s)"
    by (subst e [OF that]) (simp add: fuzz_p2_def eqs)
  show "fav_factor s' (entry s' q) = fav_factor s (entry s q)" if "q < length (queue_buf s)"
    by (subst e [OF that]) (simp add: fav_factor_def eqs)
qed


lemma top_rated_contest:
  "top_rated (contest q p2 fav i s) =
    (if trace_bits s ! i = 0 then top_rated s
     else case top_rated s ! i of
       None \<Rightarrow> (top_rated s)[i := Some q]
     | Some t \<Rightarrow> if p2 > fuzz_p2 s (entry s t) \<or> fav > fav_factor s (entry s t) then top_rated s
                  else (top_rated s)[i := Some q])"
  by (simp add: contest_def win_byte_def drop_ref_def Let_def split: option.split)

lemma rated_ok_contest:
  assumes ok: "rated c s" and i: "i < map_size s" and q: "q < length (queue_buf s)"
    and covers: "c \<longrightarrow> mini_covers s q"
  shows "rated c (contest q p2 fav i s)"
proof (cases "trace_bits s ! i = 0")
  case False
  show ?thesis
  proof (cases "top_rated s ! i")
    case None
    then show ?thesis
      using rated_ok_win_byte [OF open_at_free [OF ok i None] i q False covers] False
      by (simp add: contest_def)
  next
    case (Some t)
    have len: "t < length (queue_buf s)" using ok i Some by (auto simp: rated_def)
    have "rated c (win_byte q i (drop_ref t s))"
    proof (rule rated_ok_win_byte [OF open_at_drop_ref [OF ok i Some]])
      show "c \<longrightarrow> mini_covers (drop_ref t s) q"
        using covers len unfolding mini_covers_def
        by (auto simp: drop_ref_def Let_def split: if_splits)
    qed (use i q False in \<open>simp_all add: drop_ref_def\<close>)
    then show ?thesis using False Some ok by (simp add: contest_def)
  qed
qed (use ok in \<open>simp add: contest_def\<close>)

lemma mini_covers_win_byte:
  assumes covers: "mini_covers s q" and q: "q < length (queue_buf s)" and dvd: "8 dvd map_size s"
  shows "mini_covers (win_byte q i s) q"
  using covers q mini_of_trace [OF dvd]
  unfolding mini_covers_def by (auto simp: win_byte_def Let_def split: if_splits)

lemma mini_covers_contest:
  assumes covers: "mini_covers s q" and q: "q < length (queue_buf s)" and ok: "rated c s"
    and i: "i < map_size s"
  shows "mini_covers (contest q p2 fav i s) q"
proof (cases "top_rated s ! i")
  case None
  then show ?thesis
    using covers mini_covers_win_byte [OF covers q] ok by (simp add: contest_def rated_def)
next
  case (Some t)
  then have t: "t < length (queue_buf s)" using ok i by (auto simp: rated_def)
  have "mini_covers (drop_ref t s) q"
    using covers t unfolding mini_covers_def by (auto simp: drop_ref_def Let_def split: if_splits)
  then have "mini_covers (win_byte q i (drop_ref t s)) q"
    by (rule mini_covers_win_byte) (use q ok in \<open>simp_all add: drop_ref_def rated_def\<close>)
  then show ?thesis using covers Some by (simp add: contest_def)
qed

lemma contest_fold:
  assumes ok: "rated c s" and q: "q < length (queue_buf s)" and covers: "c \<longrightarrow> mini_covers s q"
    and n: "n \<le> map_size s"
  shows "rated c (fold (contest q p2 fav) [0..<n] s) \<and> (c \<longrightarrow> mini_covers (fold (contest q p2 fav) [0..<n] s) q) \<and>
    contest_frame s (fold (contest q p2 fav) [0..<n] s) \<and>
    (\<forall>i < map_size s. top_rated (fold (contest q p2 fav) [0..<n] s) ! i =
       (if n \<le> i \<or> trace_bits s ! i = 0 then top_rated s ! i
        else case top_rated s ! i of
          None \<Rightarrow> Some q
        | Some t \<Rightarrow> if p2 > fuzz_p2 s (entry s t) \<or> fav > fav_factor s (entry s t) then Some t else Some q))"
  using n
proof (induction n)
  case 0
  then show ?case using ok covers by simp
next
  case (Suc n)
  let ?s = "fold (contest q p2 fav) [0..<n] s"
  have fr: "contest_frame s ?s" and ok': "rated c ?s" and cov: "c \<longrightarrow> mini_covers ?s q"
    and top: "\<forall>i < map_size s. top_rated ?s ! i =
       (if n \<le> i \<or> trace_bits s ! i = 0 then top_rated s ! i
        else case top_rated s ! i of
          None \<Rightarrow> Some q
        | Some t \<Rightarrow> if p2 > fuzz_p2 s (entry s t) \<or> fav > fav_factor s (entry s t) then Some t else Some q)"
    using Suc by simp_all
  note eqs = contest_frameD [OF fr]
  have n: "n < map_size ?s" and q': "q < length (queue_buf ?s)" using Suc.prems q eqs by simp_all
  have in_range: "t < length (queue_buf s)" if "top_rated s ! n = Some t" for t
    using ok Suc.prems that by (simp add: rated_def Suc_le_eq)
  have len: "length (top_rated ?s) = map_size s" using ok' eqs by (simp add: rated_def)
  have tn: "top_rated ?s ! n = top_rated s ! n" using top Suc.prems by simp
  have "top_rated (contest q p2 fav n ?s) ! i =
       (if Suc n \<le> i \<or> trace_bits s ! i = 0 then top_rated s ! i
        else case top_rated s ! i of
          None \<Rightarrow> Some q
        | Some t \<Rightarrow> if p2 > fuzz_p2 s (entry s t) \<or> fav > fav_factor s (entry s t) then Some t else Some q)"
    if i: "i < map_size s" for i
  proof (cases "i = n")
    case True
    then show ?thesis
      using i tn len in_range eqs by (cases "top_rated s ! n") (auto simp: top_rated_contest)
  next
    case False
    then have "top_rated (contest q p2 fav n ?s) ! i = top_rated ?s ! i"
      by (simp add: top_rated_contest split: option.split)
    moreover have "Suc n \<le> i \<longleftrightarrow> n \<le> i" using False by auto
    ultimately show ?thesis using top i by simp
  qed
  then show ?case
    using rated_ok_contest [OF ok' n q' cov] mini_covers_contest [OF _ q' ok' n] cov
      contest_frame_contest [OF fr]
    by simp
qed

lemma update_bitmap_score_rated_ok:
  assumes "rated c s" and "q < length (queue_buf s)" and "c \<longrightarrow> mini_covers s q"
  shows "rated c (update_bitmap_score q s)"
  unfolding update_bitmap_score_def using contest_fold [OF assms order_refl] by blast+

lemma update_bitmap_score_covers:
  assumes "rated c s" and "q < length (queue_buf s)" and "mini_covers s q" and c
  shows "mini_covers (update_bitmap_score q s) q"
  unfolding update_bitmap_score_def using contest_fold [OF assms(1,2) _ order_refl] assms(3,4) by blast

lemma update_bitmap_score_frame: "contest_frame s (update_bitmap_score q s)"
  unfolding update_bitmap_score_def by (rule contest_frame_fold [OF contest_frame_refl])

text \<open>Whoever holds a byte of the trace afterwards is at least as good as the challenger.\<close>

lemma update_bitmap_score_winner:
  assumes "rated False s" and "q < length (queue_buf s)" and i: "i < map_size s"
  shows "top_rated (update_bitmap_score q s) ! i =
    (if trace_bits s ! i = 0 then top_rated s ! i
     else case top_rated s ! i of
       None \<Rightarrow> Some q
     | Some t \<Rightarrow>
         if fuzz_p2 s (entry s q) > fuzz_p2 s (entry s t) \<or> fav_factor s (entry s q) > fav_factor s (entry s t)
         then Some t else Some q)"
proof -
  have "False \<longrightarrow> mini_covers s q" by simp
  note spec = contest_fold [where c = False, OF assms(1,2) this order_refl, of "fuzz_p2 s (entry s q)" "fav_factor s (entry s q)"]
  show ?thesis
    unfolding update_bitmap_score_def
    using spec [THEN conjunct2, THEN conjunct2, THEN conjunct2, rule_format, OF i] i by simp
qed


section \<open>The favored entries\<close>

lemma length_remove_bits [simp]: "length (remove_bits m v) = length v"
proof -
  have "length (fold (\<lambda>j v. if m ! j \<noteq> 0 then v[j := v ! j AND NOT (m ! j)] else v) js v) = length v" for js
    by (induction js arbitrary: v) simp_all
  then show ?thesis by (simp add: remove_bits_def)
qed

lemma nth_remove_bits:
  assumes "k < length v"
  shows "remove_bits m v ! k = v ! k AND NOT (m ! k)"
proof -
  have fold: "fold (\<lambda>j v. if m ! j \<noteq> 0 then v[j := v ! j AND NOT (m ! j)] else v) js v ! k =
      (if k \<in> set js then v ! k AND NOT (m ! k) else v ! k)" if "k < length v" "distinct js" for js
    using that by (induction js arbitrary: v) (auto simp: nth_list_update_if)
  show ?thesis unfolding remove_bits_def using fold [OF assms, of "rev [0..<length v]"] assms by simp
qed

lemma entry_favor_frame [simp]:
  "entry (s\<lparr>queued_favored := a\<rparr>) q = entry s q" "entry (s\<lparr>pending_favored := a\<rparr>) q = entry s q"
  "entry (s\<lparr>smallest_favored := b\<rparr>) q = entry s q" "entry (s\<lparr>reinit_table := c\<rparr>) q = entry s q"
  "entry (s\<lparr>queued_favored := d, pending_favored := e\<rparr>) q = entry s q"
  by (simp_all add: entry_def)

lemma favor_frame [simp]:
  "top_rated (favor t s) = top_rated s" "map_size (favor t s) = map_size s"
  "length (queue_buf (favor t s)) = length (queue_buf s)" "queued_items (favor t s) = queued_items s"
  "trace_bits (favor t s) = trace_bits s"
  "afl_disable_redundant (favor t s) = afl_disable_redundant s"
  by (simp_all add: favor_def Let_def)

lemma entry_favor:
  "t < length (queue_buf s) \<Longrightarrow>
    entry (favor t s) q = (if q = t then (entry s t)\<lparr>favored := True\<rparr> else entry s q)"
  by (auto simp: favor_def Let_def)

definition covered_by :: "'a queue_state_scheme \<Rightarrow> nat \<Rightarrow> bool" where
  "covered_by s i \<longleftrightarrow> (\<exists>q m. q < length (queue_buf s) \<and> favored (entry s q) \<and> trace_mini (entry s q) = Some m \<and>
     bit (m ! (i div 8)) (i mod 8))"

text \<open>The counters agree with the flags, and the remaining bits are those not covered yet.\<close>

definition favored_set :: "'a queue_state_scheme \<Rightarrow> nat set" where
  "favored_set s = {q. q < length (queue_buf s) \<and> favored (entry s q)}"

definition pending_set :: "'a queue_state_scheme \<Rightarrow> nat set" where
  "pending_set s = {q. q < length (queue_buf s) \<and> favored (entry s q) \<and> \<not> was_fuzzed (entry s q)}"

definition cull_inv :: "'a queue_state_scheme \<Rightarrow> nat \<Rightarrow> buf \<times> 'a queue_state_scheme \<Rightarrow> bool" where
  "cull_inv s0 n vs \<longleftrightarrow> (let (v, s) = vs in
     length v = map_size s0 div 8 \<and> map_size s = map_size s0 \<and> top_rated s = top_rated s0 \<and>
     length (queue_buf s) = length (queue_buf s0) \<and> queued_items s = queued_items s0 \<and>
     (\<forall>q < length (queue_buf s). entry s q = (entry s0 q)\<lparr>favored := favored (entry s q)\<rparr>) \<and>
     (\<forall>i < map_size s. \<not> bit (v ! (i div 8)) (i mod 8) \<longrightarrow> covered_by s i) \<and>
     (\<forall>i < n. top_rated s0 ! i \<noteq> None \<longrightarrow> covered_by s i) \<and>
     (\<forall>q \<in> favored_set s. \<exists>i < n. top_rated s0 ! i = Some q) \<and>
     queued_favored s = of_nat (card (favored_set s)) \<and>
     pending_favored s = of_nat (card (pending_set s)) \<and>
     (smallest_favored s < 0 \<longleftrightarrow> pending_set s = {}) \<and>
     (0 \<le> smallest_favored s \<longrightarrow> (\<exists>q \<in> pending_set s. smallest_favored s = uint (q_id (entry s q)))))"


lemma finite_favored [simp, intro]: "finite (favored_set s)" "finite (pending_set s)"
  by (simp_all add: favored_set_def pending_set_def)

lemma favor_id: "favored (entry s t) \<Longrightarrow> favor t s = s"
  by (simp add: favor_def)

lemma favored_set_favor:
  "t < length (queue_buf s) \<Longrightarrow> favored_set (favor t s) = insert t (favored_set s)"
  by (auto simp: favored_set_def entry_favor)

lemma pending_set_favor:
  "t < length (queue_buf s) \<Longrightarrow>
    pending_set (favor t s) = (if was_fuzzed (entry s t) then pending_set s else insert t (pending_set s))"
  by (auto simp: pending_set_def entry_favor split: if_splits)

lemma covered_by_favor:
  assumes "covered_by s i" and "t < length (queue_buf s)"
  shows "covered_by (favor t s) i"
proof -
  obtain q m where "q < length (queue_buf s)" "favored (entry s q)" "trace_mini (entry s q) = Some m"
    "bit (m ! (i div 8)) (i mod 8)"
    using assms(1) by (auto simp: covered_by_def)
  then show ?thesis
    using assms(2) unfolding covered_by_def
    by (intro exI [of _ q] exI [of _ m]) (auto simp: entry_favor)
qed

lemma favor_counts:
  assumes t: "t < length (queue_buf s)" and new: "\<not> favored (entry s t)"
  shows "queued_favored (favor t s) = queued_favored s + 1"
    and "pending_favored (favor t s) = (if was_fuzzed (entry s t) then pending_favored s else pending_favored s + 1)"
    and "smallest_favored (favor t s) = (if \<not> was_fuzzed (entry s t) \<and> smallest_favored s < 0
           then uint (q_id (entry s t)) else smallest_favored s)"
  using assms by (simp_all add: favor_def Let_def)

lemma refavored: "e = e0\<lparr>favored := f\<rparr> \<Longrightarrow> e\<lparr>favored := g\<rparr> = e0\<lparr>favored := g\<rparr>"
  by simp

lemma cull_inv_favor:
  assumes inv: "cull_inv s0 n (v, s)" and t: "t < length (queue_buf s)" and m: "trace_mini (entry s t) = Some m"
    and top: "top_rated s0 ! n = Some t" and bit: "bit (m ! (n div 8)) (n mod 8)"
    and dvd: "8 dvd map_size s0"
  shows "cull_inv s0 (Suc n) (remove_bits m v, favor t s)"
proof -
  have fr: "length v = map_size s0 div 8" "map_size s = map_size s0" "top_rated s = top_rated s0"
      "length (queue_buf s) = length (queue_buf s0)" "queued_items s = queued_items s0"
    and ent: "\<And>q. q < length (queue_buf s) \<Longrightarrow> entry s q = (entry s0 q)\<lparr>favored := favored (entry s q)\<rparr>"
    and left: "\<And>i. i < map_size s \<Longrightarrow> \<not> bit (v ! (i div 8)) (i mod 8) \<Longrightarrow> covered_by s i"
    and cov: "\<And>i. i < n \<Longrightarrow> top_rated s0 ! i \<noteq> None \<Longrightarrow> covered_by s i"
    and held: "\<forall>q \<in> favored_set s. \<exists>i < n. top_rated s0 ! i = Some q"
    and cnt: "queued_favored s = of_nat (card (favored_set s))" "pending_favored s = of_nat (card (pending_set s))"
    and small: "smallest_favored s < 0 \<longleftrightarrow> pending_set s = {}"
      "0 \<le> smallest_favored s \<longrightarrow> (\<exists>q \<in> pending_set s. smallest_favored s = uint (q_id (entry s q)))"
    using inv unfolding cull_inv_def Let_def prod.case by blast+
  have self: "covered_by (favor t s) i" if "bit (m ! (i div 8)) (i mod 8)" for i
    unfolding covered_by_def using t m that by (intro exI [of _ t] exI [of _ m]) (simp add: entry_favor)
  have left': "covered_by (favor t s) i"
    if i: "i < map_size s" "\<not> bit (remove_bits m v ! (i div 8)) (i mod 8)" for i
  proof -
    have "i div 8 < length v" using i(1) dvd fr by auto
    then have "\<not> bit (v ! (i div 8)) (i mod 8) \<or> bit (m ! (i div 8)) (i mod 8)"
      using i(2) by (auto simp: nth_remove_bits bit_simps)
    then show ?thesis using left [OF i(1)] self covered_by_favor [OF _ t] by blast
  qed
  have cov': "covered_by (favor t s) i" if "i < Suc n" "top_rated s0 ! i \<noteq> None" for i
    using that cov covered_by_favor [OF _ t] self bit by (cases "i = n") auto
  have ent': "entry (favor t s) q = (entry s0 q)\<lparr>favored := favored (entry (favor t s) q)\<rparr>"
    if "q < length (queue_buf (favor t s))" for q
    using ent [of q] refavored [OF ent [OF t]] that t by (cases "q = t") (simp_all add: entry_favor)
  have held': "\<forall>q \<in> favored_set (favor t s). \<exists>i < Suc n. top_rated s0 ! i = Some q"
    using held top by (auto simp: favored_set_favor [OF t] intro: less_SucI)
  have counts: "queued_favored (favor t s) = of_nat (card (favored_set (favor t s))) \<and>
      pending_favored (favor t s) = of_nat (card (pending_set (favor t s))) \<and>
      (smallest_favored (favor t s) < 0 \<longleftrightarrow> pending_set (favor t s) = {}) \<and>
      (0 \<le> smallest_favored (favor t s) \<longrightarrow>
        (\<exists>q \<in> pending_set (favor t s). smallest_favored (favor t s) = uint (q_id (entry (favor t s) q))))"
  proof (cases "favored (entry s t)")
    case True
    then show ?thesis using cnt small by (simp add: favor_id)
  next
    case False
    then have nin: "t \<notin> favored_set s" "t \<notin> pending_set s" by (simp_all add: favored_set_def pending_set_def)
    have ids: "q_id (entry (favor t s) q) = q_id (entry s q)" for q
      using t by (simp add: entry_favor)
    show ?thesis
      using small cnt nin
      by (auto simp: favor_counts [OF t False] favored_set_favor [OF t] pending_set_favor [OF t] ids)
  qed
  show ?thesis
    unfolding cull_inv_def Let_def prod.case
    using fr left' cov' ent' held' counts by simp
qed

lemma cull_inv_step:
  assumes inv: "cull_inv s0 n vs" and ok: "rated True s0" and n: "n < map_size s0"
  shows "cull_inv s0 (Suc n) (cull_step n vs)"
proof (cases vs)
  case (Pair v s)
  note inv' = inv [unfolded Pair cull_inv_def Let_def prod.case]
  have top: "top_rated s = top_rated s0" and lens: "length (queue_buf s) = length (queue_buf s0)"
    and ent: "\<And>q. q < length (queue_buf s) \<Longrightarrow> entry s q = (entry s0 q)\<lparr>favored := favored (entry s q)\<rparr>"
    using inv' by blast+
  show ?thesis
  proof (cases "top_rated s0 ! n")
    case None
    then show ?thesis using inv top
      by (auto simp: Pair cull_step_def cull_inv_def Let_def less_Suc_eq)
  next
    case (Some t)
    have t: "t < length (queue_buf s0)" using ok n Some by (auto simp: rated_def)
    have "held_ok True s0 (bytes_held s0 t) (entry s0 t)" using ok t by (simp add: rated_def)
    moreover have "n \<in> bytes_held s0 t" using n Some by (simp add: bytes_held_def)
    ultimately obtain m where m: "trace_mini (entry s0 t) = Some m" "bit (m ! (n div 8)) (n mod 8)"
      by (auto simp: held_ok_def split: option.splits)
    have tm: "trace_mini (entry s t) = Some m"
      using m(1) t lens by (subst ent) simp_all
    show ?thesis
    proof (cases "bit (v ! (n div 8)) (n mod 8)")
      case True
      have "cull_inv s0 (Suc n) (remove_bits m v, favor t s)"
        by (rule cull_inv_favor [OF inv [unfolded Pair] _ tm Some m(2)]) (use t lens ok in \<open>simp_all add: rated_def\<close>)
      then show ?thesis using Some True top tm by (simp add: Pair cull_step_def)
    next
      case False
      then have "covered_by s n" using inv' n by simp
      then show ?thesis using inv False Some top
        by (auto simp: Pair cull_step_def cull_inv_def Let_def less_Suc_eq)
    qed
  qed
qed


lemma cull_inv_fold:
  assumes "cull_inv s0 0 vs" and "rated True s0" and "n \<le> map_size s0"
  shows "cull_inv s0 n (fold cull_step [0..<n] vs)"
  using assms(3) by (induction n) (use assms(1,2) in \<open>auto intro: cull_inv_step\<close>)

lemma clear_favored:
  assumes "n \<le> length (queue_buf s)"
  shows "fold (\<lambda>i. upd_entry i (\<lambda>e. e\<lparr>favored := False\<rparr>)) [0..<n] s =
    s\<lparr>queue_buf := map (\<lambda>e. e\<lparr>favored := False\<rparr>) (take n (queue_buf s)) @ drop n (queue_buf s)\<rparr>"
  using assms
proof (induction n)
  case (Suc n)
  have "(map (\<lambda>e. e\<lparr>favored := False\<rparr>) (take n (queue_buf s)) @ drop n (queue_buf s))[n :=
      (queue_buf s ! n)\<lparr>favored := False\<rparr>] =
    map (\<lambda>e. e\<lparr>favored := False\<rparr>) (take (Suc n) (queue_buf s)) @ drop (Suc n) (queue_buf s)"
    using Suc.prems by (simp add: list_update_append take_Suc_conv_app_nth Cons_nth_drop_Suc [symmetric])
  then show ?case using Suc by (simp add: upd_entry_def nth_append)
qed simp

lemma mark_redundancy_frame [simp]:
  "top_rated (mark_redundancy i s) = top_rated s" "map_size (mark_redundancy i s) = map_size s"
  "length (queue_buf (mark_redundancy i s)) = length (queue_buf s)"
  "queued_favored (mark_redundancy i s) = queued_favored s"
  "pending_favored (mark_redundancy i s) = pending_favored s"
  "smallest_favored (mark_redundancy i s) = smallest_favored s"
  by (simp_all add: mark_redundancy_def mark_as_redundant_def Let_def)

lemma entry_mark_redundancy [simp]:
  assumes "i < length (queue_buf s)"
  shows "favored (entry (mark_redundancy i s) q) = favored (entry s q)"
    and "was_fuzzed (entry (mark_redundancy i s) q) = was_fuzzed (entry s q)"
    and "trace_mini (entry (mark_redundancy i s) q) = trace_mini (entry s q)"
    and "tc_ref (entry (mark_redundancy i s) q) = tc_ref (entry s q)"
    and "q_id (entry (mark_redundancy i s) q) = q_id (entry s q)"
  using assms by (simp_all add: mark_redundancy_def mark_as_redundant_def Let_def)

lemma entry_mark_redundancies:
  assumes "\<forall>i \<in> set is. i < length (queue_buf s)"
  shows "favored (entry (fold mark_redundancy is s) q) = favored (entry s q)"
    and "was_fuzzed (entry (fold mark_redundancy is s) q) = was_fuzzed (entry s q)"
    and "trace_mini (entry (fold mark_redundancy is s) q) = trace_mini (entry s q)"
    and "tc_ref (entry (fold mark_redundancy is s) q) = tc_ref (entry s q)"
    and "q_id (entry (fold mark_redundancy is s) q) = q_id (entry s q)"
    and "length (queue_buf (fold mark_redundancy is s)) = length (queue_buf s)"
    and "queued_favored (fold mark_redundancy is s) = queued_favored s"
    and "pending_favored (fold mark_redundancy is s) = pending_favored s"
    and "smallest_favored (fold mark_redundancy is s) = smallest_favored s"
    and "top_rated (fold mark_redundancy is s) = top_rated s"
    and "map_size (fold mark_redundancy is s) = map_size s"
  using assms by (induction "is" arbitrary: s) simp_all

lemma bit_255: "k < 8 \<Longrightarrow> bit (255 :: u8) k"
proof -
  have "(255 :: u8) = - 1" by simp
  then show "k < 8 \<Longrightarrow> bit (255 :: u8) k" by (simp only: bit_minus_1_iff) simp
qed

text \<open>The favored entries after culling, and the bytes they cover.\<close>

definition culled :: "'a queue_state_scheme \<Rightarrow> bool" where
  "culled s \<longleftrightarrow>
     (\<forall>i < map_size s. top_rated s ! i \<noteq> None \<longrightarrow> covered_by s i) \<and>
     (\<forall>q \<in> favored_set s. \<exists>i < map_size s. top_rated s ! i = Some q) \<and>
     queued_favored s = of_nat (card (favored_set s)) \<and>
     pending_favored s = of_nat (card (pending_set s)) \<and>
     (smallest_favored s < 0 \<longleftrightarrow> pending_set s = {}) \<and>
     (0 \<le> smallest_favored s \<longrightarrow> (\<exists>q \<in> pending_set s. smallest_favored s = uint (q_id (entry s q))))"

lemma culled_cull_queue:
  assumes ok: "rated True s" and n: "unat (queued_items s) = length (queue_buf s)"
    and run: "score_changed s" "\<not> non_instrumented_mode s"
  shows "culled (cull_queue s)"
proof -
  let ?s0 = "s\<lparr>score_changed := False, queued_favored := 0, pending_favored := 0,
    queue_buf := map (\<lambda>e. e\<lparr>favored := False\<rparr>) (queue_buf s), smallest_favored := -1\<rparr>"
  let ?v0 = "replicate (map_size s div 8) (255 :: u8)"
  let ?n = "map_size s"
  have dvd: "8 dvd ?n" using ok by (simp add: rated_def)
  have init: "fold (\<lambda>i. upd_entry i (\<lambda>e. e\<lparr>favored := False\<rparr>)) [0..<unat (queued_items s)]
      (s\<lparr>score_changed := False, queued_favored := 0, pending_favored := 0\<rparr>) =
      s\<lparr>score_changed := False, queued_favored := 0, pending_favored := 0,
        queue_buf := map (\<lambda>e. e\<lparr>favored := False\<rparr>) (queue_buf s)\<rparr>"
    by (subst clear_favored) (simp_all add: n)
  have ent0: "entry ?s0 q = (entry s q)\<lparr>favored := False\<rparr>" if "q < length (queue_buf s)" for q
    using that by (simp add: entry_def)
  have nofav: "favored_set ?s0 = {}" "pending_set ?s0 = {}"
    by (auto simp: favored_set_def pending_set_def entry_def)
  have H: "bytes_held ?s0 q = bytes_held s q" for q by (simp add: bytes_held_def)
  have "held_ok True ?s0 (bytes_held s q) (entry ?s0 q)" if "q < length (queue_buf s)" for q
  proof -
    have "held_ok True s (bytes_held s q) (entry s q)" using ok that by (simp add: rated_def)
    then show ?thesis unfolding ent0 [OF that] by (simp add: held_ok_def split: option.splits)
  qed
  then have ok0: "rated True ?s0" using ok by (simp add: rated_def H)
  have "bit (?v0 ! (i div 8)) (i mod 8)" if "i < ?n" for i
  proof -
    have "i div 8 < ?n div 8" using that dvd by auto
    then show ?thesis using bit_255 [of "i mod 8"] by simp
  qed
  then have "cull_inv ?s0 0 (?v0, ?s0)"
    using nofav unfolding cull_inv_def by (simp add: entry_def)
  from cull_inv_fold [OF this ok0, of ?n]
  obtain v s1 where step: "fold cull_step [0..<?n] (?v0, ?s0) = (v, s1)" and inv: "cull_inv ?s0 ?n (v, s1)"
    by (cases "fold cull_step [0..<?n] (?v0, ?s0)") simp
  note inv' = inv [unfolded cull_inv_def Let_def prod.case]
  have len: "length (queue_buf s1) = length (queue_buf s)" and sz: "map_size s1 = ?n"
    and top: "top_rated s1 = top_rated s" and items: "queued_items s1 = queued_items s" using inv' by simp_all
  have range: "\<forall>i \<in> set [0..<unat (queued_items s)]. i < length (queue_buf s1)" using n len by simp
  let ?s2 = "fold mark_redundancy [0..<unat (queued_items s)] s1"
  have res: "cull_queue s = ?s2\<lparr>reinit_table := True\<rparr>"
    unfolding cull_queue_def using run
    by (simp add: Let_def init items step [simplified])
  note eqs = entry_mark_redundancies [OF range]
  have sets: "favored_set (?s2\<lparr>reinit_table := True\<rparr>) = favored_set s1"
    "pending_set (?s2\<lparr>reinit_table := True\<rparr>) = pending_set s1"
    by (simp_all add: favored_set_def pending_set_def eqs)
  have cov: "covered_by (?s2\<lparr>reinit_table := True\<rparr>) i = covered_by s1 i" for i
    by (simp add: covered_by_def eqs)
  show ?thesis
    unfolding res culled_def sets cov using inv' by (simp add: eqs)
qed

end
