(* ===== verification/Cache.thy ===== *)
theory Cache
  imports Queue
begin

text \<open>
  The cache of test cases in memory (\<^verbatim>\<open>queue_testcase_get\<close>,
  \<^verbatim>\<open>queue_testcase_store_mem\<close> and \<^verbatim>\<open>queue_testcase_retake_mem\<close> in
  \<^verbatim>\<open>src/afl-fuzz-queue.c\<close>). The array \<^verbatim>\<open>q_testcase_cache\<close> is a list of
  entries or null; allocation and reading the entry's file succeed.
\<close>

section \<open>Operations\<close>

text \<open>\<^verbatim>\<open>while (cache[tid] != NULL) ++tid;\<close>\<close>

definition first_free :: "nat option list \<Rightarrow> nat \<Rightarrow> nat" where
  "first_free cache tid = tid + length (takeWhile (\<lambda>e. e \<noteq> None) (drop tid cache))"

text \<open>Register the entry in slot \<open>tid\<close>.\<close>

definition register :: "nat \<Rightarrow> buf \<Rightarrow> nat \<Rightarrow> 'a queue_state_scheme \<Rightarrow> 'a queue_state_scheme" where
  "register q mem tid s =
     (let s = upd_entry q (\<lambda>e. e\<lparr>testcase_buf := Some mem\<rparr>) s;
          s = s\<lparr>q_testcase_cache := (q_testcase_cache s)[tid := Some q],
                q_testcase_cache_size := q_testcase_cache_size s + ucast (q_len (entry s q)),
                q_testcase_cache_count := q_testcase_cache_count s + 1\<rparr>
      in if of_nat tid \<ge> q_testcase_max_cache_count s
         then s\<lparr>q_testcase_max_cache_count := of_nat tid + 1\<rparr>
         else if of_nat tid = q_testcase_smallest_free s
         then s\<lparr>q_testcase_smallest_free := of_nat tid + 1\<rparr>
         else s)"

definition cache_full :: "nat \<Rightarrow> 'a queue_state_scheme \<Rightarrow> bool" where
  "cache_full q s \<longleftrightarrow>
     q_testcase_cache_size s + ucast (q_len (entry s q)) \<ge> q_testcase_max_cache_size s \<or>
     q_testcase_cache_count s \<ge> q_testcase_max_cache_entries s - 1"

definition queue_testcase_store_mem :: "nat \<Rightarrow> buf \<Rightarrow> 'a queue_state_scheme \<Rightarrow> 'a queue_state_scheme" where
  "queue_testcase_store_mem q mem s =
     (if cache_full q s then s
      else let tid = unat (if q_testcase_max_cache_count s \<ge> q_testcase_max_cache_entries s
                           then q_testcase_smallest_free s else q_testcase_max_cache_count s);
               tid = first_free (q_testcase_cache s) tid
           in register q (take (unat (q_len (entry s q))) mem) tid s)"

text \<open>\<^verbatim>\<open>do { tid = rand_below(...) } while (free or the current entry)\<close>\<close>

partial_function (option) pick_victim ::
    "world \<Rightarrow> 'a queue_state_scheme \<Rightarrow> (u32 \<times> 'a queue_state_scheme) option" where
  "pick_victim w s =
     Option.bind (rand_below w (q_testcase_max_cache_count s) s) (\<lambda>(tid, s).
       if q_testcase_cache s ! unat tid = None \<or> q_testcase_cache s ! unat tid = Some (queue_cur s)
       then pick_victim w s else Some (tid, s))"

definition learn_entries :: "nat \<Rightarrow> 'a queue_state_scheme \<Rightarrow> 'a queue_state_scheme" where
  "learn_entries q s =
     (if q_testcase_cache_size s + ucast (q_len (entry s q)) \<ge> q_testcase_max_cache_size s \<and>
         q_testcase_cache_count s < q_testcase_max_cache_entries s \<and>
         q_testcase_max_cache_count s < q_testcase_max_cache_entries s \<and> \<not> cache_do_once s
      then let n = (if q_testcase_max_cache_count s > q_testcase_cache_count s
                    then q_testcase_max_cache_count s + 1 else q_testcase_cache_count s + 1)
           in s\<lparr>q_testcase_max_cache_entries := n, cache_do_once := True,
                q_testcase_cache := take (unat (n + 1)) (q_testcase_cache s)\<rparr>
      else s)"

definition evict :: "u32 \<Rightarrow> 'a queue_state_scheme \<Rightarrow> 'a queue_state_scheme" where
  "evict tid s =
     (let old = the (q_testcase_cache s ! unat tid);
          s = upd_entry old (\<lambda>e. e\<lparr>testcase_buf := None\<rparr>) s
      in s\<lparr>q_testcase_cache_size := q_testcase_cache_size s - ucast (q_len (entry s old)),
           q_testcase_cache := (q_testcase_cache s)[unat tid := None],
           q_testcase_cache_count := q_testcase_cache_count s - 1,
           q_testcase_evictions := q_testcase_evictions s + 1,
           q_testcase_smallest_free := min tid (q_testcase_smallest_free s)\<rparr>)"

text \<open>Make room; the result is the last slot that was emptied, or \<open>tid\<close>.\<close>

partial_function (option) make_room ::
    "world \<Rightarrow> nat \<Rightarrow> u32 \<Rightarrow> 'a queue_state_scheme \<Rightarrow> (u32 \<times> 'a queue_state_scheme) option" where
  "make_room w q tid s =
     (if cache_full q s
      then Option.bind (pick_victim w (learn_entries q s)) (\<lambda>(tid, s). make_room w q tid (evict tid s))
      else Some (tid, s))"

definition load_testcase :: "world \<Rightarrow> nat \<Rightarrow> 'a queue_state_scheme \<Rightarrow> 'a queue_state_scheme option" where
  "load_testcase w q s =
     Option.bind (make_room w q (q_testcase_max_cache_count s) s) (\<lambda>(tid, s).
       let tid = unat (if tid \<ge> q_testcase_max_cache_entries s then q_testcase_smallest_free s else tid);
           tid = first_free (q_testcase_cache s) tid
       in Some (register q (take (unat (q_len (entry s q))) (q_file (entry s q))) tid s))"

definition queue_testcase_get :: "world \<Rightarrow> nat \<Rightarrow> 'a queue_state_scheme \<Rightarrow> (buf \<times> 'a queue_state_scheme) option" where
  "queue_testcase_get w q s =
     (if q_testcase_max_cache_size s = 0
      then Some (take (unat (q_len (entry s q))) (q_file (entry s q)), s)
      else case testcase_buf (entry s q) of
        Some b \<Rightarrow> Some (b, s)
      | None \<Rightarrow> map_option (\<lambda>s. (the (testcase_buf (entry s q)), s)) (load_testcase w q s))"

text \<open>
  After trimming. The caller's buffer may be the cached one itself (\<open>is_same\<close>), which has
  then been edited already.
\<close>

definition queue_testcase_retake_mem ::
    "nat \<Rightarrow> buf \<Rightarrow> nat \<Rightarrow> nat \<Rightarrow> 'a queue_state_scheme \<Rightarrow> 'a queue_state_scheme" where
  "queue_testcase_retake_mem q mem len old_len s =
     (case testcase_buf (entry s q) of
        None \<Rightarrow> s
      | Some _ \<Rightarrow>
          let s = (if len \<noteq> old_len
                   then s\<lparr>q_testcase_cache_size := q_testcase_cache_size s + of_nat len - of_nat old_len\<rparr>
                   else s)
          in upd_entry q (\<lambda>e. e\<lparr>testcase_buf := Some (take len mem)\<rparr>) s)"

definition queue_testcase_retake :: "nat \<Rightarrow> nat \<Rightarrow> 'a queue_state_scheme \<Rightarrow> 'a queue_state_scheme" where
  "queue_testcase_retake q old_len s =
     (case testcase_buf (entry s q) of
        None \<Rightarrow> s
      | Some _ \<Rightarrow>
          let len = q_len (entry s q);
              s = (if unat len \<noteq> old_len
                   then s\<lparr>q_testcase_cache_size := q_testcase_cache_size s + ucast len - of_nat old_len\<rparr>
                   else s)
          in upd_entry q (\<lambda>e. e\<lparr>testcase_buf := Some (take (unat len) (q_file e))\<rparr>) s)"

section \<open>What the cache leaves alone\<close>

text \<open>
  Every entry's file, and its copy in memory if there is one, holds at least the bytes the
  entry's length promises; so do the two maps of the entry's bytes, and there is a map of the
  bytes with effect when some were counted. Scores are within the limit. Without a cache there are no copies in memory.
\<close>

definition HAVOC_MAX_MULT :: u32 where "HAVOC_MAX_MULT = 64"

definition entry_ok :: "queue_entry \<Rightarrow> bool" where
  "entry_ok e \<longleftrightarrow> unat (q_len e) \<le> length (q_file e) \<and>
     (\<forall>b. testcase_buf e = Some b \<longrightarrow> unat (q_len e) \<le> length b) \<and>
     (\<forall>m. skip_eff_map e = Some m \<longrightarrow> unat (q_len e) \<le> length m) \<and>
     (\<forall>m. done_inf_map e = Some m \<longrightarrow> unat (q_len e) \<le> length m) \<and>
     (quick_eff_bytes e \<noteq> 0 \<longrightarrow> skip_eff_map e \<noteq> None) \<and> perf_score e \<le> HAVOC_MAX_MULT * 100"

definition entries_ok :: "'a queue_state_scheme \<Rightarrow> bool" where
  "entries_ok s \<longleftrightarrow> (\<forall>e\<in>set (queue_buf s). entry_ok e \<and> (q_testcase_max_cache_size s = 0 \<longrightarrow> testcase_buf e = None))"

definition recached :: "queue_entry \<Rightarrow> queue_entry \<Rightarrow> bool" where
  "recached e e' \<longleftrightarrow> e' = e\<lparr>testcase_buf := testcase_buf e'\<rparr>"

text \<open>
  The cache and the generator it draws its victims from change, nothing else; of the queue
  entries only the copies in memory.
\<close>

definition cache_frame :: "'a queue_state_scheme \<Rightarrow> 'a queue_state_scheme \<Rightarrow> bool" where
  "cache_frame s s' \<longleftrightarrow>
     s' = s\<lparr>rand_seed := rand_seed s', rand_cnt := rand_cnt s', urandom_reads := urandom_reads s',
       queue_buf := queue_buf s', q_testcase_cache_size := q_testcase_cache_size s',
       q_testcase_max_cache_entries := q_testcase_max_cache_entries s',
       q_testcase_max_cache_count := q_testcase_max_cache_count s',
       q_testcase_cache_count := q_testcase_cache_count s',
       q_testcase_smallest_free := q_testcase_smallest_free s',
       q_testcase_evictions := q_testcase_evictions s', q_testcase_cache := q_testcase_cache s',
       cache_do_once := cache_do_once s'\<rparr> \<and>
     list_all2 recached (queue_buf s) (queue_buf s') \<and> (entries_ok s \<longrightarrow> entries_ok s')"

lemma recached_refl [simp, intro]: "recached e e"
  by (simp add: recached_def)

lemma recached_trans: "recached a b \<Longrightarrow> recached b c \<Longrightarrow> recached a c"
  by (cases a; cases b; cases c) (simp add: recached_def)

lemma cache_frame_refl [simp, intro]: "cache_frame s s"
  by (simp add: cache_frame_def list_all2_refl)

lemma cache_frame_trans [trans]:
  assumes "cache_frame a b" and "cache_frame b c"
  shows "cache_frame a c"
proof -
  have "list_all2 recached (queue_buf a) (queue_buf c)"
    using list_all2_trans [where as = "queue_buf a" and bs = "queue_buf b" and cs = "queue_buf c", OF recached_trans]
      assms by (auto simp: cache_frame_def)
  then show ?thesis using assms
    by (cases a; cases b; cases c) (simp add: cache_frame_def)
qed

lemma cache_frame_rng: "rng_only s s' \<Longrightarrow> cache_frame s s'"
  by (cases s) (auto simp: rng_only_def cache_frame_def list_all2_refl entries_ok_def)

lemma cache_frame_fields:
  "cache_frame s (s'\<lparr>q_testcase_cache_size := x1\<rparr>) = cache_frame s s'"
  "cache_frame s (s'\<lparr>q_testcase_max_cache_entries := x2\<rparr>) = cache_frame s s'"
  "cache_frame s (s'\<lparr>q_testcase_max_cache_count := x3\<rparr>) = cache_frame s s'"
  "cache_frame s (s'\<lparr>q_testcase_cache_count := x4\<rparr>) = cache_frame s s'"
  "cache_frame s (s'\<lparr>q_testcase_smallest_free := x5\<rparr>) = cache_frame s s'"
  "cache_frame s (s'\<lparr>q_testcase_evictions := x6\<rparr>) = cache_frame s s'"
  "cache_frame s (s'\<lparr>q_testcase_cache := x7\<rparr>) = cache_frame s s'"
  "cache_frame s (s'\<lparr>cache_do_once := x8\<rparr>) = cache_frame s s'"
  by (cases s; cases s'; simp add: cache_frame_def entries_ok_def)+

lemmas cache_frame_simps [simp] = cache_frame_fields

lemma list_all2_update_same:
  assumes "list_all2 P xs ys" and "\<And>x y. P x y \<Longrightarrow> P x (f y)"
  shows "list_all2 P xs (ys[q := f (ys ! q)])"
  using assms by (auto simp: list_all2_conv_all_nth nth_list_update_if)

lemma cache_frame_testcase:
  assumes "cache_frame s s'" and "\<And>b. t = Some b \<Longrightarrow> entries_ok s' \<Longrightarrow> q < length (queue_buf s') \<Longrightarrow>
    unat (q_len (entry s' q)) \<le> length b \<and> q_testcase_max_cache_size s' \<noteq> 0"
  shows "cache_frame s (upd_entry q (\<lambda>e. e\<lparr>testcase_buf := t\<rparr>) s')"
proof -
  let ?f = "\<lambda>e. e\<lparr>testcase_buf := t\<rparr>"
  have "list_all2 recached (queue_buf s) ((queue_buf s')[q := ?f (queue_buf s' ! q)])"
  proof (rule list_all2_update_same)
    show "list_all2 recached (queue_buf s) (queue_buf s')" using assms(1) by (simp add: cache_frame_def)
    show "recached x (?f y)" if "recached x y" for x y using that by (cases x; cases y) (simp add: recached_def)
  qed
  moreover have "entry_ok ((queue_buf s')[q := ?f (queue_buf s' ! q)] ! i) \<and>
      (q_testcase_max_cache_size s' = 0 \<longrightarrow> testcase_buf ((queue_buf s')[q := ?f (queue_buf s' ! q)] ! i) = None)"
    if "entries_ok s'" "i < length (queue_buf s')" for i
  proof -
    have "entry_ok (queue_buf s' ! i) \<and> (q_testcase_max_cache_size s' = 0 \<longrightarrow> testcase_buf (queue_buf s' ! i) = None)"
      using that by (simp add: entries_ok_def)
    then show ?thesis using that assms(2) by (cases t) (auto simp: nth_list_update_if entry_ok_def entry_def)
  qed
  then have "entries_ok s' \<Longrightarrow> entries_ok (upd_entry q ?f s')"
    by (auto simp: entries_ok_def upd_entry_def in_set_conv_nth)
  ultimately show ?thesis using assms(1)
    by (cases s; cases s') (simp add: cache_frame_def upd_entry_def)
qed

lemma cache_frameD:
  assumes "cache_frame s s'"
  shows "length (queue_buf s') = length (queue_buf s)" "entries_ok s \<Longrightarrow> entries_ok s'"
    "q < length (queue_buf s) \<Longrightarrow> q_len (entry s' q) = q_len (entry s q)"
    "q < length (queue_buf s) \<Longrightarrow> q_file (entry s' q) = q_file (entry s q)"
proof -
  have same: "list_all2 recached (queue_buf s) (queue_buf s')"
    using assms by (simp add: cache_frame_def)
  show "length (queue_buf s') = length (queue_buf s)" using same by (simp add: list_all2_lengthD)
  show "entries_ok s \<Longrightarrow> entries_ok s'" using assms by (simp add: cache_frame_def)
  have e: "entry s' q = (entry s q)\<lparr>testcase_buf := testcase_buf (entry s' q)\<rparr>" if "q < length (queue_buf s)" for q
    using list_all2_nthD [OF same that] by (simp add: recached_def entry_def)
  show "q < length (queue_buf s) \<Longrightarrow> q_len (entry s' q) = q_len (entry s q)"
    "q < length (queue_buf s) \<Longrightarrow> q_file (entry s' q) = q_file (entry s q)"
    by (subst e; simp)+
qed

lemma cache_frame_size: "cache_frame s s' \<Longrightarrow> q_testcase_max_cache_size s' = q_testcase_max_cache_size s"
  by (cases s; cases s') (simp add: cache_frame_def)

lemma pick_victim_frame:
  assumes "pick_victim w s = Some r"
  shows "cache_frame s (snd r)"
proof (rule pick_victim.raw_induct [where P = "\<lambda>w s r. cache_frame s (snd r)", OF _ assms])
  fix f and w and s :: "'a queue_state_scheme" and r
  assume IH: "\<And>w s r. f w s = Some r \<Longrightarrow> cache_frame s (snd r)"
    and step: "Option.bind (rand_below w (q_testcase_max_cache_count s) s) (\<lambda>(tid, s).
       if q_testcase_cache s ! unat tid = None \<or> q_testcase_cache s ! unat tid = Some (queue_cur s)
       then f w s else Some (tid, s)) = Some r"
  then obtain tid s1 where draw: "rand_below w (q_testcase_max_cache_count s) s = Some (tid, s1)"
    by (auto simp: Option.bind_eq_Some_conv)
  have fr: "cache_frame s s1" using rand_below_result [OF draw] by (simp add: cache_frame_rng)
  have "f w s1 = Some r \<or> r = (tid, s1)" using step by (auto simp: draw split: if_splits)
  then show "cache_frame s (snd r)" using IH [of w s1 r] cache_frame_trans [OF fr, of "snd r"] fr by auto
qed

lemma learn_entries_frame: "cache_frame s (learn_entries q s)"
  by (simp add: learn_entries_def Let_def)

lemma evict_frame: "cache_frame s (evict tid s)"
proof -
  have "cache_frame s (upd_entry old (\<lambda>e. e\<lparr>testcase_buf := None\<rparr>) s)" for old
    by (rule cache_frame_testcase) auto
  then show ?thesis by (simp add: evict_def Let_def)
qed

lemma make_room_frame:
  assumes "make_room w q tid s = Some r"
  shows "cache_frame s (snd r)"
proof (rule make_room.raw_induct [where P = "\<lambda>w q tid s r. cache_frame s (snd r)", OF _ assms])
  fix f and w and q tid and s :: "'a queue_state_scheme" and r
  assume IH: "\<And>w q tid s r. f w q tid s = Some r \<Longrightarrow> cache_frame s (snd r)"
    and step: "(if cache_full q s
      then Option.bind (pick_victim w (learn_entries q s)) (\<lambda>(tid, s). f w q tid (evict tid s))
      else Some (tid, s)) = Some r"
  show "cache_frame s (snd r)"
  proof (cases "cache_full q s")
    case True
    with step obtain v s1 where v: "pick_victim w (learn_entries q s) = Some (v, s1)"
      and r: "f w q v (evict v s1) = Some r" by (auto simp: Option.bind_eq_Some_conv)
    have "cache_frame s (learn_entries q s)" by (rule learn_entries_frame)
    also have "cache_frame (learn_entries q s) s1" using pick_victim_frame [OF v] by simp
    also have "cache_frame s1 (evict v s1)" by (rule evict_frame)
    also have "cache_frame (evict v s1) (snd r)" by (rule IH [OF r])
    finally show ?thesis .
  next
    case False
    then show ?thesis using step by auto
  qed
qed

lemma register_frame:
  assumes "q < length (queue_buf s) \<Longrightarrow> entries_ok s \<Longrightarrow> unat (q_len (entry s q)) \<le> length mem"
    and "q_testcase_max_cache_size s \<noteq> 0"
  shows "cache_frame s (register q mem tid s)"
proof -
  have "cache_frame s (upd_entry q (\<lambda>e. e\<lparr>testcase_buf := Some mem\<rparr>) s)"
    by (rule cache_frame_testcase) (use assms in auto)
  then show ?thesis by (simp add: register_def Let_def)
qed

lemma store_mem_frame:
  assumes "q < length (queue_buf s) \<Longrightarrow> unat (q_len (entry s q)) \<le> length mem"
  shows "cache_frame s (queue_testcase_store_mem q mem s)"
proof -
  have "q_testcase_max_cache_size s \<noteq> 0" if "\<not> cache_full q s" using that by (auto simp: cache_full_def)
  then show ?thesis
    using register_frame [of q s "take (unat (q_len (entry s q))) mem"] assms
    by (simp add: queue_testcase_store_mem_def Let_def)
qed

lemma entry_register: "q < length (queue_buf s) \<Longrightarrow> testcase_buf (entry (register q mem tid s) q) = Some mem"
  by (simp add: register_def Let_def entry_def upd_entry_def)

text \<open>What is read from the cache holds the bytes the entry promises.\<close>

lemma queue_testcase_get_result:
  assumes get: "queue_testcase_get w q s = Some (b, s')" and q: "q < length (queue_buf s)"
  shows "cache_frame s s' \<and> (entries_ok s \<longrightarrow> unat (q_len (entry s q)) \<le> length b)"
proof (cases "q_testcase_max_cache_size s = 0")
  case True
  have "entry_ok (entry s q)" if "entries_ok s" using that q by (simp add: entries_ok_def entry_def)
  then show ?thesis using get True by (auto simp: queue_testcase_get_def entry_ok_def)
next
  case False
  show ?thesis
  proof (cases "testcase_buf (entry s q)")
    case (Some c)
    have "entry_ok (entry s q)" if "entries_ok s" using that q by (simp add: entries_ok_def entry_def)
    then show ?thesis using get False Some by (auto simp: queue_testcase_get_def entry_ok_def)
  next
    case None
    with get False have load: "load_testcase w q s = Some s'" and b: "b = the (testcase_buf (entry s' q))"
      by (auto simp: queue_testcase_get_def)
    then obtain tid s1 t where room: "make_room w q (q_testcase_max_cache_count s) s = Some (tid, s1)"
      and s': "s' = register q (take (unat (q_len (entry s1 q))) (q_file (entry s1 q))) t s1"
      by (auto simp: load_testcase_def Option.bind_eq_Some_conv Let_def)
    have fr: "cache_frame s s1" using make_room_frame [OF room] by simp
    have q1: "q < length (queue_buf s1)" using cache_frameD(1) [OF fr] q by simp
    have ok: "unat (q_len (entry s1 q)) \<le> length (q_file (entry s1 q))" if "entries_ok s1"
      using that q1 by (simp add: entries_ok_def entry_def entry_ok_def)
    have "q_testcase_max_cache_size s1 \<noteq> 0" using False cache_frame_size [OF fr] by simp
    then have "cache_frame s1 s'" unfolding s' by (intro register_frame) (use ok in simp_all)
    moreover have "b = take (unat (q_len (entry s1 q))) (q_file (entry s1 q))"
      unfolding b s' by (simp add: entry_register q1)
    moreover have "q_len (entry s1 q) = q_len (entry s q)" using cache_frameD(3) [OF fr q] .
    ultimately show ?thesis using fr ok cache_frameD(2) [OF fr] cache_frame_trans by auto
  qed
qed

section \<open>Sound queues\<close>

text \<open>The inputs the fuzzer handles, and what it relies on of the queue's entries.\<close>

definition MAX_FILE :: nat where "MAX_FILE = 1024 * 1024"

definition mutable :: "buf \<Rightarrow> bool" where
  "mutable b \<longleftrightarrow> 0 < length b \<and> length b \<le> MAX_FILE"

definition sizes_ok :: "'a queue_state_scheme \<Rightarrow> bool" where
  "sizes_ok s \<longleftrightarrow> (\<forall>e\<in>set (queue_buf s). 0 < q_len e \<and> unat (q_len e) \<le> MAX_FILE)"

definition queue_inv :: "'a queue_state_scheme \<Rightarrow> bool" where
  "queue_inv s \<longleftrightarrow> entries_ok s \<and> sizes_ok s \<and> unat (queued_items s) \<le> length (queue_buf s) \<and> queue_buf s \<noteq> []"

text \<open>
  The parts of the queue the soundness of the entries depends on. Of those, running the target
  leaves the first alone; the copy in memory may come and go.
\<close>

type_synonym kept = "u32 \<times> u32 \<times> buf option \<times> buf option \<times> u32"

definition q_kept :: "queue_entry \<Rightarrow> kept" where
  "q_kept e = (q_len e, perf_score e, skip_eff_map e, done_inf_map e, quick_eff_bytes e)"

type_synonym q_shape = "kept \<times> buf \<times> buf option"

definition q_shape :: "queue_entry \<Rightarrow> q_shape" where
  "q_shape e = (q_kept e, q_file e, testcase_buf e)"

definition shape :: "'a queue_state_scheme \<Rightarrow> nat \<times> u32 \<times> u32 \<times> u64 \<times> q_shape list" where
  "shape s = (queue_top s, queued_items s, active_items s, q_testcase_max_cache_size s, map q_shape (queue_buf s))"

lemma cache_frame_kept:
  assumes "cache_frame s s'" and "q < length (queue_buf s)"
  shows "q_kept (entry s' q) = q_kept (entry s q)"
proof -
  have "recached (entry s q) (entry s' q)"
    using assms list_all2_nthD [of recached "queue_buf s" "queue_buf s'" q] by (auto simp: cache_frame_def entry_def)
  then obtain x where "entry s' q = (entry s q)\<lparr>testcase_buf := x\<rparr>" by (auto simp: recached_def)
  then show ?thesis by (simp add: q_kept_def)
qed

lemma shape_upd_entry [simp]:
  assumes "\<And>e. q_shape (f e) = q_shape e"
  shows "shape (upd_entry q f s) = shape s"
proof -
  have "(map q_shape (queue_buf s))[q := q_shape (queue_buf s ! q)] = map q_shape (queue_buf s)"
    by (cases "q < length (queue_buf s)") (simp_all add: list_update_same_conv list_update_beyond)
  then show ?thesis by (simp add: shape_def upd_entry_def map_update assms)
qed

lemma q_shape_simps [simp]:
  "q_shape (e\<lparr>cal_failed := x1\<rparr>) = q_shape e" "q_shape (e\<lparr>exec_cksum := x2\<rparr>) = q_shape e"
  "q_shape (e\<lparr>exec_us := x3\<rparr>) = q_shape e" "q_shape (e\<lparr>bitmap_size := x4\<rparr>) = q_shape e"
  "q_shape (e\<lparr>handicap := x5\<rparr>) = q_shape e" "q_shape (e\<lparr>has_new_cov := x6\<rparr>) = q_shape e"
  "q_shape (e\<lparr>var_behavior := x7\<rparr>) = q_shape e" "q_shape (e\<lparr>tc_ref := x8\<rparr>) = q_shape e"
  "q_shape (e\<lparr>trace_mini := x9\<rparr>) = q_shape e" "q_shape (e\<lparr>n_fuzz_entry := y1\<rparr>) = q_shape e"
  by (simp_all add: q_shape_def q_kept_def)

lemma shape_simps [simp]:
  "shape (s\<lparr>trace_bits := x1\<rparr>) = shape s" "shape (s\<lparr>bitmap_changed := x2\<rparr>) = shape s"
  "shape (s\<lparr>virgin_bits := x3\<rparr>) = shape s" "shape (s\<lparr>virgin_tmout := x4\<rparr>) = shape s"
  "shape (s\<lparr>virgin_crash := x5\<rparr>) = shape s" "shape (s\<lparr>total_execs := x6\<rparr>) = shape s"
  "shape (s\<lparr>stop_soon := x7\<rparr>) = shape s" "shape (s\<lparr>skip_requested := x8\<rparr>) = shape s"
  "shape (s\<lparr>testcase := x9\<rparr>) = shape s" "shape (s\<lparr>delivered := y1\<rparr>) = shape s"
  "shape (s\<lparr>ticks := y2\<rparr>) = shape s" "shape (s\<lparr>queued_with_cov := y3\<rparr>) = shape s"
  "shape (s\<lparr>queued_variable := y4\<rparr>) = shape s" "shape (s\<lparr>queued_discovered := y5\<rparr>) = shape s"
  "shape (s\<lparr>score_changed := y6\<rparr>) = shape s" "shape (s\<lparr>top_rated := y7\<rparr>) = shape s"
  "shape (s\<lparr>n_fuzz := y8\<rparr>) = shape s" "shape (t\<lparr>stage_name := y9\<rparr>) = shape t"
  "shape (t\<lparr>stage_cur := z1\<rparr>) = shape t" "shape (t\<lparr>stage_max := z2\<rparr>) = shape t"
  by (simp_all add: shape_def)

lemma shape_simps_afl [simp]:
  "shape (t\<lparr>saved_crashes := x1\<rparr>) = shape t" "shape (t\<lparr>cur_skipped_items := x2\<rparr>) = shape t"
  "shape (t\<lparr>subseq_tmouts := x3\<rparr>) = shape t" "shape (s\<lparr>first_trace := x4\<rparr>) = shape s"
  "shape (s\<lparr>var_bytes := x5\<rparr>) = shape s" "shape (s\<lparr>var_byte_count := x6\<rparr>) = shape s"
  "shape (s\<lparr>calibration_time_us := x7\<rparr>) = shape s" "shape (s\<lparr>total_cal_us := x8\<rparr>) = shape s"
  "shape (s\<lparr>total_cal_cycles := x9\<rparr>) = shape s" "shape (s\<lparr>total_bitmap_size := y1\<rparr>) = shape s"
  "shape (s\<lparr>total_bitmap_entries := y2\<rparr>) = shape s" "shape (s\<lparr>total_crashes := y3\<rparr>) = shape s"
  "shape (s\<lparr>total_tmouts := y4\<rparr>) = shape s" "shape (s\<lparr>saved_hangs := y5\<rparr>) = shape s"
  "shape (s\<lparr>saved_tmouts := y6\<rparr>) = shape s" "shape (s\<lparr>last_hang_time := y7\<rparr>) = shape s"
  "shape (s\<lparr>last_crash_time := y8\<rparr>) = shape s" "shape (s\<lparr>last_crash_execs := y9\<rparr>) = shape s"
  "shape (s\<lparr>fuzz_mode := z1\<rparr>) = shape s" "shape (s\<lparr>queue_files := z2\<rparr>) = shape s"
  "shape (s\<lparr>crash_files := z3\<rparr>) = shape s" "shape (s\<lparr>hang_files := z4\<rparr>) = shape s"
  by (simp_all add: shape_def)

lemma queue_inv_shape:
  fixes s s' :: "'a queue_state_scheme"
  assumes "shape s' = shape s"
  shows "queue_inv s' = queue_inv s"
proof -
  have m: "map q_shape (queue_buf s') = map q_shape (queue_buf s)" and n: "queued_items s' = queued_items s"
    and c: "q_testcase_max_cache_size s' = q_testcase_max_cache_size s"
    using assms by (simp_all add: shape_def)
  have e: "entries_ok r = (\<forall>x\<in>set (map q_shape (queue_buf r)). case x of ((n, p, m, d, k), f, t) \<Rightarrow>
      unat n \<le> length f \<and> (\<forall>b. t = Some b \<longrightarrow> unat n \<le> length b) \<and> (\<forall>b. m = Some b \<longrightarrow> unat n \<le> length b) \<and>
      (\<forall>b. d = Some b \<longrightarrow> unat n \<le> length b) \<and> (k \<noteq> 0 \<longrightarrow> m \<noteq> None) \<and> p \<le> HAVOC_MAX_MULT * 100 \<and> (q_testcase_max_cache_size r = 0 \<longrightarrow> t = None))" for r :: "'a queue_state_scheme"
    by (simp add: entries_ok_def entry_ok_def q_shape_def q_kept_def)
  have z: "sizes_ok r = (\<forall>x\<in>set (map q_shape (queue_buf r)). 0 < fst (fst x) \<and> unat (fst (fst x)) \<le> MAX_FILE)"
    for r :: "'a queue_state_scheme"
    by (simp add: sizes_ok_def q_shape_def q_kept_def)
  have "entries_ok s' = entries_ok s" "sizes_ok s' = sizes_ok s" by (simp_all only: e z m c)
  moreover have "length (queue_buf s') = length (queue_buf s)" using m by (metis length_map)
  ultimately show ?thesis using n by (auto simp: queue_inv_def)
qed

end
