(* ===== verification/DetStages.thy ===== *)
theory DetStages
  imports Extras Flow Cache
begin

text \<open>
  The deterministic stages of \<^verbatim>\<open>fuzz_one_original\<close>
  (\<^verbatim>\<open>src/afl-fuzz-one.c\<close>): walking bit and byte flips, arithmetic, interesting values
  and dictionary tokens. Every stage edits the input in place, hands it to
  \<^verbatim>\<open>common_fuzz_stuff\<close> and undoes the edit. The stages take
  \<^verbatim>\<open>common_fuzz_stuff\<close> as an argument; what they need of it is a locale, which the
  theory \<open>Run\<close> interprets with the function itself.
\<close>

section \<open>Local variables and helpers\<close>

record fuzz_locals =
  in_buf :: buf
  out_buf :: buf
  l_len :: nat
  eff_map :: buf
  before_det_time :: u64
  orig_hit_cnt :: u64
  new_hit_cnt :: u64
  prev_cksum :: u64
  first_cksum :: u64
  a_collect :: buf
  a_len :: nat
  ex_tmp :: buf
  last_len :: nat
  orig_in :: buf
  doing_det :: bool
  l_perf_score :: u32
  orig_perf :: u32
  splice_cycle :: u32
  havoc_queued :: u64
  use_stacking :: u32
  selected_mutators :: "nat list"
  ret_val :: bool

type_synonym fstate = "afl \<times> fuzz_locals"

datatype verdict = Ret0 | Ret1 | Died

type_synonym runner = "buf \<Rightarrow> nat \<Rightarrow> afl \<Rightarrow> (verdict \<times> afl) option"

definition skip :: "'s cmd" where "skip = upd (\<lambda>s. s)"

definition on_afl :: "(afl \<Rightarrow> afl) \<Rightarrow> fstate cmd" where
  "on_afl f = upd (\<lambda>(s, l). (f s, l))"

definition on_loc :: "(fuzz_locals \<Rightarrow> fuzz_locals) \<Rightarrow> fstate cmd" where
  "on_loc f = upd (\<lambda>(s, l). (s, f l))"

definition set_out :: "(buf \<Rightarrow> buf) \<Rightarrow> fstate cmd" where
  "set_out f = on_loc (\<lambda>l. l\<lparr>out_buf := f (out_buf l)\<rparr>)"

text \<open>\<^verbatim>\<open>if (common_fuzz_stuff(afl, buf, len)) { goto abandon_entry; }\<close>\<close>

definition fuzz_with :: "runner \<Rightarrow> (fuzz_locals \<Rightarrow> buf) \<Rightarrow> (fuzz_locals \<Rightarrow> nat) \<Rightarrow> fstate cmd" where
  "fuzz_with cfs b n st =
     (let (s, l) = st in
      map_option (\<lambda>(v, s'). (case v of Ret0 \<Rightarrow> Next | Ret1 \<Rightarrow> Abandon_entry | Died \<Rightarrow> Fatal, s', l))
        (cfs (b l) (n l) s))"

definition fuzz_out :: "runner \<Rightarrow> fstate cmd" where
  "fuzz_out cfs = fuzz_with cfs out_buf l_len"

definition MAX_EFF_TIMEOUT :: u64 where "MAX_EFF_TIMEOUT = 10 * 60 * 1000"
definition MAX_DET_TIMEOUT :: u64 where "MAX_DET_TIMEOUT = 15 * 60 * 1000"

definition is_det_timeout :: "world \<Rightarrow> u64 \<Rightarrow> bool \<Rightarrow> afl \<Rightarrow> bool \<times> afl" where
  "is_det_timeout w cur_ms is_flip s =
     (let (now, s) = get_cur_time w s
      in (if is_flip then now - cur_ms > MAX_EFF_TIMEOUT else now - cur_ms > MAX_DET_TIMEOUT, s))"

text \<open>\<^verbatim>\<open>if (is_det_timeout(before_det_time, 0)) { goto custom_mutator_stage; }\<close>\<close>

definition check_timeout :: "world \<Rightarrow> fstate cmd" where
  "check_timeout w st =
     (let (s, l) = st; (late, s) = is_det_timeout w (before_det_time l) False s
      in Some (if late then Custom_mutator_stage else Next, s, l))"

definition begin_stage :: "string \<Rightarrow> string \<Rightarrow> (fuzz_locals \<Rightarrow> u32) \<Rightarrow> fstate cmd" where
  "begin_stage name short mx =
     upd (\<lambda>(s, l). (s\<lparr>stage_name := name, stage_short := short, stage_max := mx l\<rparr>, l))"

definition hits :: "afl \<Rightarrow> u64" where
  "hits s = ucast (queued_items s) + saved_crashes s"

definition hits_so_far :: "fstate cmd" where
  "hits_so_far = on_loc (\<lambda>l. l\<lparr>orig_hit_cnt := new_hit_cnt l\<rparr>)"

text \<open>The accounting at the end of every stage.\<close>

definition end_stage :: "stage_id \<Rightarrow> fstate cmd" where
  "end_stage k = upd (\<lambda>(s, l).
     (s\<lparr>stage_finds := (stage_finds s)(k := stage_finds s k + (hits s - orig_hit_cnt l)),
        stage_cycles := (stage_cycles s)(k := stage_cycles s k + ucast (stage_max s))\<rparr>,
      l\<lparr>new_hit_cnt := hits s\<rparr>))"

definition inc_cur :: "fstate cmd" where
  "inc_cur = on_afl (\<lambda>s. s\<lparr>stage_cur := stage_cur s + 1\<rparr>)"

definition dec_max :: "fstate cmd" where
  "dec_max = on_afl (\<lambda>s. s\<lparr>stage_max := stage_max s - 1\<rparr>)"

definition set_cur :: "u32 \<Rightarrow> fstate cmd" where
  "set_cur c = on_afl (\<lambda>s. s\<lparr>stage_cur := c\<rparr>)"

definition set_byte :: "nat \<Rightarrow> fstate cmd" where
  "set_byte i = on_afl (\<lambda>s. s\<lparr>stage_cur_byte := of_nat i\<rparr>)"

definition set_val_type :: "val_type \<Rightarrow> fstate cmd" where
  "set_val_type t = on_afl (\<lambda>s. s\<lparr>stage_val_type := t\<rparr>)"

definition set_val :: "u32 \<Rightarrow> fstate cmd" where
  "set_val v = on_afl (\<lambda>s. s\<lparr>stage_cur_val := v\<rparr>)"

text \<open>\<^verbatim>\<open>for (stage_cur = 0; stage_cur < stage_max; ++stage_cur)\<close>\<close>

definition for_stage_cur :: "fstate cmd \<Rightarrow> fstate cmd" where
  "for_stage_cur body = steps [set_cur 0,
     while_cmd (\<lambda>(s, l). stage_cur s < stage_max s) (steps [body, inc_cur])]"

text \<open>\<^verbatim>\<open>if (!skip_eff_map[i]) continue;\<close>, then the time check, then the body.\<close>

definition if_effective :: "world \<Rightarrow> (fstate \<Rightarrow> nat) \<Rightarrow> fstate cmd \<Rightarrow> fstate cmd" where
  "if_effective w pos body =
     cond (\<lambda>st. eff_map (snd st) ! pos st \<noteq> 0) (steps [check_timeout w, body]) skip"

section \<open>Walking bits\<close>

text \<open>Flip \<open>k\<close> bits from \<^verbatim>\<open>stage_cur\<close> on.\<close>

definition flip_bits :: "nat \<Rightarrow> fstate cmd" where
  "flip_bits k = upd (\<lambda>(s, l).
     (s, l\<lparr>out_buf := fold (\<lambda>j b. FLIP_BIT b (unat (stage_cur s) + j)) [0..<k] (out_buf l)\<rparr>))"

definition walking_bits :: "world \<Rightarrow> runner \<Rightarrow> nat \<Rightarrow> fstate cmd \<Rightarrow> fstate cmd" where
  "walking_bits w cfs k after = for_stage_cur (steps
     [on_afl (\<lambda>s. s\<lparr>stage_cur_byte := drop_bit 3 (stage_cur s)\<rparr>),
      if_effective w (\<lambda>(s, l). unat (stage_cur_byte s))
        (steps [flip_bits k, fuzz_out cfs, flip_bits k, after])])"

text \<open>
  The search for syntax tokens that runs along with the single-bit flips: bytes whose lowest
  bit changes the trace in the same way are collected in \<^verbatim>\<open>a_collect\<close>.
\<close>

definition collect_byte :: "fstate cmd" where
  "collect_byte = upd (\<lambda>(s, l).
     (s, l\<lparr>a_collect := (if a_len l < MAX_AUTO_EXTRA
              then (a_collect l)[a_len l := out_buf l ! unat (drop_bit 3 (stage_cur s))] else a_collect l),
           a_len := a_len l + 1\<rparr>))"

definition offer_token :: "world \<Rightarrow> fstate cmd" where
  "offer_token w st =
     (let (s, l) = st in
      if a_len l \<ge> MIN_AUTO_EXTRA \<and> a_len l \<le> MAX_AUTO_EXTRA
      then map_option (\<lambda>s. (Next, s, l)) (maybe_add_auto w (a_collect l) (a_len l) s)
      else Some (Next, s, l))"

definition collect_auto :: "world \<Rightarrow> fstate cmd" where
  "collect_auto w =
     cond (\<lambda>(s, l). \<not> non_instrumented_mode s \<and> stage_cur s AND 7 = 7)
       (reading (\<lambda>(s, l). hash64 w (trace_bits s)) (\<lambda>cksum. steps
         [cond (\<lambda>(s, l). stage_cur s = stage_max s - 1 \<and> cksum = prev_cksum l)
            (steps [collect_byte, offer_token w])
            (cond (\<lambda>(s, l). cksum \<noteq> prev_cksum l)
               (steps [offer_token w, on_loc (\<lambda>l. l\<lparr>a_len := 0, prev_cksum := cksum\<rparr>)])
               skip),
          cond (\<lambda>(s, l). cksum \<noteq> first_cksum l) collect_byte skip]))
       skip"

definition stage_flip1 :: "world \<Rightarrow> runner \<Rightarrow> fstate cmd" where
  "stage_flip1 w cfs = steps
     [begin_stage ''bitflip 1/1'' ''flip1'' (\<lambda>l. of_nat (8 * l_len l)),
      set_val_type STAGE_VAL_NONE,
      upd (\<lambda>(s, l). (s, l\<lparr>orig_hit_cnt := hits s\<rparr>)),
      fuzz_out cfs,
      upd (\<lambda>(s, l). (s, l\<lparr>prev_cksum := hash64 w (trace_bits s), first_cksum := hash64 w (trace_bits s)\<rparr>)),
      walking_bits w cfs 1 (collect_auto w),
      end_stage STAGE_FLIP1]"

definition stage_flip2 :: "world \<Rightarrow> runner \<Rightarrow> fstate cmd" where
  "stage_flip2 w cfs = steps
     [begin_stage ''bitflip 2/1'' ''flip2'' (\<lambda>l. of_nat (8 * l_len l) - 1), hits_so_far,
      walking_bits w cfs 2 skip, end_stage STAGE_FLIP2]"

definition stage_flip4 :: "world \<Rightarrow> runner \<Rightarrow> fstate cmd" where
  "stage_flip4 w cfs = steps
     [begin_stage ''bitflip 4/1'' ''flip4'' (\<lambda>l. of_nat (8 * l_len l) - 3), hits_so_far,
      walking_bits w cfs 4 skip, end_stage STAGE_FLIP4]"

section \<open>Walking bytes\<close>

definition flip_byte_at_cur :: "fstate cmd" where
  "flip_byte_at_cur = upd (\<lambda>(s, l).
     (s, l\<lparr>out_buf := (out_buf l)[unat (stage_cur s) := out_buf l ! unat (stage_cur s) XOR 0xFF]\<rparr>))"

definition stage_flip8 :: "world \<Rightarrow> runner \<Rightarrow> fstate cmd" where
  "stage_flip8 w cfs = steps
     [begin_stage ''bitflip 8/8'' ''flip8'' (\<lambda>l. of_nat (l_len l)), hits_so_far,
      on_loc (\<lambda>l. l\<lparr>prev_cksum := first_cksum l\<rparr>),
      for_stage_cur (steps
        [on_afl (\<lambda>s. s\<lparr>stage_cur_byte := stage_cur s\<rparr>),
         if_effective w (\<lambda>(s, l). unat (stage_cur_byte s))
           (steps [flip_byte_at_cur, fuzz_out cfs, flip_byte_at_cur])]),
      upd (\<lambda>(s, l). (s\<lparr>blocks_eff_select := blocks_eff_select s +
                         of_nat (length (filter (\<lambda>i. eff_map l ! i \<noteq> 0) [0..<l_len l])),
                       blocks_eff_total := blocks_eff_total s + of_nat (l_len l)\<rparr>, l)),
      end_stage STAGE_FLIP8]"

definition flip_word :: "nat \<Rightarrow> fstate cmd" where
  "flip_word i = set_out (\<lambda>b. store16 b i (load16 b i XOR 0xFFFF))"

definition flip_dword :: "nat \<Rightarrow> fstate cmd" where
  "flip_dword i = set_out (\<lambda>b. store32 b i (load32 b i XOR 0xFFFFFFFF))"

definition len_of :: "fstate \<Rightarrow> nat" where "len_of st = l_len (snd st)"

definition stage_flip16 :: "world \<Rightarrow> runner \<Rightarrow> fstate cmd" where
  "stage_flip16 w cfs = steps
     [begin_stage ''bitflip 16/8'' ''flip16'' (\<lambda>l. of_nat (l_len l - 1)), set_cur 0, hits_so_far,
      reading len_of (\<lambda>len. for_range 0 (len - 1) (\<lambda>i. if_effective w (\<lambda>_. i)
        (steps [set_byte i, flip_word i, fuzz_out cfs, inc_cur, flip_word i]))),
      end_stage STAGE_FLIP16]"

definition stage_flip32 :: "world \<Rightarrow> runner \<Rightarrow> fstate cmd" where
  "stage_flip32 w cfs = steps
     [begin_stage ''bitflip 32/8'' ''flip32'' (\<lambda>l. of_nat (l_len l - 3)), set_cur 0, hits_so_far,
      reading len_of (\<lambda>len. for_range 0 (len - 3) (\<lambda>i. if_effective w (\<lambda>_. i)
        (steps [set_byte i, flip_dword i, fuzz_out cfs, inc_cur, flip_dword i]))),
      end_stage STAGE_FLIP32]"

section \<open>Arithmetic\<close>

text \<open>
  One candidate of the arithmetic and interesting-value stages: run it when no earlier stage
  could have produced it, otherwise take it off the number of steps announced.
\<close>

definition attempt :: "runner \<Rightarrow> bool \<Rightarrow> fstate cmd \<Rightarrow> fstate cmd" where
  "attempt cfs ok edit = (if ok then steps [edit, fuzz_out cfs, inc_cur] else dec_max)"

definition put8 :: "nat \<Rightarrow> u8 \<Rightarrow> u32 \<Rightarrow> fstate cmd" where
  "put8 i v val = steps [set_val val, set_out (\<lambda>b. b[i := v])]"

definition put16 :: "nat \<Rightarrow> u16 \<Rightarrow> u32 \<Rightarrow> fstate cmd" where
  "put16 i v val = steps [set_val val, set_out (\<lambda>b. store16 b i v)]"

definition put32 :: "nat \<Rightarrow> u32 \<Rightarrow> u32 \<Rightarrow> fstate cmd" where
  "put32 i v val = steps [set_val val, set_out (\<lambda>b. store32 b i v)]"

definition arith8_step :: "runner \<Rightarrow> nat \<Rightarrow> u8 \<Rightarrow> nat \<Rightarrow> fstate cmd" where
  "arith8_step cfs i orig j = steps
     [attempt cfs (\<not> could_be_bitflip (ucast (orig XOR (orig + of_nat j))))
        (put8 i (orig + of_nat j) (of_nat j)),
      attempt cfs (\<not> could_be_bitflip (ucast (orig XOR (orig - of_nat j))))
        (put8 i (orig - of_nat j) (- of_nat j)),
      set_out (\<lambda>b. b[i := orig])]"

definition stage_arith8 :: "world \<Rightarrow> runner \<Rightarrow> fstate cmd" where
  "stage_arith8 w cfs = steps
     [begin_stage ''arith 8/8'' ''arith8'' (\<lambda>l. of_nat (2 * l_len l * ARITH_MAX)), set_cur 0,
      set_val_type STAGE_VAL_LE, hits_so_far,
      reading len_of (\<lambda>len. for_range 0 len (\<lambda>i.
        reading (\<lambda>(s, l). out_buf l ! i) (\<lambda>orig. if_effective w (\<lambda>_. i)
          (steps [set_byte i, for_range 1 (ARITH_MAX + 1) (arith8_step cfs i orig)])))),
      end_stage STAGE_ARITH8]"

definition arith16_step :: "runner \<Rightarrow> nat \<Rightarrow> u16 \<Rightarrow> nat \<Rightarrow> fstate cmd" where
  "arith16_step cfs i orig n =
     (let j = of_nat n :: u16; lo = ucast (orig AND 0xff) :: u32; hi = ucast (drop_bit 8 orig) :: u32;
          be_add = SWAP16 (SWAP16 orig + j); be_sub = SWAP16 (SWAP16 orig - j)
      in steps
     [set_val_type STAGE_VAL_LE,
      attempt cfs (lo + of_nat n > 0xff \<and> \<not> could_be_bitflip (ucast (orig XOR (orig + j))))
        (put16 i (orig + j) (of_nat n)),
      attempt cfs (lo < of_nat n \<and> \<not> could_be_bitflip (ucast (orig XOR (orig - j))))
        (put16 i (orig - j) (- of_nat n)),
      set_val_type STAGE_VAL_BE,
      attempt cfs (hi + of_nat n > 0xff \<and> \<not> could_be_bitflip (ucast (orig XOR be_add)))
        (put16 i be_add (of_nat n)),
      attempt cfs (hi < of_nat n \<and> \<not> could_be_bitflip (ucast (orig XOR be_sub)))
        (put16 i be_sub (- of_nat n)),
      set_out (\<lambda>b. store16 b i orig)])"

definition stage_arith16 :: "world \<Rightarrow> runner \<Rightarrow> fstate cmd" where
  "stage_arith16 w cfs = steps
     [begin_stage ''arith 16/8'' ''arith16'' (\<lambda>l. of_nat (4 * (l_len l - 1) * ARITH_MAX)), set_cur 0,
      hits_so_far,
      reading len_of (\<lambda>len. for_range 0 (len - 1) (\<lambda>i.
        reading (\<lambda>(s, l). load16 (out_buf l) i) (\<lambda>orig. if_effective w (\<lambda>_. i)
          (steps [set_byte i, for_range 1 (ARITH_MAX + 1) (arith16_step cfs i orig)])))),
      end_stage STAGE_ARITH16]"

definition arith32_step :: "runner \<Rightarrow> nat \<Rightarrow> u32 \<Rightarrow> nat \<Rightarrow> fstate cmd" where
  "arith32_step cfs i orig n =
     (let j = of_nat n :: u32; lo = orig AND 0xffff; hi = SWAP32 orig AND 0xffff;
          be_add = SWAP32 (SWAP32 orig + j); be_sub = SWAP32 (SWAP32 orig - j)
      in steps
     [set_val_type STAGE_VAL_LE,
      attempt cfs (lo + j > 0xffff \<and> \<not> could_be_bitflip (orig XOR (orig + j)))
        (put32 i (orig + j) j),
      attempt cfs (lo < j \<and> \<not> could_be_bitflip (orig XOR (orig - j)))
        (put32 i (orig - j) (- j)),
      set_val_type STAGE_VAL_BE,
      attempt cfs (hi + j > 0xffff \<and> \<not> could_be_bitflip (orig XOR be_add))
        (put32 i be_add j),
      attempt cfs (hi < j \<and> \<not> could_be_bitflip (orig XOR be_sub))
        (put32 i be_sub (- j)),
      set_out (\<lambda>b. store32 b i orig)])"

definition stage_arith32 :: "world \<Rightarrow> runner \<Rightarrow> fstate cmd" where
  "stage_arith32 w cfs = steps
     [begin_stage ''arith 32/8'' ''arith32'' (\<lambda>l. of_nat (4 * (l_len l - 3) * ARITH_MAX)), set_cur 0,
      hits_so_far,
      reading len_of (\<lambda>len. for_range 0 (len - 3) (\<lambda>i.
        reading (\<lambda>(s, l). load32 (out_buf l) i) (\<lambda>orig. if_effective w (\<lambda>_. i)
          (steps [set_byte i, for_range 1 (ARITH_MAX + 1) (arith32_step cfs i orig)])))),
      end_stage STAGE_ARITH32]"

section \<open>Interesting values\<close>

definition interest8_step :: "runner \<Rightarrow> nat \<Rightarrow> u8 \<Rightarrow> u8 \<Rightarrow> fstate cmd" where
  "interest8_step cfs i orig v =
     (if could_be_bitflip (ucast (orig XOR v)) \<or> could_be_arith (ucast orig) (ucast v) 1
      then dec_max
      else steps [put8 i v (scast v), fuzz_out cfs, set_out (\<lambda>b. b[i := orig]), inc_cur])"

definition stage_interest8 :: "world \<Rightarrow> runner \<Rightarrow> fstate cmd" where
  "stage_interest8 w cfs = steps
     [begin_stage ''interest 8/8'' ''int8'' (\<lambda>l. of_nat (l_len l * length interesting_8)), set_cur 0,
      set_val_type STAGE_VAL_LE, hits_so_far,
      reading len_of (\<lambda>len. for_range 0 len (\<lambda>i.
        reading (\<lambda>(s, l). out_buf l ! i) (\<lambda>orig. if_effective w (\<lambda>_. i)
          (steps [set_byte i, for_range 0 (length interesting_8)
             (\<lambda>j. interest8_step cfs i orig (interesting_8 ! j))])))),
      end_stage STAGE_INTEREST8]"

definition interest16_step :: "runner \<Rightarrow> nat \<Rightarrow> u16 \<Rightarrow> u16 \<Rightarrow> fstate cmd" where
  "interest16_step cfs i orig v =
     (let new16 = (\<lambda>x le. \<not> could_be_bitflip (ucast (orig XOR x)) \<and>
            \<not> could_be_arith (ucast orig) (ucast x) 2 \<and> \<not> could_be_interest (ucast orig) (ucast x) 2 le)
      in steps
     [set_val (scast v),
      attempt cfs (new16 v False) (steps [set_val_type STAGE_VAL_LE, set_out (\<lambda>b. store16 b i v)]),
      attempt cfs (v \<noteq> SWAP16 v \<and> new16 (SWAP16 v) True)
        (steps [set_val_type STAGE_VAL_BE, set_out (\<lambda>b. store16 b i (SWAP16 v))])])"

definition stage_interest16 :: "world \<Rightarrow> runner \<Rightarrow> fstate cmd" where
  "stage_interest16 w cfs = steps
     [begin_stage ''interest 16/8'' ''int16'' (\<lambda>l. of_nat (2 * (l_len l - 1) * length interesting_16)),
      set_cur 0, hits_so_far,
      reading len_of (\<lambda>len. for_range 0 (len - 1) (\<lambda>i.
        reading (\<lambda>(s, l). load16 (out_buf l) i) (\<lambda>orig. if_effective w (\<lambda>_. i)
          (steps [set_byte i, for_range 0 (length interesting_16)
             (\<lambda>j. interest16_step cfs i orig (interesting_16 ! j)),
            set_out (\<lambda>b. store16 b i orig)])))),
      end_stage STAGE_INTEREST16]"

definition interest32_step :: "runner \<Rightarrow> nat \<Rightarrow> u32 \<Rightarrow> u32 \<Rightarrow> fstate cmd" where
  "interest32_step cfs i orig v =
     (let new32 = (\<lambda>x le. \<not> could_be_bitflip (orig XOR x) \<and>
            \<not> could_be_arith orig x 4 \<and> \<not> could_be_interest orig x 4 le)
      in steps
     [set_val v,
      attempt cfs (new32 v False) (steps [set_val_type STAGE_VAL_LE, set_out (\<lambda>b. store32 b i v)]),
      attempt cfs (v \<noteq> SWAP32 v \<and> new32 (SWAP32 v) True)
        (steps [set_val_type STAGE_VAL_BE, set_out (\<lambda>b. store32 b i (SWAP32 v))])])"

definition stage_interest32 :: "world \<Rightarrow> runner \<Rightarrow> fstate cmd" where
  "stage_interest32 w cfs = steps
     [begin_stage ''interest 32/8'' ''int32'' (\<lambda>l. of_nat (2 * (l_len l - 3) * length interesting_32)),
      set_cur 0, hits_so_far,
      reading len_of (\<lambda>len. for_range 0 (len - 3) (\<lambda>i.
        reading (\<lambda>(s, l). load32 (out_buf l) i) (\<lambda>orig. if_effective w (\<lambda>_. i)
          (steps [set_byte i, for_range 0 (length interesting_32)
             (\<lambda>j. interest32_step cfs i orig (interesting_32 ! j)),
            set_out (\<lambda>b. store32 b i orig)])))),
      end_stage STAGE_INTEREST32]"

section \<open>Dictionary tokens\<close>

text \<open>
  The user's tokens are sampled when there are more of them than
  \<^verbatim>\<open>max_det_extras\<close>; \<^verbatim>\<open>rand_below\<close> is called only then.
\<close>

definition sampled_out :: "world \<Rightarrow> afl \<Rightarrow> (bool \<times> afl) option" where
  "sampled_out w s =
     (let cnt = of_nat (length (extras s)) in
      if cnt > max_det_extras s
      then map_option (\<lambda>(r, s). (r \<ge> max_det_extras s, s)) (rand_below w cnt s)
      else Some (False, s))"

definition place_token :: "runner \<Rightarrow> nat \<Rightarrow> extra_data \<Rightarrow> fstate cmd" where
  "place_token cfs i e =
     cond (\<lambda>(s, l). e_len e > l_len l - i \<or> take (e_len e) (e_data e) = slice (out_buf l) i (e_len e))
       dec_max
       (steps [on_loc (\<lambda>l. l\<lparr>last_len := e_len e,
                  out_buf := copy_at (out_buf l) i (take (e_len e) (e_data e))\<rparr>),
               fuzz_out cfs, inc_cur])"

definition user_over_step :: "world \<Rightarrow> runner \<Rightarrow> nat \<Rightarrow> nat \<Rightarrow> fstate cmd" where
  "user_over_step w cfs i j st =
     (let (s, l) = st in
      Option.bind (sampled_out w s) (\<lambda>(out, s).
        if out then dec_max (s, l) else place_token cfs i (extras s ! j) (s, l)))"

definition restore_from_input :: "nat \<Rightarrow> fstate cmd" where
  "restore_from_input i = on_loc (\<lambda>l. l\<lparr>out_buf := copy_at (out_buf l) i (slice (in_buf l) i (last_len l))\<rparr>)"

definition stage_user_over :: "world \<Rightarrow> runner \<Rightarrow> fstate cmd" where
  "stage_user_over w cfs = steps
     [upd (\<lambda>(s, l). (s\<lparr>stage_name := ''user extras (over)'', stage_short := ''ext_UO'', stage_cur := 0,
         stage_max := of_nat (length (extras s) * l_len l), stage_val_type := STAGE_VAL_NONE\<rparr>, l)),
      hits_so_far,
      reading len_of (\<lambda>len. for_range 0 len (\<lambda>i. steps
        [on_loc (\<lambda>l. l\<lparr>last_len := 0\<rparr>),
         if_effective w (\<lambda>_. i) (steps
           [set_byte i,
            reading (\<lambda>(s, l). length (extras s)) (\<lambda>cnt. for_range 0 cnt (user_over_step w cfs i)),
            restore_from_input i])])),
      end_stage STAGE_EXTRAS_UO]"

definition insert_token :: "runner \<Rightarrow> nat \<Rightarrow> extra_data \<Rightarrow> fstate cmd" where
  "insert_token cfs i e =
     cond (\<lambda>(s, l). l_len l + e_len e > MAX_FILE) dec_max
       (steps [on_loc (\<lambda>l. l\<lparr>ex_tmp := copy_at (copy_at (ex_tmp l) i (take (e_len e) (e_data e)))
                   (i + e_len e) (slice (out_buf l) i (l_len l - i))\<rparr>),
               fuzz_with cfs ex_tmp (\<lambda>l. l_len l + e_len e), inc_cur])"

text \<open>\<^verbatim>\<open>afl_realloc\<close> keeps the contents; the bytes it adds are not initialised.\<close>

definition grow :: "world \<Rightarrow> nat \<Rightarrow> buf \<Rightarrow> buf" where
  "grow w n b = b @ map (uninit w) [length b..<n]"

text \<open>
  \<^verbatim>\<open>Copy head\<close> is also reached for the position one past the input, where it reads whatever
  lies behind it in memory.
\<close>

definition head_byte :: "world \<Rightarrow> buf \<Rightarrow> nat \<Rightarrow> u8" where
  "head_byte w b i = (if i < length b then b ! i else uninit w i)"

definition insert_stage :: "world \<Rightarrow> runner \<Rightarrow> (afl \<Rightarrow> extra_data list) \<Rightarrow> fstate cmd" where
  "insert_stage w cfs toks = steps
     [on_loc (\<lambda>l. l\<lparr>ex_tmp := grow w (l_len l + MAX_DICT_FILE) (ex_tmp l)\<rparr>),
      reading len_of (\<lambda>len. for_range 0 (len + 1) (\<lambda>i. if_effective w (\<lambda>_. i mod len) (steps
        [set_byte i,
         reading (\<lambda>(s, l). length (toks s)) (\<lambda>cnt. for_range 0 cnt (\<lambda>j.
           reading (\<lambda>(s, l). toks s ! j) (insert_token cfs i))),
         on_loc (\<lambda>l. l\<lparr>ex_tmp := (ex_tmp l)[i := head_byte w (out_buf l) i]\<rparr>)])))]"

definition stage_user_insert :: "world \<Rightarrow> runner \<Rightarrow> fstate cmd" where
  "stage_user_insert w cfs = steps
     [upd (\<lambda>(s, l). (s\<lparr>stage_name := ''user extras (insert)'', stage_short := ''ext_UI'', stage_cur := 0,
         stage_max := of_nat (length (extras s) * (l_len l + 1))\<rparr>, l)),
      hits_so_far, insert_stage w cfs extras, end_stage STAGE_EXTRAS_UI]"

definition stage_auto_over :: "world \<Rightarrow> runner \<Rightarrow> fstate cmd" where
  "stage_auto_over w cfs = steps
     [upd (\<lambda>(s, l). (s\<lparr>stage_name := ''auto extras (over)'', stage_short := ''ext_AO'', stage_cur := 0,
         stage_max := of_nat (min (length (a_extras s)) USE_AUTO_EXTRAS * l_len l),
         stage_val_type := STAGE_VAL_NONE\<rparr>, l)),
      hits_so_far,
      reading len_of (\<lambda>len. for_range 0 len (\<lambda>i. steps
        [on_loc (\<lambda>l. l\<lparr>last_len := 0\<rparr>),
         if_effective w (\<lambda>_. i) (steps
           [set_byte i,
            reading (\<lambda>(s, l). min (length (a_extras s)) USE_AUTO_EXTRAS) (\<lambda>cnt. for_range 0 cnt (\<lambda>j.
              reading (\<lambda>(s, l). a_extras s ! j) (place_token cfs i))),
            restore_from_input i])])),
      end_stage STAGE_EXTRAS_AO]"

definition stage_auto_insert :: "world \<Rightarrow> runner \<Rightarrow> fstate cmd" where
  "stage_auto_insert w cfs = steps
     [upd (\<lambda>(s, l). (s\<lparr>stage_name := ''auto extras (insert)'', stage_short := ''ext_AI'', stage_cur := 0,
         stage_max := of_nat (length (a_extras s) * (l_len l + 1))\<rparr>, l)),
      hits_so_far, insert_stage w cfs a_extras, end_stage STAGE_EXTRAS_AI]"

section \<open>All stages\<close>

text \<open>\<^verbatim>\<open>mark_as_det_done\<close>, without the marker file it leaves in the output directory.\<close>

definition mark_as_det_done :: "nat \<Rightarrow> afl \<Rightarrow> afl" where
  "mark_as_det_done q s = s\<lparr>queue_buf := (queue_buf s)[q := (queue_buf s ! q)\<lparr>passed_det := True\<rparr>]\<rparr>"

definition det_stages :: "world \<Rightarrow> runner \<Rightarrow> fstate cmd" where
  "det_stages w cfs = steps
     [stage_flip1 w cfs, stage_flip2 w cfs, stage_flip4 w cfs, stage_flip8 w cfs,
      cond (\<lambda>(s, l). l_len l < 2) skip (steps [stage_flip16 w cfs,
        cond (\<lambda>(s, l). l_len l < 4) skip (stage_flip32 w cfs)]),
      cond (\<lambda>(s, l). no_arith s) skip (steps [stage_arith8 w cfs,
        cond (\<lambda>(s, l). l_len l < 2) skip (steps [stage_arith16 w cfs,
          cond (\<lambda>(s, l). l_len l < 4) skip (stage_arith32 w cfs)])]),
      stage_interest8 w cfs,
      cond (\<lambda>(s, l). no_arith s \<or> l_len l < 2) skip (steps [stage_interest16 w cfs,
        cond (\<lambda>(s, l). l_len l < 4) skip (stage_interest32 w cfs)]),
      cond (\<lambda>(s, l). extras s = []) skip (steps [stage_user_over w cfs, stage_user_insert w cfs]),
      cond (\<lambda>(s, l). a_extras s = []) skip (steps [stage_auto_over w cfs, stage_auto_insert w cfs]),
      on_afl (\<lambda>s. if passed_det (queue_buf s ! queue_cur s) then s
                   else mark_as_det_done (queue_cur s) s)]"

section \<open>What the stages need of \<open>common_fuzz_stuff\<close>\<close>

text \<open>
  The part of the state the stages keep across a run of the target. With
  \<^verbatim>\<open>AFL_KEEP_TIMEOUTS\<close> set, \<^verbatim>\<open>save_if_interesting\<close> need not return (theory
  \<open>Run\<close>), so the contract asks for termination only without it.
\<close>

definition stage_frame :: "afl \<Rightarrow> afl \<Rightarrow> bool" where
  "stage_frame s s' \<longleftrightarrow>
     stage_cur s' = stage_cur s \<and> stage_max s' = stage_max s \<and> stage_cur_byte s' = stage_cur_byte s \<and>
     stage_cur_val s' = stage_cur_val s \<and> stage_val_type s' = stage_val_type s \<and>
     stage_name s' = stage_name s \<and> stage_short s' = stage_short s \<and>
     stage_finds s' = stage_finds s \<and> stage_cycles s' = stage_cycles s \<and>
     extras s' = extras s \<and> a_extras s' = a_extras s \<and> max_det_extras s' = max_det_extras s \<and>
     no_arith s' = no_arith s \<and> non_instrumented_mode s' = non_instrumented_mode s \<and>
     queue_cur s' = queue_cur s \<and> keep_timeouts s' = keep_timeouts s \<and>
     exec_tmout s' = exec_tmout s \<and> hang_tmout s' = hang_tmout s \<and> min_length s' = min_length s \<and>
     max_length s' = max_length s \<and> current_entry s' = current_entry s \<and> havoc_max_mult s' = havoc_max_mult s \<and>
     havoc_stack_pow2 s' = havoc_stack_pow2 s \<and> in_training s' = in_training s \<and>
     stack_with_most_finds s' = stack_with_most_finds s \<and> finds_per_stack s' = finds_per_stack s \<and>
     finds_per_mutator s' = finds_per_mutator s \<and> prob_table_mut s' = prob_table_mut s \<and>
     alias_table_mut s' = alias_table_mut s"

lemma stage_frame_refl [simp]: "stage_frame s s"
  by (simp add: stage_frame_def)

lemma stage_frame_trans [trans]: "stage_frame a b \<Longrightarrow> stage_frame b c \<Longrightarrow> stage_frame a c"
  by (simp add: stage_frame_def)

definition length_ok :: "nat \<Rightarrow> afl \<Rightarrow> bool" where
  "length_ok n s \<longleftrightarrow> 0 < n \<and> min_length s \<le> n \<and> n \<le> max_length s \<and> n < 2 ^ 32"

text \<open>
  The fuzzer between two runs: the queue is sound, the current entry is one of its entries, and
  nothing but inputs of a permitted size has been given to the target.
\<close>

definition sound :: "afl \<Rightarrow> bool" where
  "sound s \<longleftrightarrow> queue_inv s \<and> queue_cur s < length (queue_buf s) \<and> (\<forall>b\<in>set (delivered s). mutable b)"

definition fuzzing :: "nat \<Rightarrow> afl \<Rightarrow> bool" where
  "fuzzing n s \<longleftrightarrow> sound s \<and> q_len (entry s (queue_cur s)) = of_nat n"

lemma sound_cong:
  fixes s s' :: afl
  assumes "queue_buf s' = queue_buf s" "queue_cur s' = queue_cur s" "queued_items s' = queued_items s"
    "delivered s' = delivered s" "q_testcase_max_cache_size s' = q_testcase_max_cache_size s"
  shows "sound s' = sound s"
  using assms by (simp add: sound_def queue_inv_def sizes_ok_def entries_ok_def)

lemma fuzzing_cong:
  fixes s s' :: afl
  assumes "queue_buf s' = queue_buf s" "queue_cur s' = queue_cur s" "queued_items s' = queued_items s"
    "delivered s' = delivered s" "q_testcase_max_cache_size s' = q_testcase_max_cache_size s"
  shows "fuzzing n s' = fuzzing n s"
  using sound_cong [OF assms] assms by (simp add: fuzzing_def entry_def)

lemma fuzzing_upd [simp]:
  fixes s :: afl
  shows "fuzzing n (s\<lparr>stage_cur := x1\<rparr>) = fuzzing n s" "fuzzing n (s\<lparr>stage_max := x2\<rparr>) = fuzzing n s"
    "fuzzing n (s\<lparr>stage_name := x3\<rparr>) = fuzzing n s" "fuzzing n (s\<lparr>stage_short := x4\<rparr>) = fuzzing n s"
    "fuzzing n (s\<lparr>stage_cur_byte := x5\<rparr>) = fuzzing n s" "fuzzing n (s\<lparr>stage_cur_val := x6\<rparr>) = fuzzing n s"
    "fuzzing n (s\<lparr>stage_val_type := x7\<rparr>) = fuzzing n s" "fuzzing n (s\<lparr>stage_finds := x8\<rparr>) = fuzzing n s"
    "fuzzing n (s\<lparr>stage_cycles := x9\<rparr>) = fuzzing n s" "fuzzing n (s\<lparr>ticks := y1\<rparr>) = fuzzing n s"
    "fuzzing n (s\<lparr>blocks_eff_select := y2\<rparr>) = fuzzing n s" "fuzzing n (s\<lparr>blocks_eff_total := y3\<rparr>) = fuzzing n s"
    "fuzzing n (s\<lparr>a_extras := y4\<rparr>) = fuzzing n s" "fuzzing n (s\<lparr>auto_changed := y5\<rparr>) = fuzzing n s"
    "fuzzing n (s\<lparr>rand_seed := y6\<rparr>) = fuzzing n s" "fuzzing n (s\<lparr>rand_cnt := y7\<rparr>) = fuzzing n s"
    "fuzzing n (s\<lparr>urandom_reads := y8\<rparr>) = fuzzing n s"
  by (rule fuzzing_cong; simp)+

lemma fuzzing_mark [simp]: "fuzzing n (mark_as_det_done q s) = fuzzing n s"
proof -
  have sh: "shape (upd_entry q (\<lambda>e. e\<lparr>passed_det := True\<rparr>) s) = shape s" by (rule shape_upd_entry) (simp add: q_shape_def q_kept_def)
  have "q_len (entry (upd_entry q (\<lambda>e. e\<lparr>passed_det := True\<rparr>) s) i) = q_len (entry s i)" for i
    by (cases "q < length (queue_buf s)") (auto simp: upd_entry_def entry_def nth_list_update_if list_update_beyond)
  moreover have "mark_as_det_done q s = upd_entry q (\<lambda>e. e\<lparr>passed_det := True\<rparr>) s"
    by (simp add: mark_as_det_done_def upd_entry_def)
  ultimately show ?thesis using queue_inv_shape [OF sh]
    by (simp add: fuzzing_def sound_def) (simp add: upd_entry_def)
qed

locale fuzz_runner =
  fixes cfs :: runner and d :: bool
  assumes cfs_total: "cfs b n s = None \<Longrightarrow> \<not> keep_timeouts s \<Longrightarrow> d"
    and cfs_frame: "cfs b n s = Some (v, s') \<Longrightarrow> stage_frame s s'"
    and cfs_monotone: "cfs b n s = Some (v, s') \<Longrightarrow> set (delivered s) \<subseteq> set (delivered s')"
    and cfs_delivers: "cfs b n s = Some (v, s') \<Longrightarrow> length_ok n s \<Longrightarrow>
      set (delivered s') = insert (take n b) (set (delivered s))"
    and cfs_queue: "cfs b n s = Some (v, s') \<Longrightarrow> length_ok n s \<Longrightarrow> n \<le> MAX_FILE \<Longrightarrow> n \<le> length b \<Longrightarrow>
      queue_inv s \<Longrightarrow> queue_inv s'"
    and cfs_kept: "cfs b n s = Some (v, s') \<Longrightarrow> length_ok n s \<Longrightarrow> n \<le> MAX_FILE \<Longrightarrow> n \<le> length b \<Longrightarrow>
      q < length (queue_buf s) \<Longrightarrow> q < length (queue_buf s') \<and> q_kept (entry s' q) = q_kept (entry s q)"
    and cfs_truncates: "min_length s \<le> max_length s \<Longrightarrow> max_length s < n \<Longrightarrow> cfs b n s = cfs b (max_length s) s"
begin

lemma cfs_lengths:
  assumes "cfs b n s = Some (v, s')" and "length_ok n s" "n \<le> MAX_FILE" "n \<le> length b" and "q < length (queue_buf s)"
  shows "q < length (queue_buf s') \<and> q_len (entry s' q) = q_len (entry s q)"
  using cfs_kept [OF assms] by (simp add: q_kept_def)

lemma cfs_fuzzing:
  assumes run: "cfs b n s = Some (v, s')" and ok: "length_ok n s" "n \<le> MAX_FILE" "n \<le> length b"
    and f: "fuzzing m s"
  shows "fuzzing m s'"
proof -
  have "queue_inv s'" using cfs_queue [OF run ok] f by (simp add: fuzzing_def sound_def)
  moreover have "queue_cur s' = queue_cur s" using cfs_frame [OF run] by (simp add: stage_frame_def)
  moreover have "mutable (take n b)" using ok by (simp add: mutable_def length_ok_def)
  ultimately show ?thesis
    using f cfs_lengths [OF run ok, of "queue_cur s"] cfs_delivers [OF run ok(1)] by (auto simp: fuzzing_def sound_def)
qed

text \<open>A longer input is cut to the length allowed.\<close>

lemma cfs_fuzzing_cut:
  assumes run: "cfs b n s = Some (v, s')" and n: "k \<le> n" "n \<le> MAX_FILE" "n \<le> length b" and k: "length_ok k s"
    and f: "fuzzing m s"
  shows "fuzzing m s'"
proof (cases "n \<le> max_length s")
  case True
  then have "length_ok n s" using n k by (simp add: length_ok_def MAX_FILE_def)
  from cfs_fuzzing [OF run this n(2,3) f] show ?thesis .
next
  case False
  then have run': "cfs b (max_length s) s = Some (v, s')" using cfs_truncates [of s n b] run k by (simp add: length_ok_def)
  show ?thesis
    by (rule cfs_fuzzing [OF run' _ _ _ f]) (use n k False in \<open>simp_all add: length_ok_def MAX_FILE_def\<close>)
qed

end

section \<open>Rules for the helpers\<close>

lemma wp_helpers [simp]:
  "wp d skip Q st = Q Next st"
  "wp d (on_afl f) Q (s, l) = Q Next (f s, l)"
  "wp d (on_loc g) Q (s, l) = Q Next (s, g l)"
  "wp d (set_out h) Q (s, l) = Q Next (s, l\<lparr>out_buf := h (out_buf l)\<rparr>)"
  "wp d (begin_stage name short mx) Q (s, l) =
     Q Next (s\<lparr>stage_name := name, stage_short := short, stage_max := mx l\<rparr>, l)"
  "wp d hits_so_far Q (s, l) = Q Next (s, l\<lparr>orig_hit_cnt := new_hit_cnt l\<rparr>)"
  "wp d (end_stage k) Q (s, l) = Q Next
     (s\<lparr>stage_finds := (stage_finds s)(k := stage_finds s k + (hits s - orig_hit_cnt l)),
        stage_cycles := (stage_cycles s)(k := stage_cycles s k + ucast (stage_max s))\<rparr>,
      l\<lparr>new_hit_cnt := hits s\<rparr>)"
  "wp d inc_cur Q (s, l) = Q Next (s\<lparr>stage_cur := stage_cur s + 1\<rparr>, l)"
  "wp d dec_max Q (s, l) = Q Next (s\<lparr>stage_max := stage_max s - 1\<rparr>, l)"
  "wp d (set_cur c) Q (s, l) = Q Next (s\<lparr>stage_cur := c\<rparr>, l)"
  "wp d (set_byte i) Q (s, l) = Q Next (s\<lparr>stage_cur_byte := of_nat i\<rparr>, l)"
  "wp d (set_val_type t) Q (s, l) = Q Next (s\<lparr>stage_val_type := t\<rparr>, l)"
  "wp d (set_val v) Q (s, l) = Q Next (s\<lparr>stage_cur_val := v\<rparr>, l)"
  by (simp_all add: skip_def on_afl_def on_loc_def set_out_def begin_stage_def hits_so_far_def
      end_stage_def inc_cur_def dec_max_def set_cur_def set_byte_def set_val_type_def set_val_def)

lemma wp_check_timeout [simp]:
  "wp d (check_timeout w) Q (s, l) \<longleftrightarrow>
     Q (if clock_ms w (ticks s) - before_det_time l > MAX_DET_TIMEOUT then Custom_mutator_stage else Next)
       (s\<lparr>ticks := Suc (ticks s)\<rparr>, l)"
  by (simp add: wp_def check_timeout_def is_det_timeout_def get_cur_time_def)

lemma wp_if_effective:
  "wp d (if_effective w pos body) Q st \<longleftrightarrow>
     (if eff_map (snd st) ! pos st \<noteq> 0
      then wp d (check_timeout w) (andthen (wp d body Q) Q) st else Q Next st)"
  by (simp add: if_effective_def)

text \<open>
  What every stage keeps: the input \<open>b\<close> in both buffers, the effector map, the sorted
  dictionaries, the \<^verbatim>\<open>no_arith\<close> setting \<open>na\<close>, that everything in \<open>D\<close>
  has been delivered, and the soundness of the queue.
\<close>

definition dicts_ok :: "afl \<Rightarrow> bool" where
  "dicts_ok s \<longleftrightarrow> dict_ok s \<and> by_length (extras s) \<and> tokens_ok (extras s) \<and>
     (\<forall>e\<in>set (extras s). e_len e \<le> MAX_DICT_FILE)"

definition stage_inv :: "buf \<Rightarrow> buf \<Rightarrow> bool \<Rightarrow> buf set \<Rightarrow> fstate \<Rightarrow> bool" where
  "stage_inv b em na D st \<longleftrightarrow> (case st of (s, l) \<Rightarrow>
     out_buf l = b \<and> in_buf l = b \<and> l_len l = length b \<and> eff_map l = em \<and>
     length (a_collect l) = MAX_AUTO_EXTRA \<and>
     dicts_ok s \<and> length_ok (length b) s \<and> \<not> keep_timeouts s \<and> no_arith s = na \<and> D \<subseteq> set (delivered s) \<and>
     length b \<le> MAX_FILE \<and> fuzzing (length b) s)"

definition abandoned :: "nat \<Rightarrow> afl \<Rightarrow> bool" where
  "abandoned n s \<longleftrightarrow> fuzzing n s \<and> dicts_ok s"

text \<open>
  Leaving for the custom mutators, the input is restored as well. The other exits leave the
  fuzzer sound; there are no exits but these.
\<close>

definition exit_ok :: "buf \<Rightarrow> buf \<Rightarrow> bool \<Rightarrow> buf set \<Rightarrow> flow \<Rightarrow> fstate \<Rightarrow> bool" where
  "exit_ok b em na D f st \<longleftrightarrow> (case f of Custom_mutator_stage \<Rightarrow> stage_inv b em na D st
     | Next \<Rightarrow> True | Abandon_entry \<Rightarrow> abandoned (length b) (fst st) | Fatal \<Rightarrow> abandoned (length b) (fst st) | _ \<Rightarrow> False)"

lemma exit_ok_simps [simp]:
  "exit_ok b em na D Custom_mutator_stage st = stage_inv b em na D st"
  "exit_ok b em na D Abandon_entry (s, l) = abandoned (length b) s" "exit_ok b em na D Fatal (s, l) = abandoned (length b) s"
  "exit_ok b em na D Next st"
  by (simp_all add: exit_ok_def)

lemma stage_inv_mono: "stage_inv b em na D st \<Longrightarrow> E \<subseteq> D \<Longrightarrow> stage_inv b em na E st"
  by (auto simp: stage_inv_def split: prod.splits)

lemma exit_ok_mono: "exit_ok b em na D f st \<Longrightarrow> E \<subseteq> D \<Longrightarrow> exit_ok b em na E f st"
  by (cases f) (auto simp: exit_ok_def intro: stage_inv_mono)

text \<open>Updates of the fields the invariant does not mention.\<close>

lemma stage_inv_upd [simp]:
  "stage_inv b em na D (s\<lparr>stage_cur := c\<rparr>, l) = stage_inv b em na D (s, l)"
  "stage_inv b em na D (s\<lparr>stage_max := m\<rparr>, l) = stage_inv b em na D (s, l)"
  "stage_inv b em na D (s\<lparr>stage_name := n1\<rparr>, l) = stage_inv b em na D (s, l)"
  "stage_inv b em na D (s\<lparr>stage_short := n2\<rparr>, l) = stage_inv b em na D (s, l)"
  "stage_inv b em na D (s\<lparr>stage_cur_byte := cb\<rparr>, l) = stage_inv b em na D (s, l)"
  "stage_inv b em na D (s\<lparr>stage_cur_val := cv\<rparr>, l) = stage_inv b em na D (s, l)"
  "stage_inv b em na D (s\<lparr>stage_val_type := vt\<rparr>, l) = stage_inv b em na D (s, l)"
  "stage_inv b em na D (s\<lparr>stage_finds := sf\<rparr>, l) = stage_inv b em na D (s, l)"
  "stage_inv b em na D (s\<lparr>stage_cycles := sc\<rparr>, l) = stage_inv b em na D (s, l)"
  "stage_inv b em na D (s\<lparr>ticks := tk\<rparr>, l) = stage_inv b em na D (s, l)"
  "stage_inv b em na D (s\<lparr>blocks_eff_select := e1\<rparr>, l) = stage_inv b em na D (s, l)"
  "stage_inv b em na D (s\<lparr>blocks_eff_total := e2\<rparr>, l) = stage_inv b em na D (s, l)"
  "stage_inv b em na D (s, l\<lparr>orig_hit_cnt := h1\<rparr>) = stage_inv b em na D (s, l)"
  "stage_inv b em na D (s, l\<lparr>new_hit_cnt := h2\<rparr>) = stage_inv b em na D (s, l)"
  "stage_inv b em na D (s, l\<lparr>prev_cksum := p1\<rparr>) = stage_inv b em na D (s, l)"
  "stage_inv b em na D (s, l\<lparr>first_cksum := p2\<rparr>) = stage_inv b em na D (s, l)"
  "stage_inv b em na D (s, l\<lparr>a_len := al\<rparr>) = stage_inv b em na D (s, l)"
  "stage_inv b em na D (s, l\<lparr>ex_tmp := ex\<rparr>) = stage_inv b em na D (s, l)"
  "stage_inv b em na D (s, l\<lparr>last_len := ll\<rparr>) = stage_inv b em na D (s, l)"
  by (simp_all add: stage_inv_def dicts_ok_def dict_ok_def length_ok_def)

lemma stage_inv_mark [simp]: "stage_inv b em na D (mark_as_det_done q s, l) = stage_inv b em na D (s, l)"
proof -
  have "extras (mark_as_det_done q s) = extras s" "a_extras (mark_as_det_done q s) = a_extras s"
    "min_length (mark_as_det_done q s) = min_length s" "max_length (mark_as_det_done q s) = max_length s"
    "keep_timeouts (mark_as_det_done q s) = keep_timeouts s" "no_arith (mark_as_det_done q s) = no_arith s"
    "delivered (mark_as_det_done q s) = delivered s"
    by (simp_all add: mark_as_det_done_def)
  then show ?thesis by (simp add: stage_inv_def dicts_ok_def dict_ok_def length_ok_def)
qed

lemma stage_inv_fuzzing: "stage_inv b em na D (s, l) \<Longrightarrow> abandoned (length b) s"
  by (simp add: stage_inv_def abandoned_def)

lemma stage_inv_out: "stage_inv b em na D (s, l) \<Longrightarrow> out_buf l = b"
  by (simp add: stage_inv_def)

lemma stage_inv_len: "stage_inv b em na D (s, l) \<Longrightarrow> l_len l = length b"
  by (simp add: stage_inv_def)

lemma stage_inv_eff: "stage_inv b em na D (s, l) \<Longrightarrow> eff_map l = em"
  by (simp add: stage_inv_def)

context fuzz_runner
begin

text \<open>
  The run of one candidate. The invariant is about the buffer once it is restored; the
  candidate in \<open>out_buf\<close> has been delivered afterwards.
\<close>

lemma wp_fuzz_out:
  assumes inv: "stage_inv b em na D (s, l\<lparr>out_buf := b\<rparr>)" and len: "length (out_buf l) = length b"
    and Q: "\<And>v s'. stage_frame s s' \<Longrightarrow> stage_inv b em na (insert (out_buf l) D) (s', l\<lparr>out_buf := b\<rparr>) \<Longrightarrow>
      Q (case v of Ret0 \<Rightarrow> Next | Ret1 \<Rightarrow> Abandon_entry | Died \<Rightarrow> Fatal) (s', l)"
  shows "wp d (fuzz_out cfs) Q (s, l)"
proof (cases "cfs (out_buf l) (l_len l) s")
  case None
  moreover have "\<not> keep_timeouts s" using inv by (simp add: stage_inv_def)
  ultimately show ?thesis using cfs_total [OF None] by (simp add: wp_def fuzz_out_def fuzz_with_def)
next
  case (Some r)
  obtain v s' where r: "r = (v, s')" by (cases r)
  have ok: "length_ok (l_len l) s" and l: "l_len l = length (out_buf l)"
    using inv len by (simp_all add: stage_inv_def)
  have fr: "stage_frame s s'" using cfs_frame Some r by blast
  have "set (delivered s') = insert (out_buf l) (set (delivered s))"
    using cfs_delivers [OF _ ok] Some r l by simp
  moreover have "fuzzing (length b) s'"
    using cfs_fuzzing [OF _ ok] Some inv len r l by (simp add: stage_inv_def)
  ultimately have "stage_inv b em na (insert (out_buf l) D) (s', l\<lparr>out_buf := b\<rparr>)"
    using inv fr by (auto simp: stage_inv_def dicts_ok_def dict_ok_def length_ok_def stage_frame_def)
  then show ?thesis
    using Q [OF fr, of v] Some by (simp add: wp_def fuzz_out_def fuzz_with_def r)
qed

end

section \<open>The walking stages\<close>

definition flips :: "nat \<Rightarrow> nat \<Rightarrow> buf \<Rightarrow> buf" where
  "flips k p b = fold (\<lambda>j b. FLIP_BIT b (p + j)) [0..<k] b"

lemma length_flips [simp]: "length (flips k p b) = length b"
  by (induction k) (simp_all add: flips_def)

lemma FLIP_BIT_flips: "FLIP_BIT (flips k p b) a = flips k p (FLIP_BIT b a)"
  by (induction k) (simp_all add: flips_def FLIP_BIT_commute)

lemma flips_twice [simp]: "flips k p (flips k p b) = b"
proof (induction k arbitrary: b)
  case (Suc k)
  have step: "flips (Suc k) p b = FLIP_BIT (flips k p b) (p + k)" for b
    by (simp add: flips_def)
  show ?case
    by (simp only: step FLIP_BIT_flips [symmetric] Suc FLIP_BIT_twice)
qed (simp add: flips_def)

lemma wp_flip_bits [simp]:
  "wp d (flip_bits k) Q (s, l) = Q Next (s, l\<lparr>out_buf := flips k (unat (stage_cur s)) (out_buf l)\<rparr>)"
  by (simp add: flip_bits_def flips_def)

text \<open>A \<^verbatim>\<open>stage_cur\<close> loop whose body keeps an invariant over the positions done.\<close>

lemma wp_for_stage_cur:
  assumes I0: "stage_max s = of_nat M" "M < 2 ^ 32" "I 0 (s\<lparr>stage_cur := 0\<rparr>, l)"
    and step: "\<And>p s l. p < M \<Longrightarrow> stage_cur s = of_nat p \<Longrightarrow> stage_max s = of_nat M \<Longrightarrow> I p (s, l) \<Longrightarrow>
      wp d body (andthen (\<lambda>(s', l'). stage_cur s' = of_nat p \<and> stage_max s' = of_nat M \<and>
        I (Suc p) (s'\<lparr>stage_cur := of_nat (Suc p)\<rparr>, l')) Q) (s, l)"
    and Q: "\<And>st. I M st \<Longrightarrow> Q Next st"
  shows "wp d (for_stage_cur body) Q (s, l)"
proof -
  let ?J = "\<lambda>(s, l). stage_max s = of_nat M \<and> unat (stage_cur s) \<le> M \<and> I (unat (stage_cur s)) (s, l)"
  have M: "unat (of_nat M :: u32) = M" using I0(2) by (simp add: unat_of_nat take_bit_nat_eq_self)
  have "wp d (while_cmd (\<lambda>(s, l). stage_cur s < stage_max s) (steps [body, inc_cur])) Q (s\<lparr>stage_cur := 0\<rparr>, l)"
  proof (rule wp_while [where I = ?J and m = "\<lambda>(s, l). M - unat (stage_cur s)"])
    show "?J (s\<lparr>stage_cur := 0\<rparr>, l)" using I0 by simp
  next
    fix st assume J: "?J st" and lt: "(\<lambda>(s, l). stage_cur s < stage_max s) st"
    obtain s l where st: "st = (s, l)" by (cases st)
    define p where "p = unat (stage_cur s)"
    have p: "stage_cur s = of_nat p" "p < M" using lt J M by (simp_all add: st p_def word_less_nat_alt)
    have Suc: "unat (of_nat (Suc p) :: u32) = Suc p"
      using p(2) I0(2) by (intro unat_of_nat_small) simp
    have "wp d body (andthen (\<lambda>(s', l'). stage_cur s' = of_nat p \<and> stage_max s' = of_nat M \<and>
        I (Suc p) (s'\<lparr>stage_cur := of_nat (Suc p)\<rparr>, l')) Q) (s, l)"
      by (rule step) (use p J in \<open>simp_all add: st p_def\<close>)
    then show "wp d (steps [body, inc_cur])
        (andthen (\<lambda>st'. ?J st' \<and> (\<lambda>(s, l). M - unat (stage_cur s)) st' < (\<lambda>(s, l). M - unat (stage_cur s)) st) Q) st"
      unfolding st wp_Cons wp_single
    proof (rule wp_mono)
      fix f st'
      assume a: "andthen (\<lambda>(s', l'). stage_cur s' = of_nat p \<and> stage_max s' = of_nat M \<and>
        I (Suc p) (s'\<lparr>stage_cur := of_nat (Suc p)\<rparr>, l')) Q f st'"
      obtain s' l' where st': "st' = (s', l')" by (cases st')
      show "andthen (wp d inc_cur (andthen (\<lambda>st'. ?J st' \<and>
            (\<lambda>(s, l). M - unat (stage_cur s)) st' < (\<lambda>(s, l). M - unat (stage_cur s)) (s, l)) Q))
          (andthen (\<lambda>st'. ?J st' \<and>
            (\<lambda>(s, l). M - unat (stage_cur s)) st' < (\<lambda>(s, l). M - unat (stage_cur s)) (s, l)) Q) f st'"
      proof (cases "f = Next")
        case True
        have "stage_cur s' + 1 = of_nat (Suc p)" using a True by (simp add: st' add.commute)
        then show ?thesis using a True p(2) Suc by (simp add: st' p_def [symmetric] del: of_nat_Suc)
      qed (use a in simp)
    qed
  next
    fix st assume J: "?J st" and ge: "\<not> (\<lambda>(s, l). stage_cur s < stage_max s) st"
    obtain s l where st: "st = (s, l)" by (cases st)
    have "unat (stage_cur s) = M" using J ge M by (simp add: st word_less_nat_alt)
    then show "Q Next st" using J Q by (simp add: st)
  qed
  then show ?thesis by (simp add: for_stage_cur_def)
qed

text \<open>The inputs a walking-bit stage delivers.\<close>

definition walk_set :: "nat \<Rightarrow> buf \<Rightarrow> buf \<Rightarrow> nat \<Rightarrow> buf set" where
  "walk_set k b em M = {flips k p b | p. p < M \<and> em ! (p div 8) \<noteq> 0}"

lemma walk_set_0 [simp]: "walk_set k b em 0 = {}"
  by (simp add: walk_set_def)

lemma walk_set_Suc:
  "walk_set k b em (Suc p) = (if em ! (p div 8) \<noteq> 0 then insert (flips k p b) (walk_set k b em p)
     else walk_set k b em p)"
  by (auto simp: walk_set_def less_Suc_eq)

lemma unat_drop_bit_3: "p < 2 ^ 32 \<Longrightarrow> unat (drop_bit 3 (of_nat p :: u32)) = p div 8"
  by (simp only: unat_drop_bit_eq) (simp add: unat_of_nat_small drop_bit_eq_div)

lemma stage_inv_restore: "stage_inv b em na D (s, l) \<Longrightarrow> l\<lparr>out_buf := b\<rparr> = l"
  by (simp add: stage_inv_def)

text \<open>The state a candidate's bookkeeping leaves.\<close>

definition counters :: "afl \<Rightarrow> u32 \<Rightarrow> u32 \<Rightarrow> bool" where
  "counters s c m \<longleftrightarrow> stage_cur s = c \<and> stage_max s = m"

lemma stage_frame_counters: "stage_frame s s' \<Longrightarrow> stage_cur s' = stage_cur s \<and> stage_max s' = stage_max s"
  by (simp add: stage_frame_def)

text \<open>Loops over a local index, and the skip over bytes without effect.\<close>

lemma wp_collect_range:
  assumes "stage_inv b em na D st" and "lo \<le> hi"
    and "\<And>i E st. lo \<le> i \<Longrightarrow> i < hi \<Longrightarrow> D \<subseteq> E \<Longrightarrow> stage_inv b em na E st \<Longrightarrow>
      wp d (c i) (andthen (stage_inv b em na (E \<union> C i)) (exit_ok b em na D)) st"
  shows "wp d (for_range lo hi c) (andthen (stage_inv b em na (D \<union> (\<Union>i\<in>{lo..<hi}. C i))) (exit_ok b em na D)) st"
proof (rule wp_for_range [where I = "\<lambda>i. stage_inv b em na (D \<union> (\<Union>k\<in>{lo..<i}. C k))"])
  fix i st
  assume i: "lo \<le> i" "i < hi" and I: "stage_inv b em na (D \<union> (\<Union>k\<in>{lo..<i}. C k)) st"
  have "wp d (c i) (andthen (stage_inv b em na (D \<union> (\<Union>k\<in>{lo..<i}. C k) \<union> C i)) (exit_ok b em na D)) st"
    by (rule assms(3)) (use i I in auto)
  moreover have "D \<union> (\<Union>k\<in>{lo..<i}. C k) \<union> C i = D \<union> (\<Union>k\<in>{lo..<Suc i}. C k)"
    using i(1) by (auto simp: atLeastLessThanSuc)
  ultimately show "wp d (c i) (andthen (stage_inv b em na (D \<union> (\<Union>k\<in>{lo..<Suc i}. C k)))
      (andthen (stage_inv b em na (D \<union> (\<Union>i\<in>{lo..<hi}. C i))) (exit_ok b em na D))) st"
    by simp
qed (use assms in simp_all)

lemma wp_if_effective_inv:
  assumes inv: "stage_inv b em na E (s, l)" and sub: "D \<subseteq> E"
    and body: "\<And>s. em ! i \<noteq> 0 \<Longrightarrow> stage_inv b em na E (s, l) \<Longrightarrow>
      wp d body (andthen (stage_inv b em na (E \<union> C)) (exit_ok b em na D)) (s, l)"
  shows "wp d (if_effective w (\<lambda>_. i) body)
    (andthen (stage_inv b em na (E \<union> (if em ! i \<noteq> 0 then C else {}))) (exit_ok b em na D)) (s, l)"
proof (cases "em ! i = 0")
  case True
  then show ?thesis using inv by (simp add: wp_if_effective stage_inv_eff [OF inv])
next
  case False
  have "stage_inv b em na E (s\<lparr>ticks := Suc (ticks s)\<rparr>, l)" using inv by simp
  from body [OF False this] show ?thesis
    using False stage_inv_mono [OF inv sub]
    by (simp add: wp_if_effective stage_inv_eff [OF inv])
qed

text \<open>
  Between a candidate and the restoration of the buffer: what is in the buffer is the input
  with one of the values \<open>put v\<close>.
\<close>

definition touched :: "('v \<Rightarrow> buf \<Rightarrow> buf) \<Rightarrow> buf \<Rightarrow> buf \<Rightarrow> bool \<Rightarrow> buf set \<Rightarrow> fstate \<Rightarrow> bool" where
  "touched put b em na D st \<longleftrightarrow> (case st of (s, l) \<Rightarrow>
     (out_buf l = b \<or> (\<exists>v. out_buf l = put v b)) \<and> stage_inv b em na D (s, l\<lparr>out_buf := b\<rparr>))"

definition overlay :: "('v \<Rightarrow> buf \<Rightarrow> buf) \<Rightarrow> buf \<Rightarrow> bool" where
  "overlay put b \<longleftrightarrow> (\<forall>v w. put w (put v b) = put w b) \<and> (\<forall>v. length (put v b) = length b)"

lemma touched_start: "stage_inv b em na D st \<Longrightarrow> touched put b em na D st"
  by (cases st) (simp add: touched_def stage_inv_out stage_inv_restore)

lemma overlay_put8: "overlay (\<lambda>v b. b[i := v]) b"
  by (simp add: overlay_def)

lemma overlay_put16: "overlay (\<lambda>v b. store16 b i v) b"
  by (simp add: overlay_def)

lemma overlay_put32: "overlay (\<lambda>v b. store32 b i v) b"
  by (simp add: overlay_def)

definition edits :: "fstate cmd \<Rightarrow> (buf \<Rightarrow> buf) \<Rightarrow> bool" where
  "edits edit f \<longleftrightarrow> (\<forall>s l. \<exists>s'. edit (s, l) = Some (Next, s', l\<lparr>out_buf := f (out_buf l)\<rparr>) \<and>
     (\<forall>b em na D l. stage_inv b em na D (s', l) = stage_inv b em na D (s, l)))"

context fuzz_runner
begin

lemma wp_walking_bits:
  assumes inv: "stage_inv b em na D (s, l)" and M: "stage_max s = of_nat M" "M \<le> 8 * length b"
    and size: "length b \<le> MAX_FILE"
    and after: "\<And>E s l. stage_inv b em na E (s, l) \<Longrightarrow> D \<subseteq> E \<Longrightarrow>
      wp d after (andthen (\<lambda>(s', l'). stage_inv b em na E (s', l') \<and> stage_cur s' = stage_cur s \<and>
        stage_max s' = stage_max s) (exit_ok b em na D)) (s, l)"
  shows "wp d (walking_bits w cfs k after)
    (andthen (stage_inv b em na (D \<union> walk_set k b em M)) (exit_ok b em na D)) (s, l)"
  unfolding walking_bits_def
proof (rule wp_for_stage_cur [where M = M and I = "\<lambda>p. stage_inv b em na (D \<union> walk_set k b em p)"])
  show M32: "M < 2 ^ 32" using M(2) size by (simp add: MAX_FILE_def)
  fix p s l
  assume p: "p < M" "stage_cur s = of_nat p" "stage_max s = of_nat M"
    and I: "stage_inv b em na (D \<union> walk_set k b em p) (s, l)"
  let ?R = "andthen (\<lambda>(s', l'). stage_cur s' = of_nat p \<and> stage_max s' = of_nat M \<and>
      stage_inv b em na (D \<union> walk_set k b em (Suc p)) (s'\<lparr>stage_cur := of_nat (Suc p)\<rparr>, l'))
    (andthen (stage_inv b em na (D \<union> walk_set k b em M)) (exit_ok b em na D))"
  have pos: "unat (drop_bit 3 (of_nat p :: u32)) = p div 8" "unat (of_nat p :: u32) = p"
    using p(1) M32 by (simp_all add: unat_drop_bit_3 unat_of_nat_small)
  have D: "exit_ok b em na D f st" if "exit_ok b em na (D \<union> E) f st" for E f st
    using that by (rule exit_ok_mono) simp
  let ?s1 = "s\<lparr>stage_cur_byte := drop_bit 3 (of_nat p), ticks := Suc (ticks s)\<rparr>"
  have I1: "stage_inv b em na (D \<union> walk_set k b em p) (?s1, l)" using I by simp
  have out: "out_buf l = b" using I by (rule stage_inv_out)
  have run: "wp d (steps [flip_bits k, fuzz_out cfs, flip_bits k, after]) ?R (?s1, l)" if "em ! (p div 8) \<noteq> 0"
  proof -
    have "wp d (fuzz_out cfs) (andthen (wp d (steps [flip_bits k, after]) ?R) ?R)
        (?s1, l\<lparr>out_buf := flips k p b\<rparr>)"
    proof (rule wp_fuzz_out [where b = b and em = em and D = "D \<union> walk_set k b em p"])
      show "stage_inv b em na (D \<union> walk_set k b em p) (?s1, l\<lparr>out_buf := flips k p b, out_buf := b\<rparr>)"
        using I1 stage_inv_restore [OF I1] by simp
    next
      fix v s'
      let ?l1 = "l\<lparr>out_buf := flips k p b\<rparr>"
      assume fr: "stage_frame ?s1 s'"
        and "stage_inv b em na (insert (out_buf ?l1) (D \<union> walk_set k b em p)) (s', ?l1\<lparr>out_buf := b\<rparr>)"
      then have I2: "stage_inv b em na (D \<union> walk_set k b em (Suc p)) (s', l\<lparr>out_buf := b\<rparr>)"
        using that by (simp add: walk_set_Suc)
      have c: "stage_cur s' = of_nat p" "stage_max s' = of_nat M"
        using stage_frame_counters [OF fr] p by simp_all
      have "wp d after ?R (s', l\<lparr>out_buf := b\<rparr>)"
        by (rule wp_mono [OF after [OF I2]]) (auto simp: andthen_def c split: if_splits)
      then show "andthen (wp d (steps [flip_bits k, after]) ?R) ?R
          (case v of Ret0 \<Rightarrow> Next | Ret1 \<Rightarrow> Abandon_entry | Died \<Rightarrow> Fatal) (s', ?l1)"
        using stage_inv_fuzzing [OF I2] by (cases v) (simp_all add: c pos)
    qed simp
    then show ?thesis by (simp add: p(2) pos out)
  qed
  show "wp d (steps [on_afl (\<lambda>s. s\<lparr>stage_cur_byte := drop_bit 3 (stage_cur s)\<rparr>),
      if_effective w (\<lambda>(s, l). unat (stage_cur_byte s))
        (steps [flip_bits k, fuzz_out cfs, flip_bits k, after])]) ?R (s, l)"
    using run I I1 p pos
    by (simp add: wp_if_effective stage_inv_eff [OF I] walk_set_Suc stage_inv_mono)
qed (use assms in simp_all)

lemma wp_attempt:
  assumes t: "touched put b em na E (s, l)" and ov: "overlay put b" and sub: "D \<subseteq> E"
    and edit: "edits edit (put v)"
  shows "wp d (attempt cfs ok edit)
    (andthen (touched put b em na (E \<union> (if ok then {put v b} else {}))) (exit_ok b em na D)) (s, l)"
proof (cases ok)
  case False
  then show ?thesis using t by (simp add: attempt_def touched_def)
next
  case True
  let ?Q = "andthen (touched put b em na (E \<union> {put v b})) (exit_ok b em na D)"
  have put: "put v (out_buf l) = put v b" using t ov by (auto simp: touched_def overlay_def)
  obtain s1 where s1: "edit (s, l) = Some (Next, s1, l\<lparr>out_buf := put v (out_buf l)\<rparr>)"
    and g: "\<And>b em na D l. stage_inv b em na D (s1, l) = stage_inv b em na D (s, l)"
    using edit unfolding edits_def by metis
  have wp: "wp d edit R (s, l) = R Next (s1, l\<lparr>out_buf := put v b\<rparr>)" for R
    using s1 put by (simp add: wp_def)
  let ?l1 = "l\<lparr>out_buf := put v b\<rparr>"
  have "wp d (fuzz_out cfs) (andthen (wp d inc_cur ?Q) ?Q) (s1, ?l1)"
  proof (rule wp_fuzz_out [where b = b and em = em and D = E])
    show "stage_inv b em na E (s1, ?l1\<lparr>out_buf := b\<rparr>)" using t g by (simp add: touched_def)
    show "length (out_buf ?l1) = length b" using ov by (simp add: overlay_def)
  next
    fix r s'
    assume I: "stage_inv b em na (insert (out_buf ?l1) E) (s', ?l1\<lparr>out_buf := b\<rparr>)"
    then have "touched put b em na (E \<union> {put v b}) (s'\<lparr>stage_cur := stage_cur s' + 1\<rparr>, ?l1)"
      by (auto simp: touched_def)
    then show "andthen (wp d inc_cur ?Q) ?Q
        (case r of Ret0 \<Rightarrow> Next | Ret1 \<Rightarrow> Abandon_entry | Died \<Rightarrow> Fatal) (s', ?l1)"
      using stage_inv_fuzzing [OF I] by (cases r) simp_all
  qed
  then show ?thesis using True by (simp add: attempt_def wp)
qed

end

lemma edits_puts:
  "edits (put8 i v8 val) (\<lambda>b. b[i := v8])"
  "edits (put16 i v16 val) (\<lambda>b. store16 b i v16)"
  "edits (put32 i v32 val) (\<lambda>b. store32 b i v32)"
  "edits (steps [set_val_type t, set_out h]) h"
  by (simp_all add: edits_def put8_def put16_def put32_def steps.simps set_val_def set_out_def
      set_val_type_def on_afl_def on_loc_def upd_def)

lemma touched_upd [simp]:
  "touched put b em na D (s\<lparr>stage_val_type := t\<rparr>, l) = touched put b em na D (s, l)"
  "touched put b em na D (s\<lparr>stage_cur_val := v\<rparr>, l) = touched put b em na D (s, l)"
  "touched put b em na D (s\<lparr>stage_cur := c\<rparr>, l) = touched put b em na D (s, l)"
  "touched put b em na D (s\<lparr>stage_max := m\<rparr>, l) = touched put b em na D (s, l)"
  by (simp_all add: touched_def)

lemma touched_mono: "touched put b em na D st \<Longrightarrow> E \<subseteq> D \<Longrightarrow> touched put b em na E st"
  by (auto simp: touched_def intro: stage_inv_mono split: prod.splits)

text \<open>Writing the old value back restores the input.\<close>

lemma touched_restore:
  assumes "touched put b em na D (s, l)" and "overlay put b" and "put v b = b"
  shows "stage_inv b em na D (s, l\<lparr>out_buf := put v (out_buf l)\<rparr>)"
proof -
  have "put v (out_buf l) = b" using assms by (auto simp: touched_def overlay_def)
  then show ?thesis using assms(1) by (simp add: touched_def)
qed

text \<open>The values an 8-bit step tries, and the inputs the 8-bit stages deliver.\<close>

definition arith8_set :: "buf \<Rightarrow> nat \<Rightarrow> nat \<Rightarrow> buf set" where
  "arith8_set b i j = {b[i := v] | v. (v = b ! i + of_nat j \<or> v = b ! i - of_nat j) \<and>
     \<not> could_be_bitflip (ucast (b ! i XOR v))}"

definition interest8_set :: "buf \<Rightarrow> nat \<Rightarrow> buf set" where
  "interest8_set b i = {b[i := v] | v. v \<in> set interesting_8 \<and> \<not> could_be_bitflip (ucast (b ! i XOR v)) \<and>
     \<not> could_be_arith (ucast (b ! i)) (ucast v) 1}"

context fuzz_runner
begin

lemma wp_arith8_step:
  assumes "stage_inv b em na E st" and "D \<subseteq> E" and i: "i < length b"
  shows "wp d (arith8_step cfs i (b ! i) j) (andthen (stage_inv b em na (E \<union> arith8_set b i j)) (exit_ok b em na D)) st"
proof -
  obtain s l where st: "st = (s, l)" by (cases st)
  let ?put = "\<lambda>v b. b[i := v :: u8]"
  let ?ok = "\<lambda>v. \<not> could_be_bitflip (ucast (b ! i XOR v))"
  let ?up = "b ! i + of_nat j" and ?dn = "b ! i - of_nat j"
  let ?E1 = "E \<union> (if ?ok ?up then {?put ?up b} else {})"
  let ?E2 = "?E1 \<union> (if ?ok ?dn then {?put ?dn b} else {})"
  have E2: "?E2 = E \<union> arith8_set b i j" by (auto simp: arith8_set_def)
  let ?Q = "andthen (stage_inv b em na (E \<union> arith8_set b i j)) (exit_ok b em na D)"
  note step = wp_attempt [OF _ overlay_put8 _ edits_puts(1)]
  show ?thesis
    unfolding arith8_step_def st
  proof (rule wp_seq [where R = "touched ?put b em na ?E1"])
    show "wp d (attempt cfs (?ok ?up) (put8 i ?up (of_nat j))) (andthen (touched ?put b em na ?E1) ?Q) (s, l)"
      using step [OF touched_start [OF assms(1) [unfolded st]] assms(2)] by simp
  next
    fix st assume t: "touched ?put b em na ?E1 st"
    show "wp d (steps [attempt cfs (?ok ?dn) (put8 i ?dn (- of_nat j)), set_out (?put (b ! i))]) ?Q st"
    proof (rule wp_seq [where R = "touched ?put b em na ?E2"])
      have "D \<subseteq> ?E1" using assms(2) by blast
      from step [OF _ this] t
      show "wp d (attempt cfs (?ok ?dn) (put8 i ?dn (- of_nat j))) (andthen (touched ?put b em na ?E2) ?Q) st"
        by (cases st) simp
    next
      fix st assume "touched ?put b em na ?E2 st"
      then show "wp d (steps [set_out (?put (b ! i))]) ?Q st"
        using touched_restore [OF _ overlay_put8, of i b em na ?E2 "fst st" "snd st" "b ! i"] i
        by (cases st) (simp add: E2)
    qed
  qed
qed

lemma wp_interest8_step:
  assumes inv: "stage_inv b em na E (s, l)" and sub: "D \<subseteq> E" and i: "i < length b"
  shows "wp d (interest8_step cfs i (b ! i) v)
    (andthen (stage_inv b em na (E \<union> (if could_be_bitflip (ucast (b ! i XOR v)) \<or>
        could_be_arith (ucast (b ! i)) (ucast v) 1 then {} else {b[i := v]}))) (exit_ok b em na D)) (s, l)"
proof (cases "could_be_bitflip (ucast (b ! i XOR v)) \<or> could_be_arith (ucast (b ! i)) (ucast v) 1")
  case True
  then show ?thesis using inv by (simp add: interest8_step_def)
next
  case False
  let ?Q = "andthen (stage_inv b em na (insert (b[i := v]) E)) (exit_ok b em na D)"
  let ?s1 = "s\<lparr>stage_cur_val := scast v\<rparr>" and ?l1 = "l\<lparr>out_buf := b[i := v]\<rparr>"
  have out: "out_buf l = b" and l: "l\<lparr>out_buf := b\<rparr> = l"
    using inv by (simp_all add: stage_inv_out stage_inv_restore)
  have "wp d (fuzz_out cfs) (andthen (wp d (steps [set_out (\<lambda>x. x[i := b ! i]), inc_cur]) ?Q) ?Q) (?s1, ?l1)"
  proof (rule wp_fuzz_out [where b = b and em = em and D = E])
    show "stage_inv b em na E (?s1, ?l1\<lparr>out_buf := b\<rparr>)" using inv l by simp
  next
    fix r s'
    assume "stage_inv b em na (insert (out_buf ?l1) E) (s', ?l1\<lparr>out_buf := b\<rparr>)"
    then show "andthen (wp d (steps [set_out (\<lambda>x. x[i := b ! i]), inc_cur]) ?Q) ?Q
        (case r of Ret0 \<Rightarrow> Next | Ret1 \<Rightarrow> Abandon_entry | Died \<Rightarrow> Fatal) (s', ?l1)"
      by (cases r) (simp_all add: stage_inv_fuzzing)
  qed simp
  then show ?thesis using False by (simp add: interest8_step_def put8_def out)
qed

lemma attempt_keep:
  assumes "touched put b em na E st" and "overlay put b" and "edits edit (put v)"
  shows "wp d (attempt cfs ok edit) (andthen (touched put b em na E) (andthen R (exit_ok b em na E))) st"
proof (cases st)
  case (Pair s l)
  have "touched put b em na E (s, l)" using assms(1) Pair by simp
  from wp_attempt [OF this assms(2) order_refl assms(3), of ok] show ?thesis
    unfolding Pair andthen_absorb
    by (rule wp_mono) (auto simp: andthen_def intro: touched_mono split: if_splits)
qed

lemma wp_arith16_step:
  assumes inv: "stage_inv b em na E st" and i: "i + 1 < length b"
  shows "wp d (arith16_step cfs i (load16 b i) n) (andthen (stage_inv b em na E) (exit_ok b em na E)) st"
proof -
  let ?T = "touched (\<lambda>v b. store16 b i v) b em na E"
  have keep: "wp d (set_val_type t) (andthen ?T Q) st" if "?T st" for t Q st
    using that by (cases st) simp
  have restore: "wp d (steps [set_out (\<lambda>x. store16 x i (load16 b i))]) (andthen (stage_inv b em na E) Q) st"
    if "?T st" for Q st
    using that touched_restore [OF _ overlay_put16, of i b em na E "fst st" "snd st" "load16 b i"] i
    by (cases st) simp
  note att = attempt_keep [OF _ overlay_put16 edits_puts(2)]
  show ?thesis
    unfolding arith16_step_def Let_def
    by (rule wp_seq [OF keep] wp_seq [OF att] restore touched_start [OF inv] | assumption)+
qed

lemma wp_arith32_step:
  assumes inv: "stage_inv b em na E st" and i: "i + 3 < length b"
  shows "wp d (arith32_step cfs i (load32 b i) n) (andthen (stage_inv b em na E) (exit_ok b em na E)) st"
proof -
  let ?T = "touched (\<lambda>v b. store32 b i v) b em na E"
  have keep: "wp d (set_val_type t) (andthen ?T Q) st" if "?T st" for t Q st
    using that by (cases st) simp
  have restore: "wp d (steps [set_out (\<lambda>x. store32 x i (load32 b i))]) (andthen (stage_inv b em na E) Q) st"
    if "?T st" for Q st
    using that touched_restore [OF _ overlay_put32, of i b em na E "fst st" "snd st" "load32 b i"] i
    by (cases st) simp
  note att = attempt_keep [OF _ overlay_put32 edits_puts(3)]
  show ?thesis
    unfolding arith32_step_def Let_def
    by (rule wp_seq [OF keep] wp_seq [OF att] restore touched_start [OF inv] | assumption)+
qed

lemma wp_interest16_step:
  assumes t: "touched (\<lambda>v b. store16 b i v) b em na E st"
  shows "wp d (interest16_step cfs i orig v) (andthen (touched (\<lambda>v b. store16 b i v) b em na E) (exit_ok b em na E)) st"
proof -
  let ?T = "touched (\<lambda>v b. store16 b i v) b em na E"
  have keep: "wp d (set_val x) (andthen ?T Q) st" if "?T st" for x Q st
    using that by (cases st) simp
  note att = attempt_keep [OF _ overlay_put16 edits_puts(4)]
  show ?thesis
    unfolding interest16_step_def Let_def
    by (rule wp_seq [OF keep] wp_seq [OF att] t | assumption | simp only: wp_Nil andthen_simps)+
qed

lemma wp_interest32_step:
  assumes t: "touched (\<lambda>v b. store32 b i v) b em na E st"
  shows "wp d (interest32_step cfs i orig v) (andthen (touched (\<lambda>v b. store32 b i v) b em na E) (exit_ok b em na E)) st"
proof -
  let ?T = "touched (\<lambda>v b. store32 b i v) b em na E"
  have keep: "wp d (set_val x) (andthen ?T Q) st" if "?T st" for x Q st
    using that by (cases st) simp
  note att = attempt_keep [OF _ overlay_put32 edits_puts(4)]
  show ?thesis
    unfolding interest32_step_def Let_def
    by (rule wp_seq [OF keep] wp_seq [OF att] t | assumption | simp only: wp_Nil andthen_simps)+
qed

end

definition dict_only :: "'a dict_state_scheme \<Rightarrow> 'a dict_state_scheme \<Rightarrow> bool" where
  "dict_only s s' \<longleftrightarrow> (\<exists>seed c u ch xs. s' = s\<lparr>rand_seed := seed, rand_cnt := c, urandom_reads := u,
     a_extras := xs, auto_changed := ch\<rparr>)"

lemma maybe_add_auto_only:
  assumes "maybe_add_auto w mem n s = Some s'"
  shows "dict_only s s'"
proof -
  have same: "dict_only s (s\<lparr>auto_changed := True, a_extras := xs\<rparr>)" for xs
    unfolding dict_only_def
    by (intro exI [of _ "rand_seed s"] exI [of _ "rand_cnt s"] exI [of _ "urandom_reads s"] exI [of _ True]
        exI [of _ xs]) simp
  have refl: "dict_only s s"
    unfolding dict_only_def
    by (intro exI [of _ "rand_seed s"] exI [of _ "rand_cnt s"] exI [of _ "urandom_reads s"]
        exI [of _ "auto_changed s"] exI [of _ "a_extras s"]) simp
  have evict: "dict_only s (t\<lparr>a_extras := xs\<rparr>)" if "rng_only (s\<lparr>auto_changed := True\<rparr>) t" for t xs
  proof -
    obtain a c u where "t = s\<lparr>auto_changed := True\<rparr>\<lparr>rand_seed := a, rand_cnt := c, urandom_reads := u\<rparr>"
      using \<open>rng_only (s\<lparr>auto_changed := True\<rparr>) t\<close> unfolding rng_only_def by blast
    then have "t\<lparr>a_extras := xs\<rparr> = s\<lparr>rand_seed := a, rand_cnt := c, urandom_reads := u,
        a_extras := xs, auto_changed := True\<rparr>" by simp
    then show ?thesis unfolding dict_only_def by blast
  qed
  have rb: "rng_only (s\<lparr>auto_changed := True\<rparr>) t"
    if "rand_below w x (s\<lparr>auto_changed := True\<rparr>) = Some (r, t)" for x r t
    using rand_below_result [OF that] by simp
  show ?thesis
  proof (cases "bump_auto mem n (a_extras s)")
    case (Some ys)
    then show ?thesis
      using assms refl same unfolding maybe_add_auto_def Let_def
      by (auto split: if_split_asm)
  next
    case None
    then show ?thesis
      using assms refl same evict rb unfolding maybe_add_auto_def Let_def
      by (cases "rand_below w (of_nat ((MAX_AUTO_EXTRAS + 1) div 2)) (s\<lparr>auto_changed := True\<rparr>)")
        (auto split: if_split_asm)
  qed
qed

text \<open>The invariant together with the loop counters.\<close>

definition keeps :: "buf \<Rightarrow> buf \<Rightarrow> bool \<Rightarrow> buf set \<Rightarrow> u32 \<Rightarrow> u32 \<Rightarrow> fstate \<Rightarrow> bool" where
  "keeps b em na E c m st \<longleftrightarrow> (case st of (s, l) \<Rightarrow> stage_inv b em na E (s, l) \<and> stage_cur s = c \<and> stage_max s = m)"

context fuzz_runner
begin

lemma wp_offer_token:
  assumes d: d and inv: "keeps b em na E c m st"
  shows "wp d (offer_token w) (andthen (keeps b em na E c m) Q) st"
proof -
  obtain s l where st: "st = (s, l)" by (cases st)
  show ?thesis
  proof (cases "a_len l \<ge> MIN_AUTO_EXTRA \<and> a_len l \<le> MAX_AUTO_EXTRA")
    case False
    then have "offer_token w (s, l) = Some (Next, s, l)" by (auto simp: offer_token_def)
    then show ?thesis using inv by (simp add: wp_def st)
  next
    case True
    then have off: "offer_token w (s, l) =
        map_option (\<lambda>s. (Next, s, l)) (maybe_add_auto w (a_collect l) (a_len l) s)"
      by (simp add: offer_token_def)
    show ?thesis
    proof (cases "maybe_add_auto w (a_collect l) (a_len l) s")
      case None
      then show ?thesis using d by (simp add: wp_def off st)
    next
      case (Some s')
      have "dict_ok s" using inv by (simp add: st keeps_def stage_inv_def dicts_ok_def)
      moreover have "a_len l \<le> length (a_collect l)" using True inv by (simp add: st keeps_def stage_inv_def)
      ultimately have r: "dict_ok s' \<and> extras s' = extras s"
        using maybe_add_auto_result [OF Some] by simp
      obtain seed c' u ch xs where "s' = s\<lparr>rand_seed := seed, rand_cnt := c', urandom_reads := u,
          a_extras := xs, auto_changed := ch\<rparr>"
        using maybe_add_auto_only [OF Some] unfolding dict_only_def by blast
      then have "stage_cur s' = stage_cur s" "stage_max s' = stage_max s" "delivered s' = delivered s"
        "min_length s' = min_length s" "max_length s' = max_length s" "no_arith s' = no_arith s"
        "keep_timeouts s' = keep_timeouts s" "fuzzing (length b) s' = fuzzing (length b) s" by simp_all
      then have "keeps b em na E c m (s', l)"
        using inv r by (simp add: st keeps_def stage_inv_def dicts_ok_def length_ok_def)
      then show ?thesis by (simp add: wp_def off Some st)
    qed
  qed
qed

lemma wp_collect_byte:
  assumes "keeps b em na E c m st"
  shows "wp d collect_byte (andthen (keeps b em na E c m) Q) st"
  using assms by (cases st) (simp add: collect_byte_def keeps_def stage_inv_def)

lemma wp_collect_auto:
  assumes d: d and inv: "keeps b em na E c m st"
  shows "wp d (collect_auto w) (andthen (keeps b em na E c m) Q) st"
proof -
  obtain s l where st: "st = (s, l)" by (cases st)
  let ?K = "keeps b em na E c m"
  note off = wp_offer_token [OF d]
  have reset: "wp d (steps [on_loc (\<lambda>l. l\<lparr>a_len := 0, prev_cksum := h\<rparr>)]) (andthen ?K R) st" if "?K st" for st R h
    using that by (cases st) (simp add: keeps_def)
  have tail: "wp d (steps [cond P collect_byte skip]) (andthen ?K Q) st" if "?K st" for st P
    using wp_collect_byte [OF that] that by (simp add: keeps_def)
  have A: "wp d (steps [collect_byte, offer_token w]) (andthen ?K R) st" if "?K st" for st R
    by (rule wp_seq [OF wp_collect_byte [OF that]]) (simp add: off)
  have B: "wp d (steps [offer_token w, on_loc (\<lambda>l. l\<lparr>a_len := 0, prev_cksum := h\<rparr>)]) (andthen ?K R) st"
    if "?K st" for st R h
    by (rule wp_seq [OF off [OF that]]) (rule reset)
  have head: "wp d (cond P (steps [collect_byte, offer_token w])
      (cond P' (steps [offer_token w, on_loc (\<lambda>l. l\<lparr>a_len := 0, prev_cksum := h\<rparr>)]) skip)) (andthen ?K R) st"
    if "?K st" for st R h P P'
    unfolding wp_cond using A [OF that] B [OF that] that by simp
  show ?thesis
  proof (cases "\<not> non_instrumented_mode s \<and> stage_cur s AND 7 = 7")
    case True
    show ?thesis
      unfolding collect_auto_def wp_cond wp_reading prod.case st if_P [OF True]
      by (rule wp_seq [OF head [OF inv [unfolded st]] tail])
  next
    case False
    show ?thesis
      unfolding collect_auto_def wp_cond wp_reading prod.case st if_not_P [OF False]
      using inv st by simp
  qed
qed

end

section \<open>Every stage restores the input\<close>

abbreviation stage_post :: "buf \<Rightarrow> buf \<Rightarrow> bool \<Rightarrow> buf set \<Rightarrow> buf set \<Rightarrow> flow \<Rightarrow> fstate \<Rightarrow> bool" where
  "stage_post b em na D C \<equiv> andthen (stage_inv b em na (D \<union> C)) (exit_ok b em na D)"

lemma stage_post_weaken:
  assumes "wp d c (stage_post b em na E C) st" and "D \<subseteq> E" and "D \<union> C' \<subseteq> E \<union> C"
  shows "wp d c (stage_post b em na D C') st"
  by (rule wp_mono [OF assms(1)])
    (use assms(2,3) in \<open>auto simp: andthen_def intro: stage_inv_mono exit_ok_mono split: if_splits\<close>)

lemma wp_end_stage:
  "stage_inv b em na E st \<Longrightarrow> wp d (end_stage k) (andthen (stage_inv b em na E) Q) st"
  by (cases st) simp

lemma of_nat_sub: "k \<le> n \<Longrightarrow> (of_nat n - of_nat k :: u32) = of_nat (n - k)"
  by (simp add: of_nat_diff)

context fuzz_runner
begin

lemma wp_fuzz_input:
  assumes inv: "stage_inv b em na D (s, l)"
    and Q: "\<And>v s'. stage_frame s s' \<Longrightarrow> stage_inv b em na (insert b D) (s', l) \<Longrightarrow>
      Q (case v of Ret0 \<Rightarrow> Next | Ret1 \<Rightarrow> Abandon_entry | Died \<Rightarrow> Fatal) (s', l)"
  shows "wp d (fuzz_out cfs) Q (s, l)"
proof (rule wp_fuzz_out [where b = b and em = em and D = D])
  show "stage_inv b em na D (s, l\<lparr>out_buf := b\<rparr>)" using inv by (simp add: stage_inv_restore [OF inv])
  show "length (out_buf l) = length b" using inv by (simp add: stage_inv_out)
qed (use Q in \<open>simp add: stage_inv_restore [OF inv] stage_inv_out [OF inv]\<close>)

lemma wp_stage_flip1:
  assumes d: d and inv: "stage_inv b em na D st" and size: "length b \<le> MAX_FILE"
  shows "wp d (stage_flip1 w cfs) (stage_post b em na D (insert b (walk_set 1 b em (8 * length b)))) st"
proof -
  obtain s l where st: "st = (s, l)" by (cases st)
  let ?Q = "stage_post b em na D (insert b (walk_set 1 b em (8 * length b)))"
  let ?M = "of_nat (8 * length b) :: u32"
  let ?s = "s\<lparr>stage_name := ''bitflip 1/1'', stage_short := ''flip1'', stage_max := ?M,
    stage_val_type := STAGE_VAL_NONE\<rparr>"
  have out: "out_buf l = b" "l_len l = length b" using inv by (simp_all add: st stage_inv_def)
  let ?J = "\<lambda>(s, l). stage_inv b em na (insert b D) (s, l) \<and> stage_max s = ?M"
  have run: "wp d (fuzz_out cfs) (andthen ?J ?Q) (?s, l\<lparr>orig_hit_cnt := h\<rparr>)" for h
  proof (rule wp_fuzz_input)
    show "stage_inv b em na D (?s, l\<lparr>orig_hit_cnt := h\<rparr>)" using inv by (simp add: st)
  next
    fix v s'
    assume fr: "stage_frame ?s s'" and I: "stage_inv b em na (insert b D) (s', l\<lparr>orig_hit_cnt := h\<rparr>)"
    then show "andthen ?J ?Q (case v of Ret0 \<Rightarrow> Next | Ret1 \<Rightarrow> Abandon_entry | Died \<Rightarrow> Fatal)
        (s', l\<lparr>orig_hit_cnt := h\<rparr>)"
      using stage_frame_counters [OF fr] stage_inv_fuzzing [OF I] by (cases v) simp_all
  qed
  have walk: "wp d (walking_bits w cfs 1 (collect_auto w))
      (andthen (stage_inv b em na (insert b D \<union> walk_set 1 b em (8 * length b))) ?Q) st" if "?J st" for st
  proof -
    obtain s l where st: "st = (s, l)" by (cases st)
    have "wp d (walking_bits w cfs 1 (collect_auto w))
        (stage_post b em na (insert b D) (walk_set 1 b em (8 * length b))) (s, l)"
    proof (rule wp_walking_bits)
      fix E s l assume "stage_inv b em na E (s, l)"
      then have "keeps b em na E (stage_cur s) (stage_max s) (s, l)" by (simp add: keeps_def)
      from wp_collect_auto [OF d this]
      show "wp d (collect_auto w) (andthen (\<lambda>(s', l'). stage_inv b em na E (s', l') \<and>
          stage_cur s' = stage_cur s \<and> stage_max s' = stage_max s) (exit_ok b em na (insert b D))) (s, l)"
        by (simp only: keeps_def [abs_def])
    qed (use that size st in simp_all)
    then show ?thesis
      unfolding st andthen_absorb
      by (rule wp_mono) (auto simp: andthen_def intro: exit_ok_mono split: if_splits)
  qed
  have rest: "wp d (steps [upd (\<lambda>(s, l). (s, l\<lparr>prev_cksum := hash64 w (trace_bits s), first_cksum := hash64 w (trace_bits s)\<rparr>)),
      walking_bits w cfs 1 (collect_auto w), end_stage STAGE_FLIP1]) ?Q st" if "?J st" for st
  proof (rule wp_seq [where R = ?J])
    fix st assume J: "?J st"
    show "wp d (steps [walking_bits w cfs 1 (collect_auto w), end_stage STAGE_FLIP1]) ?Q st"
      by (rule wp_seq [OF walk [OF J]])
        (use wp_end_stage in \<open>simp only: wp_single Un_insert_left Un_insert_right\<close>)
  qed (use that in \<open>cases st; simp\<close>)
  show ?thesis
    unfolding stage_flip1_def st
    by (simp add: out del: wp_Cons) (use wp_seq [OF run rest] in \<open>simp add: out\<close>)
qed

end

definition flip8_set :: "buf \<Rightarrow> buf \<Rightarrow> nat \<Rightarrow> buf set" where
  "flip8_set b em M = {b[i := b ! i XOR 0xFF] | i. i < M \<and> em ! i \<noteq> 0}"

lemma flip8_set_0 [simp]: "flip8_set b em 0 = {}"
  by (simp add: flip8_set_def)

lemma flip8_set_Suc:
  "flip8_set b em (Suc p) = (if em ! p \<noteq> 0 then insert (b[p := b ! p XOR 0xFF]) (flip8_set b em p)
     else flip8_set b em p)"
  by (auto simp: flip8_set_def less_Suc_eq)

lemma xor_twice [simp]: "(x XOR y) XOR y = x" for x y :: "'a::len word"
  by (simp add: xor.assoc)

lemma wp_finish:
  assumes "wp d c (stage_post b em na D C) st"
  shows "wp d (steps [c, end_stage k]) (stage_post b em na D C) st"
proof (rule wp_seq)
  show "wp d c (andthen (stage_inv b em na (D \<union> C)) (stage_post b em na D C)) st"
    using assms by simp
qed (simp add: wp_end_stage)

context fuzz_runner
begin

lemma wp_walk_plain:
  assumes inv: "stage_inv b em na D st" and M: "stage_max (fst st) = of_nat M" "M \<le> 8 * length b"
    and size: "length b \<le> MAX_FILE"
  shows "wp d (walking_bits w cfs k skip) (stage_post b em na D (walk_set k b em M)) st"
proof (cases st)
  case (Pair s l)
  show ?thesis
    unfolding Pair
    by (rule wp_walking_bits) (use assms in \<open>simp_all add: Pair\<close>)
qed

lemma wp_stage_flip2:
  assumes inv: "stage_inv b em na D st" and size: "length b \<le> MAX_FILE" "b \<noteq> []"
  shows "wp d (stage_flip2 w cfs) (stage_post b em na D (walk_set 2 b em (8 * length b - 1))) st"
proof -
  obtain s l where st: "st = (s, l)" by (cases st)
  have len: "l_len l = length b" using inv by (simp add: st stage_inv_def)
  have "1 \<le> 8 * length b" using size by (cases b) simp_all
  then have mx: "of_nat (8 * length b) - 1 = (of_nat (8 * length b - 1) :: u32)"
    using of_nat_sub [of 1 "8 * length b"] by simp
  let ?st = "(s\<lparr>stage_name := ''bitflip 2/1'', stage_short := ''flip2'',
    stage_max := of_nat (8 * length b) - 1\<rparr>, l\<lparr>orig_hit_cnt := new_hit_cnt l\<rparr>)"
  have "wp d (steps [walking_bits w cfs 2 skip, end_stage STAGE_FLIP2])
      (stage_post b em na D (walk_set 2 b em (8 * length b - 1))) ?st"
    by (rule wp_finish [OF wp_walk_plain]) (use inv size mx in \<open>simp_all add: st\<close>)
  then show ?thesis by (simp add: stage_flip2_def st len)
qed

lemma wp_stage_flip4:
  assumes inv: "stage_inv b em na D st" and size: "length b \<le> MAX_FILE" "b \<noteq> []"
  shows "wp d (stage_flip4 w cfs) (stage_post b em na D (walk_set 4 b em (8 * length b - 3))) st"
proof -
  obtain s l where st: "st = (s, l)" by (cases st)
  have len: "l_len l = length b" using inv by (simp add: st stage_inv_def)
  have "3 \<le> 8 * length b" using size by (cases b) simp_all
  then have mx: "of_nat (8 * length b) - 3 = (of_nat (8 * length b - 3) :: u32)"
    using of_nat_sub [of 3 "8 * length b"] by simp
  let ?st = "(s\<lparr>stage_name := ''bitflip 4/1'', stage_short := ''flip4'',
    stage_max := of_nat (8 * length b) - 3\<rparr>, l\<lparr>orig_hit_cnt := new_hit_cnt l\<rparr>)"
  have "wp d (steps [walking_bits w cfs 4 skip, end_stage STAGE_FLIP4])
      (stage_post b em na D (walk_set 4 b em (8 * length b - 3))) ?st"
    by (rule wp_finish [OF wp_walk_plain]) (use inv size mx in \<open>simp_all add: st\<close>)
  then show ?thesis by (simp add: stage_flip4_def st len)
qed

lemma wp_flip8_body:
  assumes inv: "stage_inv b em na E (s, l)" and sub: "D \<subseteq> E" and c: "stage_cur s = of_nat p" "p < length b"
    "length b \<le> MAX_FILE" "stage_max s = m"
  shows "wp d (steps [flip_byte_at_cur, fuzz_out cfs, flip_byte_at_cur])
    (andthen (keeps b em na (insert (b[p := b ! p XOR 0xFF]) E) (of_nat p) m) (exit_ok b em na D)) (s, l)"
proof -
  have p: "unat (of_nat p :: u32) = p" using c by (intro unat_of_nat_small) (simp add: MAX_FILE_def)
  have l: "out_buf l = b" "l\<lparr>out_buf := b\<rparr> = l"
    using inv by (simp_all add: stage_inv_out stage_inv_restore)
  let ?l1 = "l\<lparr>out_buf := b[p := b ! p XOR 0xFF]\<rparr>"
  let ?Q = "andthen (keeps b em na (insert (b[p := b ! p XOR 0xFF]) E) (of_nat p) m) (exit_ok b em na D)"
  have "wp d (fuzz_out cfs) (andthen (wp d flip_byte_at_cur ?Q) ?Q) (s, ?l1)"
  proof (rule wp_fuzz_out [where b = b and em = em and D = E])
    show "stage_inv b em na E (s, ?l1\<lparr>out_buf := b\<rparr>)"
      using inv by (simp add: stage_inv_restore [OF inv])
  next
    fix v s'
    assume fr: "stage_frame s s'" and I: "stage_inv b em na (insert (out_buf ?l1) E) (s', ?l1\<lparr>out_buf := b\<rparr>)"
    then show "andthen (wp d flip_byte_at_cur ?Q) ?Q
        (case v of Ret0 \<Rightarrow> Next | Ret1 \<Rightarrow> Abandon_entry | Died \<Rightarrow> Fatal) (s', ?l1)"
      using c stage_frame_counters [OF fr] stage_inv_fuzzing [OF I]
      by (cases v) (simp_all add: flip_byte_at_cur_def p keeps_def)
  qed simp
  then show ?thesis by (simp add: flip_byte_at_cur_def c p l)
qed

lemma wp_stage_flip8:
  assumes inv: "stage_inv b em na D st" and size: "length b \<le> MAX_FILE"
  shows "wp d (stage_flip8 w cfs) (stage_post b em na D (flip8_set b em (length b))) st"
proof -
  obtain s l where st: "st = (s, l)" by (cases st)
  have len: "l_len l = length b" using inv by (simp add: st stage_inv_def)
  let ?Q = "stage_post b em na D (flip8_set b em (length b))"
  let ?body = "steps [on_afl (\<lambda>s. s\<lparr>stage_cur_byte := stage_cur s\<rparr>),
         if_effective w (\<lambda>(s, l). unat (stage_cur_byte s))
           (steps [flip_byte_at_cur, fuzz_out cfs, flip_byte_at_cur])]"
  have loop: "wp d (for_stage_cur ?body) ?Q (s, l)"
    if inv: "stage_inv b em na D (s, l)" and mx: "stage_max s = of_nat (length b)" for s l
  proof (rule wp_for_stage_cur [where M = "length b" and I = "\<lambda>p. stage_inv b em na (D \<union> flip8_set b em p)"])
    show small: "length b < 2 ^ 32" using size by (simp add: MAX_FILE_def)
    fix p s l
    assume p: "p < length b" "stage_cur s = of_nat p" "stage_max s = of_nat (length b)"
      and I: "stage_inv b em na (D \<union> flip8_set b em p) (s, l)"
    let ?R = "andthen (\<lambda>(s', l'). stage_cur s' = of_nat p \<and> stage_max s' = of_nat (length b) \<and>
      stage_inv b em na (D \<union> flip8_set b em (Suc p)) (s'\<lparr>stage_cur := of_nat (Suc p)\<rparr>, l')) ?Q"
    have pos: "unat (of_nat p :: u32) = p" using p(1) small by (simp add: unat_of_nat_small)
    let ?s1 = "s\<lparr>stage_cur_byte := of_nat p, ticks := Suc (ticks s)\<rparr>"
    have I1: "stage_inv b em na (D \<union> flip8_set b em p) (?s1, l)" using I by simp
    have run: "wp d (steps [flip_byte_at_cur, fuzz_out cfs, flip_byte_at_cur]) ?R (?s1, l)" if "em ! p \<noteq> 0"
      by (rule wp_mono [OF wp_flip8_body [OF I1, of D p "of_nat (length b)"]])
        (use p that size in \<open>auto simp: andthen_def keeps_def flip8_set_Suc split: if_splits\<close>)
    show "wp d ?body ?R (s, l)"
      using run I I1 p pos
      by (simp add: wp_if_effective stage_inv_eff [OF I] flip8_set_Suc stage_inv_mono)
  qed (use that in simp_all)
  have rest: "wp d (steps [upd (\<lambda>(s, l). (s\<lparr>blocks_eff_select := blocks_eff_select s +
                         of_nat (length (filter (\<lambda>i. eff_map l ! i \<noteq> 0) [0..<l_len l])),
                       blocks_eff_total := blocks_eff_total s + of_nat (l_len l)\<rparr>, l)),
      end_stage STAGE_FLIP8]) ?Q st" if "stage_inv b em na (D \<union> flip8_set b em (length b)) st" for st
    using that by (cases st) simp
  let ?st = "(s\<lparr>stage_name := ''bitflip 8/8'', stage_short := ''flip8'', stage_max := of_nat (length b)\<rparr>,
    l\<lparr>orig_hit_cnt := new_hit_cnt l, prev_cksum := first_cksum l\<rparr>)"
  have "wp d (for_stage_cur ?body) (andthen (stage_inv b em na (D \<union> flip8_set b em (length b))) ?Q) ?st"
    unfolding andthen_absorb by (rule loop) (use inv in \<open>simp_all add: st\<close>)
  from wp_seq [OF this rest] show ?thesis
    by (simp add: stage_flip8_def st len)
qed

end

text \<open>The loop over the effective positions.\<close>

lemma wp_effective_range:
  assumes inv: "stage_inv b em na D st" and le: "lo \<le> hi"
    and c: "\<And>i E s l. stage_inv b em na E (s, l) \<Longrightarrow> c i (s, l) = if_effective w (\<lambda>_. i) (body i) (s, l)"
    and body: "\<And>i E s l. lo \<le> i \<Longrightarrow> i < hi \<Longrightarrow> D \<subseteq> E \<Longrightarrow> stage_inv b em na E (s, l) \<Longrightarrow>
      wp d (body i) (andthen (stage_inv b em na (E \<union> C i)) (exit_ok b em na D)) (s, l)"
  shows "wp d (for_range lo hi c) (stage_post b em na D (\<Union>i\<in>{i. lo \<le> i \<and> i < hi \<and> em ! i \<noteq> 0}. C i)) st"
proof -
  have "wp d (for_range lo hi c) (stage_post b em na D (\<Union>i\<in>{lo..<hi}. if em ! i \<noteq> 0 then C i else {})) st"
  proof (rule wp_collect_range [OF inv le])
    fix i E st
    assume i: "lo \<le> i" "i < hi" "D \<subseteq> E" and I: "stage_inv b em na E st"
    obtain s l where st: "st = (s, l)" by (cases st)
    have "wp d (if_effective w (\<lambda>_. i) (body i))
        (andthen (stage_inv b em na (E \<union> (if em ! i \<noteq> 0 then C i else {}))) (exit_ok b em na D)) (s, l)"
      using I by (intro wp_if_effective_inv [OF _ i(3)] body [OF i]) (simp_all add: st)
    then show "wp d (c i) (andthen (stage_inv b em na (E \<union> (if em ! i \<noteq> 0 then C i else {}))) (exit_ok b em na D)) st"
      using c [of E s l i] I by (simp add: wp_def st)
  qed
  moreover have "(\<Union>i\<in>{lo..<hi}. if em ! i \<noteq> 0 then C i else {}) = (\<Union>i\<in>{i. lo \<le> i \<and> i < hi \<and> em ! i \<noteq> 0}. C i)"
    by auto
  ultimately show ?thesis by simp
qed

lemma wp_effective_range_keep:
  assumes "stage_inv b em na D st" and "lo \<le> hi"
    and "\<And>i E s l. stage_inv b em na E (s, l) \<Longrightarrow> c i (s, l) = if_effective w (\<lambda>_. i) (body i) (s, l)"
    and "\<And>i s l. lo \<le> i \<Longrightarrow> i < hi \<Longrightarrow> stage_inv b em na D (s, l) \<Longrightarrow>
      wp d (body i) (stage_post b em na D {}) (s, l)"
  shows "wp d (for_range lo hi c) (stage_post b em na D {}) st"
proof (rule wp_for_range [where I = "\<lambda>_. stage_inv b em na D"])
  fix i st
  assume i: "lo \<le> i" "i < hi" and I: "stage_inv b em na D st"
  obtain s l where st: "st = (s, l)" by (cases st)
  have "wp d (if_effective w (\<lambda>_. i) (body i))
      (andthen (stage_inv b em na (D \<union> (if em ! i \<noteq> 0 then {} else {}))) (exit_ok b em na D)) (s, l)"
    using I assms(4) [OF i] by (intro wp_if_effective_inv) (simp_all add: st)
  then show "wp d (c i) (andthen (stage_inv b em na D) (stage_post b em na D {})) st"
    using assms(3) [of D s l i] I by (simp add: wp_def st)
qed (use assms in simp_all)

lemma reading_eq: "reading f c s = c (f s) s"
  by (simp add: reading_def)

lemma wp_set_byte: "stage_inv b em na E st \<Longrightarrow> wp d (set_byte i) (andthen (stage_inv b em na E) Q) st"
  by (cases st) simp

context fuzz_runner
begin

lemma wp_walking_word:
  assumes inv: "stage_inv b em na D (s, l)" and f: "edits edit h" "edits undo h'"
    and h: "\<And>x. length (h x) = length x" "h' (h b) = b"
  shows "wp d (steps [set_byte i, edit, fuzz_out cfs, inc_cur, undo]) (stage_post b em na D {}) (s, l)"
proof -
  let ?Q = "stage_post b em na D {}"
  let ?T = "\<lambda>(s, l). out_buf l = h b \<and> stage_inv b em na D (s, l\<lparr>out_buf := b\<rparr>)"
  have e: "wp d edit (andthen ?T ?Q) (s, l)" if "stage_inv b em na D (s, l)" for s l
  proof -
    obtain s1 where "edit (s, l) = Some (Next, s1, l\<lparr>out_buf := h (out_buf l)\<rparr>)"
      "\<And>b em na D l. stage_inv b em na D (s1, l) = stage_inv b em na D (s, l)"
      using f(1) unfolding edits_def by metis
    then show ?thesis
      using that by (simp add: wp_def stage_inv_out [OF that] stage_inv_restore [OF that])
  qed
  have u: "wp d undo ?Q st" if "?T st" for st
  proof -
    obtain s l where st: "st = (s, l)" by (cases st)
    obtain s1 where "undo (s, l) = Some (Next, s1, l\<lparr>out_buf := h' (out_buf l)\<rparr>)"
      "\<And>b em na D l. stage_inv b em na D (s1, l) = stage_inv b em na D (s, l)"
      using f(2) unfolding edits_def by metis
    then show ?thesis using that h(2) by (simp add: wp_def st)
  qed
  have r: "wp d (fuzz_out cfs) (andthen ?T ?Q) st" if T: "?T st" for st
  proof -
    obtain s l where st: "st = (s, l)" by (cases st)
    show ?thesis
      unfolding st
    proof (rule wp_fuzz_out [where b = b and em = em and D = D])
      fix v s'
      assume I: "stage_inv b em na (insert (out_buf l) D) (s', l\<lparr>out_buf := b\<rparr>)"
      then have "stage_inv b em na D (s', l\<lparr>out_buf := b\<rparr>)" by (rule stage_inv_mono) blast
      then show "andthen ?T ?Q (case v of Ret0 \<Rightarrow> Next | Ret1 \<Rightarrow> Abandon_entry | Died \<Rightarrow> Fatal) (s', l)"
        using T stage_inv_fuzzing [OF I] by (cases v) (simp_all add: st)
    qed (use T h(1) in \<open>simp_all add: st\<close>)
  qed
  have inc: "wp d inc_cur (andthen ?T ?Q) st" if "?T st" for st
    using that by (cases st) simp
  show ?thesis
  proof (rule wp_seq [OF wp_set_byte [OF inv]])
    fix st assume "stage_inv b em na D st"
    then have e': "wp d edit (andthen ?T ?Q) st" using e by (cases st) simp
    show "wp d (steps [edit, fuzz_out cfs, inc_cur, undo]) ?Q st"
      by (rule wp_seq [OF e'], rule wp_seq [OF r], assumption, rule wp_seq [OF inc], assumption)
        (simp only: wp_single u)
  qed
qed

lemma wp_stage_flip16:
  assumes inv: "stage_inv b em na D st" and size: "2 \<le> length b"
  shows "wp d (stage_flip16 w cfs) (stage_post b em na D {}) st"
proof -
  obtain s l where st: "st = (s, l)" by (cases st)
  have len: "l_len l = length b" using inv by (simp add: st stage_inv_def)
  have ed: "edits (flip_word i) (\<lambda>x. store16 x i (load16 x i XOR 0xFFFF))" for i
    by (simp add: edits_def flip_word_def set_out_def on_loc_def upd_def)
  have twice: "store16 (store16 b i (load16 b i XOR 0xFFFF)) i
      (load16 (store16 b i (load16 b i XOR 0xFFFF)) i XOR 0xFFFF) = b" if "i + 1 < length b" for i
    using that by simp
  let ?st = "(s\<lparr>stage_name := ''bitflip 16/8'', stage_short := ''flip16'', stage_max := of_nat (length b - 1),
    stage_cur := 0\<rparr>, l\<lparr>orig_hit_cnt := new_hit_cnt l\<rparr>)"
  have "wp d (for_range 0 (length b - 1) (\<lambda>i. if_effective w (\<lambda>_. i)
        (steps [set_byte i, flip_word i, fuzz_out cfs, inc_cur, flip_word i]))) (stage_post b em na D {}) ?st"
  proof (rule wp_effective_range_keep)
    show "stage_inv b em na D ?st" using inv by (simp add: st)
    fix i s l assume i: "0 \<le> i" "i < length b - 1" and I: "stage_inv b em na D (s, l)"
    show "wp d (steps [set_byte i, flip_word i, fuzz_out cfs, inc_cur, flip_word i]) (stage_post b em na D {}) (s, l)"
      by (rule wp_walking_word [OF I ed ed]) (use i twice [of i] in simp_all)
  qed (simp_all)
  then have "wp d (steps [reading len_of (\<lambda>len. for_range 0 (len - 1) (\<lambda>i. if_effective w (\<lambda>_. i)
        (steps [set_byte i, flip_word i, fuzz_out cfs, inc_cur, flip_word i]))), end_stage STAGE_FLIP16])
      (stage_post b em na D {}) ?st"
    by (intro wp_finish) (simp add: len_of_def len)
  then show ?thesis by (simp add: stage_flip16_def st len)
qed

end

text \<open>The inputs of the 8-bit arithmetic and interesting-value stages.\<close>

definition arith8_all :: "buf \<Rightarrow> buf \<Rightarrow> buf set" where
  "arith8_all b em = (\<Union>i\<in>{i. 0 \<le> i \<and> i < length b \<and> em ! i \<noteq> 0}. \<Union>j\<in>{1..<ARITH_MAX + 1}. arith8_set b i j)"

definition interest8_all :: "buf \<Rightarrow> buf \<Rightarrow> buf set" where
  "interest8_all b em = (\<Union>i\<in>{i. 0 \<le> i \<and> i < length b \<and> em ! i \<noteq> 0}. interest8_set b i)"

lemma interest8_set_eq:
  "interest8_set b i = (\<Union>j\<in>{0..<length interesting_8}.
     if could_be_bitflip (ucast (b ! i XOR interesting_8 ! j)) \<or>
        could_be_arith (ucast (b ! i)) (ucast (interesting_8 ! j)) 1
     then {} else {b[i := interesting_8 ! j]})"
proof -
  have "interest8_set b i = (\<Union>v\<in>set interesting_8. if could_be_bitflip (ucast (b ! i XOR v)) \<or>
        could_be_arith (ucast (b ! i)) (ucast v) 1 then {} else {b[i := v]})"
    by (auto simp: interest8_set_def split: if_splits)
  also have "set interesting_8 = (!) interesting_8 ` {0..<length interesting_8}"
    by (auto simp: set_conv_nth)
  finally show ?thesis by (simp only: image_image)
qed

context fuzz_runner
begin

lemma wp_stage_flip32:
  assumes inv: "stage_inv b em na D st" and size: "4 \<le> length b"
  shows "wp d (stage_flip32 w cfs) (stage_post b em na D {}) st"
proof -
  obtain s l where st: "st = (s, l)" by (cases st)
  have len: "l_len l = length b" using inv by (simp add: st stage_inv_def)
  have ed: "edits (flip_dword i) (\<lambda>x. store32 x i (load32 x i XOR 0xFFFFFFFF))" for i
    by (simp add: edits_def flip_dword_def set_out_def on_loc_def upd_def)
  have twice: "store32 (store32 b i (load32 b i XOR 0xFFFFFFFF)) i
      (load32 (store32 b i (load32 b i XOR 0xFFFFFFFF)) i XOR 0xFFFFFFFF) = b" if "i + 3 < length b" for i
    using that by simp
  let ?st = "(s\<lparr>stage_name := ''bitflip 32/8'', stage_short := ''flip32'', stage_max := of_nat (length b - 3),
    stage_cur := 0\<rparr>, l\<lparr>orig_hit_cnt := new_hit_cnt l\<rparr>)"
  have "wp d (for_range 0 (length b - 3) (\<lambda>i. if_effective w (\<lambda>_. i)
        (steps [set_byte i, flip_dword i, fuzz_out cfs, inc_cur, flip_dword i]))) (stage_post b em na D {}) ?st"
  proof (rule wp_effective_range_keep)
    show "stage_inv b em na D ?st" using inv by (simp add: st)
    fix i s l assume i: "0 \<le> i" "i < length b - 3" and I: "stage_inv b em na D (s, l)"
    show "wp d (steps [set_byte i, flip_dword i, fuzz_out cfs, inc_cur, flip_dword i]) (stage_post b em na D {}) (s, l)"
      by (rule wp_walking_word [OF I ed ed]) (use i twice [of i] in simp_all)
  qed (simp_all)
  then have "wp d (steps [reading len_of (\<lambda>len. for_range 0 (len - 3) (\<lambda>i. if_effective w (\<lambda>_. i)
        (steps [set_byte i, flip_dword i, fuzz_out cfs, inc_cur, flip_dword i]))), end_stage STAGE_FLIP32])
      (stage_post b em na D {}) ?st"
    by (intro wp_finish) (simp add: len_of_def len)
  then show ?thesis by (simp add: stage_flip32_def st len)
qed

lemma wp_stage_arith8:
  assumes inv: "stage_inv b em na D st"
  shows "wp d (stage_arith8 w cfs) (stage_post b em na D (arith8_all b em)) st"
proof -
  obtain s l where st: "st = (s, l)" by (cases st)
  have len: "l_len l = length b" using inv by (simp add: st stage_inv_def)
  let ?st = "(s\<lparr>stage_name := ''arith 8/8'', stage_short := ''arith8'',
    stage_max := of_nat (2 * length b * ARITH_MAX), stage_cur := 0, stage_val_type := STAGE_VAL_LE\<rparr>,
    l\<lparr>orig_hit_cnt := new_hit_cnt l\<rparr>)"
  let ?c = "\<lambda>i. reading (\<lambda>(s, l). out_buf l ! i) (\<lambda>orig. if_effective w (\<lambda>_. i)
          (steps [set_byte i, for_range 1 (ARITH_MAX + 1) (arith8_step cfs i orig)]))"
  have "wp d (for_range 0 (length b) ?c) (stage_post b em na D (arith8_all b em)) ?st"
    unfolding arith8_all_def
  proof (rule wp_effective_range
      [where body = "\<lambda>i. steps [set_byte i, for_range 1 (ARITH_MAX + 1) (arith8_step cfs i (b ! i))]"])
    show "stage_inv b em na D ?st" using inv by (simp add: st)
    fix i E s l assume i: "i < length b" and E: "D \<subseteq> E" and I: "stage_inv b em na E (s, l)"
    show "wp d (steps [set_byte i, for_range 1 (ARITH_MAX + 1) (arith8_step cfs i (b ! i))])
        (andthen (stage_inv b em na (E \<union> (\<Union>j\<in>{1..<ARITH_MAX + 1}. arith8_set b i j))) (exit_ok b em na D)) (s, l)"
    proof (rule wp_seq [OF wp_set_byte [OF I]])
      fix st assume "stage_inv b em na E st"
      then have "wp d (for_range 1 (ARITH_MAX + 1) (arith8_step cfs i (b ! i)))
          (stage_post b em na E (\<Union>j\<in>{1..<ARITH_MAX + 1}. arith8_set b i j)) st"
        by (rule wp_collect_range) (auto intro: wp_arith8_step i simp: ARITH_MAX_def)
      then show "wp d (steps [for_range 1 (ARITH_MAX + 1) (arith8_step cfs i (b ! i))])
          (andthen (stage_inv b em na (E \<union> (\<Union>j\<in>{1..<ARITH_MAX + 1}. arith8_set b i j))) (exit_ok b em na D)) st"
        unfolding wp_single
        by (rule wp_mono) (use E in \<open>auto simp: andthen_def intro: exit_ok_mono split: if_splits\<close>)
    qed
  qed (simp_all add: reading_eq stage_inv_out)
  then have "wp d (steps [reading len_of (\<lambda>len. for_range 0 len ?c), end_stage STAGE_ARITH8])
      (stage_post b em na D (arith8_all b em)) ?st"
    by (intro wp_finish) (simp add: len_of_def len)
  then show ?thesis by (simp add: stage_arith8_def st len)
qed

lemma wp_stage_interest8:
  assumes inv: "stage_inv b em na D st"
  shows "wp d (stage_interest8 w cfs) (stage_post b em na D (interest8_all b em)) st"
proof -
  obtain s l where st: "st = (s, l)" by (cases st)
  have len: "l_len l = length b" using inv by (simp add: st stage_inv_def)
  let ?st = "(s\<lparr>stage_name := ''interest 8/8'', stage_short := ''int8'',
    stage_max := of_nat (length b * length interesting_8), stage_cur := 0, stage_val_type := STAGE_VAL_LE\<rparr>,
    l\<lparr>orig_hit_cnt := new_hit_cnt l\<rparr>)"
  let ?loop = "\<lambda>i orig. for_range 0 (length interesting_8) (\<lambda>j. interest8_step cfs i orig (interesting_8 ! j))"
  let ?c = "\<lambda>i. reading (\<lambda>(s, l). out_buf l ! i) (\<lambda>orig. if_effective w (\<lambda>_. i) (steps [set_byte i, ?loop i orig]))"
  have "wp d (for_range 0 (length b) ?c) (stage_post b em na D (interest8_all b em)) ?st"
    unfolding interest8_all_def
  proof (rule wp_effective_range [where body = "\<lambda>i. steps [set_byte i, ?loop i (b ! i)]"])
    show "stage_inv b em na D ?st" using inv by (simp add: st)
    fix i E s l assume i: "i < length b" and E: "D \<subseteq> E" and I: "stage_inv b em na E (s, l)"
    show "wp d (steps [set_byte i, ?loop i (b ! i)])
        (andthen (stage_inv b em na (E \<union> interest8_set b i)) (exit_ok b em na D)) (s, l)"
    proof (rule wp_seq [OF wp_set_byte [OF I]])
      fix st assume "stage_inv b em na E st"
      then have "wp d (?loop i (b ! i)) (stage_post b em na E (interest8_set b i)) st"
        unfolding interest8_set_eq
      proof (rule wp_collect_range)
        fix j F st assume "E \<subseteq> F" "stage_inv b em na F st"
        then show "wp d (interest8_step cfs i (b ! i) (interesting_8 ! j)) (andthen (stage_inv b em na
            (F \<union> (if could_be_bitflip (ucast (b ! i XOR interesting_8 ! j)) \<or>
              could_be_arith (ucast (b ! i)) (ucast (interesting_8 ! j)) 1
              then {} else {b[i := interesting_8 ! j]}))) (exit_ok b em na E)) st"
          using wp_interest8_step i by (cases st) blast
      qed simp
      then show "wp d (steps [?loop i (b ! i)])
          (andthen (stage_inv b em na (E \<union> interest8_set b i)) (exit_ok b em na D)) st"
        unfolding wp_single
        by (rule wp_mono) (use E in \<open>auto simp: andthen_def intro: exit_ok_mono split: if_splits\<close>)
    qed
  qed (simp_all add: reading_eq stage_inv_out)
  then have "wp d (steps [reading len_of (\<lambda>len. for_range 0 len ?c), end_stage STAGE_INTEREST8])
      (stage_post b em na D (interest8_all b em)) ?st"
    by (intro wp_finish) (simp add: len_of_def len)
  then show ?thesis by (simp add: stage_interest8_def st len)
qed

lemma wp_for_keep:
  assumes "P st" and "\<And>i st. P st \<Longrightarrow> wp d (c i) (andthen P Q) st"
  shows "wp d (for_range lo hi c) (andthen P Q) st"
proof (cases "lo \<le> hi")
  case True
  then show ?thesis
    using assms by (intro wp_for_range [where I = "\<lambda>_. P"]) simp_all
qed (use assms in simp)

lemma wp_stage_arith16:
  assumes inv: "stage_inv b em na D st" and size: "2 \<le> length b"
  shows "wp d (stage_arith16 w cfs) (stage_post b em na D {}) st"
proof -
  obtain s l where st: "st = (s, l)" by (cases st)
  have len: "l_len l = length b" using inv by (simp add: st stage_inv_def)
  let ?st = "(s\<lparr>stage_name := ''arith 16/8'', stage_short := ''arith16'',
    stage_max := of_nat (4 * (length b - 1) * ARITH_MAX), stage_cur := 0\<rparr>,
    l\<lparr>orig_hit_cnt := new_hit_cnt l\<rparr>)"
  let ?body = "\<lambda>i orig. steps [set_byte i, for_range 1 (ARITH_MAX + 1) (arith16_step cfs i orig)]"
  let ?c = "\<lambda>i. reading (\<lambda>(s, l). load16 (out_buf l) i) (\<lambda>orig. if_effective w (\<lambda>_. i) (?body i orig))"
  have "wp d (for_range 0 (length b - 1) ?c) (stage_post b em na D {}) ?st"
  proof (rule wp_effective_range_keep [where body = "\<lambda>i. ?body i (load16 b i)"])
    show "stage_inv b em na D ?st" using inv by (simp add: st)
    fix i s l assume i: "i < length b - 1" and I: "stage_inv b em na D (s, l)"
    show "wp d (?body i (load16 b i)) (stage_post b em na D {}) (s, l)"
      by (rule wp_seq [OF wp_set_byte [OF I]], unfold wp_single Un_empty_right)
        (rule wp_for_keep, assumption, rule wp_arith16_step, assumption, use i in simp)
  qed (simp_all add: reading_eq stage_inv_out)
  then have "wp d (steps [reading len_of (\<lambda>len. for_range 0 (len - 1) ?c), end_stage STAGE_ARITH16])
      (stage_post b em na D {}) ?st"
    by (intro wp_finish) (simp add: len_of_def len)
  then show ?thesis by (simp add: stage_arith16_def st len)
qed

end

context fuzz_runner
begin

lemma wp_stage_arith32:
  assumes inv: "stage_inv b em na D st" and size: "4 \<le> length b"
  shows "wp d (stage_arith32 w cfs) (stage_post b em na D {}) st"
proof -
  obtain s l where st: "st = (s, l)" by (cases st)
  have len: "l_len l = length b" using inv by (simp add: st stage_inv_def)
  let ?st = "(s\<lparr>stage_name := ''arith 32/8'', stage_short := ''arith32'',
    stage_max := of_nat (4 * (length b - 3) * ARITH_MAX), stage_cur := 0\<rparr>,
    l\<lparr>orig_hit_cnt := new_hit_cnt l\<rparr>)"
  let ?body = "\<lambda>i orig. steps [set_byte i, for_range 1 (ARITH_MAX + 1) (arith32_step cfs i orig)]"
  let ?c = "\<lambda>i. reading (\<lambda>(s, l). load32 (out_buf l) i) (\<lambda>orig. if_effective w (\<lambda>_. i) (?body i orig))"
  have "wp d (for_range 0 (length b - 3) ?c) (stage_post b em na D {}) ?st"
  proof (rule wp_effective_range_keep [where body = "\<lambda>i. ?body i (load32 b i)"])
    show "stage_inv b em na D ?st" using inv by (simp add: st)
    fix i s l assume i: "i < length b - 3" and I: "stage_inv b em na D (s, l)"
    show "wp d (?body i (load32 b i)) (stage_post b em na D {}) (s, l)"
      by (rule wp_seq [OF wp_set_byte [OF I]], unfold wp_single Un_empty_right)
        (rule wp_for_keep, assumption, rule wp_arith32_step, assumption, use i in simp)
  qed (simp_all add: reading_eq stage_inv_out)
  then have "wp d (steps [reading len_of (\<lambda>len. for_range 0 (len - 3) ?c), end_stage STAGE_ARITH32])
      (stage_post b em na D {}) ?st"
    by (intro wp_finish) (simp add: len_of_def len)
  then show ?thesis by (simp add: stage_arith32_def st len)
qed

lemma wp_stage_interest16:
  assumes inv: "stage_inv b em na D st" and size: "2 \<le> length b"
  shows "wp d (stage_interest16 w cfs) (stage_post b em na D {}) st"
proof -
  obtain s l where st: "st = (s, l)" by (cases st)
  have len: "l_len l = length b" using inv by (simp add: st stage_inv_def)
  let ?st = "(s\<lparr>stage_name := ''interest 16/8'', stage_short := ''int16'',
    stage_max := of_nat (2 * (length b - 1) * length interesting_16), stage_cur := 0\<rparr>,
    l\<lparr>orig_hit_cnt := new_hit_cnt l\<rparr>)"
  let ?body = "\<lambda>i orig. steps [set_byte i, for_range 0 (length interesting_16)
      (\<lambda>j. interest16_step cfs i orig (interesting_16 ! j)), set_out (\<lambda>b. store16 b i orig)]"
  let ?c = "\<lambda>i. reading (\<lambda>(s, l). load16 (out_buf l) i) (\<lambda>orig. if_effective w (\<lambda>_. i) (?body i orig))"
  have "wp d (for_range 0 (length b - 1) ?c) (stage_post b em na D {}) ?st"
  proof (rule wp_effective_range_keep [where body = "\<lambda>i. ?body i (load16 b i)"])
    show "stage_inv b em na D ?st" using inv by (simp add: st)
    fix i s l assume i: "i < length b - 1" and I: "stage_inv b em na D (s, l)"
    let ?T = "touched (\<lambda>v b. store16 b i v) b em na D"
    have loop: "wp d (for_range 0 (length interesting_16)
        (\<lambda>j. interest16_step cfs i (load16 b i) (interesting_16 ! j)))
        (andthen ?T (stage_post b em na D {})) st" if "stage_inv b em na D st" for st
      unfolding andthen_absorb
      by (rule wp_for_keep [where P = ?T], rule touched_start, rule that) (rule wp_interest16_step)
    have restore: "wp d (steps [set_out (\<lambda>x. store16 x i (load16 b i))]) (stage_post b em na D {}) st"
      if "?T st" for st
      using that touched_restore [OF _ overlay_put16, of i b em na D "fst st" "snd st" "load16 b i"] i
      by (cases st) simp
    show "wp d (?body i (load16 b i)) (stage_post b em na D {}) (s, l)"
      by (rule wp_seq [OF wp_set_byte [OF I]], rule wp_seq [OF loop], assumption) (rule restore)
  qed (simp_all add: reading_eq stage_inv_out)
  then have "wp d (steps [reading len_of (\<lambda>len. for_range 0 (len - 1) ?c), end_stage STAGE_INTEREST16])
      (stage_post b em na D {}) ?st"
    by (intro wp_finish) (simp add: len_of_def len)
  then show ?thesis by (simp add: stage_interest16_def st len)
qed

lemma wp_stage_interest32:
  assumes inv: "stage_inv b em na D st" and size: "4 \<le> length b"
  shows "wp d (stage_interest32 w cfs) (stage_post b em na D {}) st"
proof -
  obtain s l where st: "st = (s, l)" by (cases st)
  have len: "l_len l = length b" using inv by (simp add: st stage_inv_def)
  let ?st = "(s\<lparr>stage_name := ''interest 32/8'', stage_short := ''int32'',
    stage_max := of_nat (2 * (length b - 3) * length interesting_32), stage_cur := 0\<rparr>,
    l\<lparr>orig_hit_cnt := new_hit_cnt l\<rparr>)"
  let ?body = "\<lambda>i orig. steps [set_byte i, for_range 0 (length interesting_32)
      (\<lambda>j. interest32_step cfs i orig (interesting_32 ! j)), set_out (\<lambda>b. store32 b i orig)]"
  let ?c = "\<lambda>i. reading (\<lambda>(s, l). load32 (out_buf l) i) (\<lambda>orig. if_effective w (\<lambda>_. i) (?body i orig))"
  have "wp d (for_range 0 (length b - 3) ?c) (stage_post b em na D {}) ?st"
  proof (rule wp_effective_range_keep [where body = "\<lambda>i. ?body i (load32 b i)"])
    show "stage_inv b em na D ?st" using inv by (simp add: st)
    fix i s l assume i: "i < length b - 3" and I: "stage_inv b em na D (s, l)"
    let ?T = "touched (\<lambda>v b. store32 b i v) b em na D"
    have loop: "wp d (for_range 0 (length interesting_32)
        (\<lambda>j. interest32_step cfs i (load32 b i) (interesting_32 ! j)))
        (andthen ?T (stage_post b em na D {})) st" if "stage_inv b em na D st" for st
      unfolding andthen_absorb
      by (rule wp_for_keep [where P = ?T], rule touched_start, rule that) (rule wp_interest32_step)
    have restore: "wp d (steps [set_out (\<lambda>x. store32 x i (load32 b i))]) (stage_post b em na D {}) st"
      if "?T st" for st
      using that touched_restore [OF _ overlay_put32, of i b em na D "fst st" "snd st" "load32 b i"] i
      by (cases st) simp
    show "wp d (?body i (load32 b i)) (stage_post b em na D {}) (s, l)"
      by (rule wp_seq [OF wp_set_byte [OF I]], rule wp_seq [OF loop], assumption) (rule restore)
  qed (simp_all add: reading_eq stage_inv_out)
  then have "wp d (steps [reading len_of (\<lambda>len. for_range 0 (len - 3) ?c), end_stage STAGE_INTEREST32])
      (stage_post b em na D {}) ?st"
    by (intro wp_finish) (simp add: len_of_def len)
  then show ?thesis by (simp add: stage_interest32_def st len)
qed

end

section \<open>Token stages\<close>

text \<open>
  While tokens are laid over position \<open>i\<close>, the buffer differs from the input in the last
  token's bytes only, and no token still to come is shorter: the remark in the code that the
  order of the tokens makes a restoration in between unnecessary.
\<close>

definition tok_inv :: "buf \<Rightarrow> buf \<Rightarrow> bool \<Rightarrow> buf set \<Rightarrow> (afl \<Rightarrow> extra_data list) \<Rightarrow> extra_data list \<Rightarrow> nat \<Rightarrow> nat \<Rightarrow> nat
    \<Rightarrow> fstate \<Rightarrow> bool" where
  "tok_inv b em na D sel toks cnt i j st \<longleftrightarrow> (case st of (s, l) \<Rightarrow>
     stage_inv b em na D (s, l\<lparr>out_buf := b\<rparr>) \<and> sel s = toks \<and>
     (\<exists>x. length x = last_len l \<and> i + length x \<le> length b \<and> out_buf l = copy_at b i x) \<and>
     (\<forall>k. j \<le> k \<and> k < cnt \<longrightarrow> last_len l \<le> e_len (toks ! k)))"

definition is_token_list :: "(afl \<Rightarrow> extra_data list) \<Rightarrow> bool" where
  "is_token_list sel \<longleftrightarrow> sel = extras \<or> sel = a_extras"

lemma token_list_upd:
  assumes "is_token_list sel"
  shows "sel (s\<lparr>stage_max := m\<rparr>) = sel s" "sel (s\<lparr>stage_cur := c\<rparr>) = sel s"
    "stage_frame s s' \<Longrightarrow> sel s' = sel s" "rng_only s s' \<Longrightarrow> sel s' = sel s"
    "sel (s\<lparr>stage_cur_byte := cb\<rparr>) = sel s" "sel (s\<lparr>ticks := tk\<rparr>) = sel s"
  using assms dict_ok_rng_only(2,3) [of s s'] by (auto simp: is_token_list_def stage_frame_def)

lemma tok_inv_start:
  assumes "stage_inv b em na D (s, l)" and "last_len l = 0" and "i < length b"
  shows "tok_inv b em na D sel (sel s) cnt i 0 (s, l)"
  using assms
  by (auto simp: tok_inv_def stage_inv_restore stage_inv_out [of b em na D s l] copy_at_def
      intro!: exI [of _ "[]"])

lemma tok_inv_restore:
  assumes "tok_inv b em na D sel toks cnt i j (s, l)"
  shows "stage_inv b em na D (s, l\<lparr>out_buf := copy_at (out_buf l) i (slice (in_buf l) i (last_len l))\<rparr>)"
proof -
  obtain x where x: "length x = last_len l" "i + length x \<le> length b" "out_buf l = copy_at b i x"
    and inv: "stage_inv b em na D (s, l\<lparr>out_buf := b\<rparr>)"
    using assms by (auto simp: tok_inv_def)
  have "in_buf l = b" using inv by (simp add: stage_inv_def)
  moreover have "copy_at (copy_at b i x) i (slice b i (length x)) = copy_at b i (slice b i (length x))"
    using x(2) by (intro copy_at_overlay) simp_all
  ultimately show ?thesis using inv x by simp
qed

context fuzz_runner
begin

lemma wp_place_token:
  assumes t: "tok_inv b em na D sel toks cnt i j (s, l)" and sel: "is_token_list sel"
    and j: "j < cnt" "cnt \<le> length toks" "by_length (take cnt toks)" "tokens_ok toks" and i: "i < length b"
  shows "wp d (place_token cfs i (toks ! j)) (andthen (tok_inv b em na D sel toks cnt i (Suc j)) (exit_ok b em na D)) (s, l)"
proof -
  let ?e = "toks ! j"
  have len: "length (take (e_len ?e) (e_data ?e)) = e_len ?e"
    using j by (simp add: tokens_ok_def)
  have inv: "stage_inv b em na D (s, l\<lparr>out_buf := b\<rparr>)" and selS: "sel s = toks"
    using t by (simp_all add: tok_inv_def)
  have L: "l_len l = length b" using inv by (simp add: stage_inv_def)
  obtain x where x: "length x = last_len l" "i + length x \<le> length b" "out_buf l = copy_at b i x"
    using t by (auto simp: tok_inv_def)
  have later: "tok_inv b em na D sel toks cnt i (Suc j) (s\<lparr>stage_max := m\<rparr>, l)" for m
    using t token_list_upd(1) [OF sel] by (auto simp: tok_inv_def)
  show ?thesis
  proof (cases "e_len ?e > l_len l - i \<or> take (e_len ?e) (e_data ?e) = slice (out_buf l) i (e_len ?e)")
    case True
    then show ?thesis
      unfolding place_token_def using later by simp
  next
    case False
    let ?d = "take (e_len ?e) (e_data ?e)"
    let ?l1 = "l\<lparr>last_len := e_len ?e, out_buf := copy_at (out_buf l) i ?d\<rparr>"
    have "\<not> e_len ?e > length b - i" using False L by simp
    then have fit: "i + e_len ?e \<le> length b" using i by linarith
    have "last_len l \<le> e_len ?e" using t j by (auto simp: tok_inv_def)
    then have over: "copy_at (copy_at b i x) i ?d = copy_at b i ?d"
      using x len fit by (intro copy_at_overlay) simp_all
    have mono: "e_len ?e \<le> e_len (toks ! k)" if "j \<le> k" "k < cnt" for k
      using by_length_nth [OF j(3) that(1)] that j by simp
    let ?R = "andthen (tok_inv b em na D sel toks cnt i (Suc j)) (exit_ok b em na D)"
    have fields: "out_buf ?l1 = copy_at b i ?d" "last_len ?l1 = e_len ?e"
      using over x(3) by simp_all
    have "wp d (fuzz_out cfs) (andthen (wp d inc_cur ?R) ?R) (s, ?l1)"
    proof (rule wp_fuzz_out [where b = b and em = em and na = na and D = D])
      have "?l1\<lparr>out_buf := b\<rparr> = l\<lparr>out_buf := b\<rparr>\<lparr>last_len := e_len ?e\<rparr>" by simp
      then show "stage_inv b em na D (s, ?l1\<lparr>out_buf := b\<rparr>)" using inv by (simp only: stage_inv_upd)
      show "length (out_buf ?l1) = length b" using fields len fit by simp
    next
      fix v s'
      assume fr: "stage_frame s s'"
        and I: "stage_inv b em na (insert (out_buf ?l1) D) (s', ?l1\<lparr>out_buf := b\<rparr>)"
      have "stage_inv b em na D (s', ?l1\<lparr>out_buf := b\<rparr>)" by (rule stage_inv_mono [OF I]) blast
      then have "tok_inv b em na D sel toks cnt i (Suc j) (s'\<lparr>stage_cur := stage_cur s' + 1\<rparr>, ?l1)"
        using token_list_upd(2,3) [OF sel] fr selS fields len fit mono
        unfolding tok_inv_def prod.case by (intro conjI exI [of _ ?d]) auto
      then show "andthen (wp d inc_cur ?R) ?R (case v of Ret0 \<Rightarrow> Next | Ret1 \<Rightarrow> Abandon_entry | Died \<Rightarrow> Fatal)
          (s', ?l1)"
        using stage_inv_fuzzing [OF I] by (cases v) simp_all
    qed
    then show ?thesis
      unfolding place_token_def using False by simp
  qed
qed

end

lemma tok_inv_upd:
  assumes "tok_inv b em na D sel toks cnt i j (s, l)" and "is_token_list sel"
  shows "tok_inv b em na D sel toks cnt i j (s\<lparr>stage_max := m\<rparr>, l)"
    "rng_only s s' \<Longrightarrow> tok_inv b em na D sel toks cnt i j (s', l)"
proof -
  show "tok_inv b em na D sel toks cnt i j (s\<lparr>stage_max := m\<rparr>, l)"
    using assms token_list_upd(1) [OF assms(2)] by (auto simp: tok_inv_def)
  assume r: "rng_only s s'"
  then obtain a c u where s': "s' = s\<lparr>rand_seed := a, rand_cnt := c, urandom_reads := u\<rparr>"
    unfolding rng_only_def by blast
  have "stage_inv b em na D (s', l\<lparr>out_buf := b\<rparr>) = stage_inv b em na D (s, l\<lparr>out_buf := b\<rparr>)"
    unfolding s' by (simp add: stage_inv_def dicts_ok_def dict_ok_def length_ok_def)
  then show "tok_inv b em na D sel toks cnt i j (s', l)"
    using assms token_list_upd(4) [OF assms(2) r] by (simp add: tok_inv_def)
qed

lemma tok_inv_Suc: "tok_inv b em na D sel toks cnt i j st \<Longrightarrow> tok_inv b em na D sel toks cnt i (Suc j) st"
  by (auto simp: tok_inv_def)

lemma sampled_out_rng:
  assumes "sampled_out w s = Some (out, s')"
  shows "rng_only s s'"
proof (cases "of_nat (length (extras s)) > max_det_extras s")
  case True
  then show ?thesis
    using assms rand_below_result [of w "of_nat (length (extras s))" s]
    by (auto simp: sampled_out_def Let_def)
next
  case False
  then show ?thesis using assms by (auto simp: sampled_out_def Let_def)
qed

context fuzz_runner
begin

lemma wp_user_over_step:
  assumes d: d and t: "tok_inv b em na D extras toks cnt i j st"
    and j: "j < cnt" "cnt \<le> length toks" "by_length (take cnt toks)" "tokens_ok toks" and i: "i < length b"
  shows "wp d (user_over_step w cfs i j) (andthen (tok_inv b em na D extras toks cnt i (Suc j)) (exit_ok b em na D)) st"
proof -
  obtain s l where st: "st = (s, l)" by (cases st)
  have sel: "is_token_list extras" by (simp add: is_token_list_def)
  show ?thesis
  proof (cases "sampled_out w s")
    case None
    then show ?thesis using d by (simp add: wp_def user_over_step_def st)
  next
    case (Some r)
    obtain out s1 where r: "r = (out, s1)" by (cases r)
    have t1: "tok_inv b em na D extras toks cnt i j (s1, l)"
      using tok_inv_upd(2) [OF t [unfolded st] sel] sampled_out_rng Some r by blast
    then have ex: "extras s1 = toks" by (simp add: tok_inv_def)
    have eq: "user_over_step w cfs i j (s, l) =
        (if out then dec_max (s1, l) else place_token cfs i (toks ! j) (s1, l))"
      using Some by (simp add: user_over_step_def r ex)
    have "wp d (if out then dec_max else place_token cfs i (toks ! j))
        (andthen (tok_inv b em na D extras toks cnt i (Suc j)) (exit_ok b em na D)) (s1, l)"
      using wp_place_token [OF t1 sel j i] tok_inv_Suc [OF tok_inv_upd(1) [OF t1 sel]] by simp
    then show ?thesis unfolding wp_def st eq by (simp split: if_splits)
  qed
qed

text \<open>The tokens laid over one position, from the invariant to the invariant.\<close>

lemma wp_over_position:
  assumes sel: "is_token_list sel" and i: "i < length b"
    and inv: "stage_inv b em na D (s, l)" and l: "last_len l = 0"
    and cnt: "cnt \<le> length (sel s)" "by_length (take cnt (sel s))" "tokens_ok (sel s)"
    and c: "\<And>j st. j < cnt \<Longrightarrow> tok_inv b em na D sel (sel s) cnt i j st \<Longrightarrow>
      wp d (c j) (andthen (tok_inv b em na D sel (sel s) cnt i (Suc j)) (exit_ok b em na D)) st"
  shows "wp d (steps [for_range 0 cnt c, restore_from_input i]) (stage_post b em na D {}) (s, l)"
proof (rule wp_seq [where R = "tok_inv b em na D sel (sel s) cnt i cnt"])
  show "wp d (for_range 0 cnt c) (andthen (tok_inv b em na D sel (sel s) cnt i cnt) (stage_post b em na D {})) (s, l)"
    unfolding andthen_absorb
    by (rule wp_for_range [where I = "\<lambda>j. tok_inv b em na D sel (sel s) cnt i j"])
      (use tok_inv_start [OF inv l i] c in simp_all)
next
  fix st assume "tok_inv b em na D sel (sel s) cnt i cnt st"
  then show "wp d (steps [restore_from_input i]) (stage_post b em na D {}) st"
    using tok_inv_restore by (cases st) (fastforce simp: restore_from_input_def)
qed

lemma wp_over_loop:
  assumes inv: "stage_inv b em na D st"
    and body: "\<And>i s l. i < length b \<Longrightarrow> stage_inv b em na D (s, l) \<Longrightarrow> last_len l = 0 \<Longrightarrow>
      wp d (body i) (stage_post b em na D {}) (s, l)"
  shows "wp d (for_range 0 (length b) (\<lambda>i. steps [on_loc (\<lambda>l. l\<lparr>last_len := 0\<rparr>),
      if_effective w (\<lambda>_. i) (body i)])) (stage_post b em na D {}) st"
proof (rule wp_for_range [where I = "\<lambda>_. stage_inv b em na D"])
  fix i st
  assume i: "i < length b" and I: "stage_inv b em na D st"
  obtain s l where st: "st = (s, l)" by (cases st)
  have "stage_inv b em na D (s, l\<lparr>last_len := 0\<rparr>)" using I by (simp add: st)
  then have "wp d (if_effective w (\<lambda>_. i) (body i))
      (andthen (stage_inv b em na (D \<union> (if em ! i \<noteq> 0 then {} else {}))) (exit_ok b em na D)) (s, l\<lparr>last_len := 0\<rparr>)"
    by (rule wp_if_effective_inv) (use i body in simp_all)
  then show "wp d (steps [on_loc (\<lambda>l. l\<lparr>last_len := 0\<rparr>), if_effective w (\<lambda>_. i) (body i)])
      (andthen (stage_inv b em na D) (stage_post b em na D {})) st"
    by (simp add: st)
qed (use inv in simp_all)

lemma wp_stage_user_over:
  assumes d: d and inv: "stage_inv b em na D st"
  shows "wp d (stage_user_over w cfs) (stage_post b em na D {}) st"
proof -
  obtain s l where st: "st = (s, l)" by (cases st)
  have len: "l_len l = length b" using inv by (simp add: st stage_inv_def)
  have sel: "is_token_list extras" by (simp add: is_token_list_def)
  let ?body = "\<lambda>i. steps [set_byte i,
      reading (\<lambda>(s, l). length (extras s)) (\<lambda>cnt. for_range 0 cnt (user_over_step w cfs i)), restore_from_input i]"
  let ?st = "(s\<lparr>stage_name := ''user extras (over)'', stage_short := ''ext_UO'', stage_cur := 0,
      stage_max := of_nat (length (extras s) * length b), stage_val_type := STAGE_VAL_NONE\<rparr>,
    l\<lparr>orig_hit_cnt := new_hit_cnt l\<rparr>)"
  have body: "wp d (?body i) (stage_post b em na D {}) (s, l)"
    if i: "i < length b" and I: "stage_inv b em na D (s, l)" and l: "last_len l = 0" for i s l
  proof -
    let ?s = "s\<lparr>stage_cur_byte := of_nat i\<rparr>"
    have I': "stage_inv b em na D (?s, l)" using I by simp
    have ex: "by_length (extras s)" "tokens_ok (extras s)"
      using I by (simp_all add: stage_inv_def dicts_ok_def)
    have "wp d (steps [for_range 0 (length (extras ?s)) (user_over_step w cfs i), restore_from_input i])
        (stage_post b em na D {}) (?s, l)"
      by (rule wp_over_position [OF sel i I' l])
        (use ex i in \<open>auto intro!: wp_user_over_step [OF d]\<close>)
    then show ?thesis by simp
  qed
  have "wp d (for_range 0 (length b) (\<lambda>i. steps [on_loc (\<lambda>l. l\<lparr>last_len := 0\<rparr>),
      if_effective w (\<lambda>_. i) (?body i)])) (stage_post b em na D {}) ?st"
    by (rule wp_over_loop) (use inv body in \<open>simp_all add: st\<close>)
  then have "wp d (steps [reading len_of (\<lambda>len. for_range 0 len (\<lambda>i. steps [on_loc (\<lambda>l. l\<lparr>last_len := 0\<rparr>),
      if_effective w (\<lambda>_. i) (?body i)])), end_stage STAGE_EXTRAS_UO]) (stage_post b em na D {}) ?st"
    by (intro wp_finish) (simp add: len_of_def len)
  then show ?thesis by (simp add: stage_user_over_def st len)
qed

end

lemma wp_chain:
  assumes "wp d c (stage_post b em na D C) st"
    and "\<And>st. stage_inv b em na (D \<union> C) st \<Longrightarrow> wp d (steps cs) (stage_post b em na (D \<union> C) C') st"
  shows "wp d (steps (c # cs)) (stage_post b em na D (C \<union> C')) st"
proof (rule wp_seq [where R = "stage_inv b em na (D \<union> C)"])
  show "wp d c (andthen (stage_inv b em na (D \<union> C)) (stage_post b em na D (C \<union> C'))) st"
    using assms(1) by simp
next
  fix st assume "stage_inv b em na (D \<union> C) st"
  from assms(2) [OF this] show "wp d (steps cs) (stage_post b em na D (C \<union> C')) st"
    by (rule stage_post_weaken) auto
qed

lemma wp_last:
  assumes "stage_inv b em na D st"
  shows "wp d (steps []) (stage_post b em na D {}) st"
  using assms by simp

lemma stage_inv_no_arith: "stage_inv b em na D (s, l) \<Longrightarrow> no_arith s = na"
  by (simp add: stage_inv_def)

context fuzz_runner
begin

lemma wp_stage_auto_over:
  assumes inv: "stage_inv b em na D st"
  shows "wp d (stage_auto_over w cfs) (stage_post b em na D {}) st"
proof -
  obtain s l where st: "st = (s, l)" by (cases st)
  have len: "l_len l = length b" using inv by (simp add: st stage_inv_def)
  have sel: "is_token_list a_extras" by (simp add: is_token_list_def)
  let ?cnt = "\<lambda>s. min (length (a_extras s)) USE_AUTO_EXTRAS"
  let ?step = "\<lambda>i j. reading (\<lambda>(s, l). a_extras s ! j) (place_token cfs i)"
  let ?body = "\<lambda>i. steps [set_byte i,
      reading (\<lambda>(s, l). ?cnt s) (\<lambda>cnt. for_range 0 cnt (?step i)), restore_from_input i]"
  let ?st = "(s\<lparr>stage_name := ''auto extras (over)'', stage_short := ''ext_AO'', stage_cur := 0,
      stage_max := of_nat (?cnt s * length b), stage_val_type := STAGE_VAL_NONE\<rparr>,
    l\<lparr>orig_hit_cnt := new_hit_cnt l\<rparr>)"
  have body: "wp d (?body i) (stage_post b em na D {}) (s, l)"
    if i: "i < length b" and I: "stage_inv b em na D (s, l)" and l: "last_len l = 0" for i s l
  proof -
    let ?s = "s\<lparr>stage_cur_byte := of_nat i\<rparr>"
    have I': "stage_inv b em na D (?s, l)" using I by simp
    have ok: "dict_ok s" using I by (simp add: stage_inv_def dicts_ok_def)
    have top: "by_length (take (?cnt s) (a_extras s))" "tokens_ok (a_extras s)"
      using ok by (auto simp: dict_ok_def min_def split: if_splits)
    have "wp d (steps [for_range 0 (?cnt ?s) (?step i), restore_from_input i])
        (stage_post b em na D {}) (?s, l)"
    proof (rule wp_over_position [OF sel i I' l])
      fix j st assume j: "j < ?cnt ?s" and t: "tok_inv b em na D a_extras (a_extras ?s) (?cnt ?s) i j st"
      obtain s1 l1 where st: "st = (s1, l1)" by (cases st)
      have "a_extras s1 = a_extras ?s" using t by (simp add: st tok_inv_def)
      then show "wp d (?step i j) (andthen (tok_inv b em na D a_extras (a_extras ?s) (?cnt ?s) i (Suc j))
          (exit_ok b em na D)) st"
        using wp_place_token [OF t [unfolded st] sel j] top i by (simp add: st)
    qed (use top in simp_all)
    then show ?thesis by simp
  qed
  have "wp d (for_range 0 (length b) (\<lambda>i. steps [on_loc (\<lambda>l. l\<lparr>last_len := 0\<rparr>),
      if_effective w (\<lambda>_. i) (?body i)])) (stage_post b em na D {}) ?st"
    by (rule wp_over_loop) (use inv body in \<open>simp_all add: st\<close>)
  then have "wp d (steps [reading len_of (\<lambda>len. for_range 0 len (\<lambda>i. steps [on_loc (\<lambda>l. l\<lparr>last_len := 0\<rparr>),
      if_effective w (\<lambda>_. i) (?body i)])), end_stage STAGE_EXTRAS_AO]) (stage_post b em na D {}) ?st"
    by (intro wp_finish) (simp add: len_of_def len)
  then show ?thesis by (simp add: stage_auto_over_def st len)
qed

text \<open>
  While tokens are inserted, the scratch buffer holds the input and any token, and the
  dictionary stays as it is.
\<close>

definition ins_inv :: "buf \<Rightarrow> buf \<Rightarrow> bool \<Rightarrow> buf set \<Rightarrow> (afl \<Rightarrow> extra_data list) \<Rightarrow> extra_data list \<Rightarrow> fstate \<Rightarrow> bool" where
  "ins_inv b em na D sel toks st \<longleftrightarrow> (case st of (s, l) \<Rightarrow>
     stage_inv b em na D (s, l) \<and> sel s = toks \<and> length b + MAX_DICT_FILE \<le> length (ex_tmp l))"

lemma token_le:
  assumes "stage_inv b em na D (s, l)" and "is_token_list sel" and "e \<in> set (sel s)"
  shows "e_len e \<le> MAX_DICT_FILE"
proof -
  have "dicts_ok s" using assms(1) by (simp add: stage_inv_def)
  then show ?thesis
    using assms(2,3) by (fastforce simp: is_token_list_def dicts_ok_def dict_ok_def MAX_DICT_FILE_def MAX_AUTO_EXTRA_def)
qed

lemma wp_insert_token:
  assumes inv: "ins_inv b em na D sel toks st" and sel: "is_token_list sel" and i: "i \<le> length b"
    and e: "e \<in> set toks"
  shows "wp d (insert_token cfs i e) (andthen (ins_inv b em na D sel toks) (exit_ok b em na D)) st"
proof -
  obtain s l where st: "st = (s, l)" by (cases st)
  have I: "stage_inv b em na D (s, l)" and toks: "sel s = toks" and room: "length b + MAX_DICT_FILE \<le> length (ex_tmp l)"
    using inv by (simp_all add: st ins_inv_def)
  have len: "l_len l = length b" "out_buf l = b" using I by (simp_all add: stage_inv_def)
  note upd = token_list_upd [OF sel]
  show ?thesis
  proof (cases "l_len l + e_len e > MAX_FILE")
    case True
    then show ?thesis using inv upd(1) by (simp add: insert_token_def st ins_inv_def)
  next
    case False
    let ?ex = "copy_at (copy_at (ex_tmp l) i (take (e_len e) (e_data e)))
                   (i + e_len e) (slice (out_buf l) i (l_len l - i))"
    let ?l1 = "l\<lparr>ex_tmp := ?ex\<rparr>"
    let ?Q = "andthen (ins_inv b em na D sel toks) (exit_ok b em na D)"
    have I1: "stage_inv b em na D (s, ?l1)" using I by simp
    have el: "e_len e \<le> MAX_DICT_FILE" using token_le [OF I sel] e toks by simp
    have "length (copy_at (ex_tmp l) i (take (e_len e) (e_data e))) = length (ex_tmp l)"
      by (rule length_copy_at) (use el i room in auto)
    then have ex: "length ?ex = length (ex_tmp l)"
      by (subst length_copy_at) (use el i room len in \<open>auto simp: slice_def\<close>)
    have run: "wp d (fuzz_with cfs ex_tmp (\<lambda>l. l_len l + e_len e)) (andthen (wp d inc_cur ?Q) ?Q) (s, ?l1)"
    proof (cases "cfs ?ex (l_len l + e_len e) s")
      case None
      moreover have "\<not> keep_timeouts s" using I1 by (simp add: stage_inv_def)
      ultimately show ?thesis using cfs_total [OF None] by (simp add: wp_def fuzz_with_def)
    next
      case (Some r)
      obtain v s' where r: "r = (v, s')" by (cases r)
      note run = Some [unfolded r]
      have fr: "stage_frame s s'" "set (delivered s) \<subseteq> set (delivered s')"
        using cfs_frame [OF run] cfs_monotone [OF run] by auto
      have "fuzzing (length b) s'"
        by (rule cfs_fuzzing_cut [where k = "length b", OF run]) (use False ex room el len I in \<open>simp_all add: stage_inv_def\<close>)
      then have I2: "stage_inv b em na D (s', ?l1)"
        using I1 fr by (auto simp: stage_inv_def dicts_ok_def dict_ok_def length_ok_def stage_frame_def)
      then have "ins_inv b em na D sel toks (s'\<lparr>stage_cur := stage_cur s' + 1\<rparr>, ?l1)"
        using upd(2,3) fr toks ex room by (simp add: ins_inv_def)
      then show ?thesis using run stage_inv_fuzzing [OF I2]
        by (cases v) (simp_all add: wp_def fuzz_with_def inc_cur_def on_afl_def upd_def)
    qed
    then show ?thesis using False by (simp add: insert_token_def st)
  qed
qed

lemma ins_inv_upd:
  assumes "is_token_list sel"
  shows "ins_inv b em na D sel toks (s\<lparr>stage_cur_byte := c\<rparr>, l) = ins_inv b em na D sel toks (s, l)"
    "ins_inv b em na D sel toks (s\<lparr>ticks := t\<rparr>, l) = ins_inv b em na D sel toks (s, l)"
    "ins_inv b em na D sel toks (s, l\<lparr>ex_tmp := (ex_tmp l)[i := v]\<rparr>) = ins_inv b em na D sel toks (s, l)"
  using token_list_upd(5,6) [OF assms] by (simp_all add: ins_inv_def)

lemma wp_insert_position:
  assumes inv: "ins_inv b em na D sel toks st" and sel: "is_token_list sel" and i: "i \<le> length b"
  shows "wp d (steps [set_byte i,
         reading (\<lambda>(s, l). length (sel s)) (\<lambda>cnt. for_range 0 cnt (\<lambda>j.
           reading (\<lambda>(s, l). sel s ! j) (insert_token cfs i))),
         on_loc (\<lambda>l. l\<lparr>ex_tmp := (ex_tmp l)[i := head_byte w (out_buf l) i]\<rparr>)])
    (andthen (ins_inv b em na D sel toks) (exit_ok b em na D)) st"
proof -
  let ?I = "ins_inv b em na D sel toks"
  let ?Q = "andthen ?I (exit_ok b em na D)"
  obtain s l where st: "st = (s, l)" by (cases st)
  let ?s = "s\<lparr>stage_cur_byte := of_nat i\<rparr>"
  have I: "?I (?s, l)" using inv ins_inv_upd(1) [OF sel] by (simp add: st)
  have len: "length (sel ?s) = length toks" using I by (simp add: ins_inv_def)
  have loop: "wp d (for_range 0 (length toks) (\<lambda>j. reading (\<lambda>(s, l). sel s ! j) (insert_token cfs i))) ?Q (?s, l)"
  proof (rule wp_for_range [where I = "\<lambda>_. ?I"])
    fix j st
    assume j: "j < length toks" and J: "?I st"
    obtain s l where st: "st = (s, l)" by (cases st)
    have "sel s ! j \<in> set toks" using j J by (auto simp: st ins_inv_def)
    then show "wp d (reading (\<lambda>(s, l). sel s ! j) (insert_token cfs i)) (andthen ?I ?Q) st"
      using wp_insert_token [OF J sel i] by (simp add: st)
  qed (use I in simp_all)
  have copy: "wp d (steps [on_loc (\<lambda>l. l\<lparr>ex_tmp := (ex_tmp l)[i := head_byte w (out_buf l) i]\<rparr>)]) ?Q st" if "?I st" for st
    using that ins_inv_upd(3) [OF sel] by (cases st) simp
  have "wp d (steps [for_range 0 (length toks) (\<lambda>j. reading (\<lambda>(s, l). sel s ! j) (insert_token cfs i)),
         on_loc (\<lambda>l. l\<lparr>ex_tmp := (ex_tmp l)[i := head_byte w (out_buf l) i]\<rparr>)]) ?Q (?s, l)"
    by (rule wp_seq [where R = ?I, OF _ copy]) (use loop in simp_all)
  then show ?thesis by (simp add: st len)
qed

lemma wp_insert_stage:
  assumes inv: "stage_inv b em na D st" and pos: "0 < length b" and sel: "is_token_list sel"
  shows "wp d (insert_stage w cfs sel) (stage_post b em na D {}) st"
proof -
  obtain s l where st: "st = (s, l)" by (cases st)
  have len: "l_len l = length b" using inv by (simp add: st stage_inv_def)
  let ?I = "ins_inv b em na D sel (sel s)"
  let ?Q = "andthen ?I (exit_ok b em na D)"
  let ?body = "\<lambda>i. steps [set_byte i,
         reading (\<lambda>(s, l). length (sel s)) (\<lambda>cnt. for_range 0 cnt (\<lambda>j.
           reading (\<lambda>(s, l). sel s ! j) (insert_token cfs i))),
         on_loc (\<lambda>l. l\<lparr>ex_tmp := (ex_tmp l)[i := head_byte w (out_buf l) i]\<rparr>)]"
  let ?st = "(s, l\<lparr>ex_tmp := grow w (length b + MAX_DICT_FILE) (ex_tmp l)\<rparr>)"
  have start: "?I ?st" using inv by (simp add: st ins_inv_def grow_def)
  have "wp d (for_range 0 (length b + 1) (\<lambda>i. if_effective w (\<lambda>_. i mod length b) (?body i))) ?Q ?st"
  proof (rule wp_for_range [where I = "\<lambda>_. ?I"])
    fix i st
    assume i: "i < length b + 1" and I: "?I st"
    obtain s1 l1 where s1: "st = (s1, l1)" by (cases st)
    have I1: "?I (s1\<lparr>ticks := Suc (ticks s1)\<rparr>, l1)" using I ins_inv_upd(2) [OF sel] by (simp add: s1)
    have x: "stage_inv b em na D (s1\<lparr>ticks := Suc (ticks s1)\<rparr>, l1)" using I1 by (simp add: ins_inv_def)
    have "wp d (?body i) ?Q (s1\<lparr>ticks := Suc (ticks s1)\<rparr>, l1)"
      by (rule wp_insert_position [OF I1 sel]) (use i in simp)
    then show "wp d (if_effective w (\<lambda>_. i mod length b) (?body i)) (andthen ?I ?Q) st"
      using x I by (simp add: wp_if_effective s1)
  qed (use start in simp_all)
  then have "wp d (for_range 0 (length b + 1) (\<lambda>i. if_effective w (\<lambda>_. i mod length b) (?body i)))
      (stage_post b em na D {}) ?st"
    by (rule wp_mono) (auto simp: andthen_def ins_inv_def split: prod.splits if_splits)
  then show ?thesis by (simp add: insert_stage_def st len_of_def len)
qed

lemma wp_stage_user_insert:
  assumes inv: "stage_inv b em na D st" and pos: "0 < length b"
  shows "wp d (stage_user_insert w cfs) (stage_post b em na D {}) st"
proof -
  obtain s l where st: "st = (s, l)" by (cases st)
  have len: "l_len l = length b" using inv by (simp add: st stage_inv_def)
  let ?st = "(s\<lparr>stage_name := ''user extras (insert)'', stage_short := ''ext_UI'', stage_cur := 0,
      stage_max := of_nat (length (extras s) * (length b + 1))\<rparr>, l\<lparr>orig_hit_cnt := new_hit_cnt l\<rparr>)"
  have "wp d (steps [insert_stage w cfs extras, end_stage STAGE_EXTRAS_UI]) (stage_post b em na D {}) ?st"
    by (rule wp_finish [OF wp_insert_stage]) (use inv pos in \<open>simp_all add: st is_token_list_def\<close>)
  then show ?thesis by (simp add: stage_user_insert_def st len)
qed

lemma wp_stage_auto_insert:
  assumes inv: "stage_inv b em na D st" and pos: "0 < length b"
  shows "wp d (stage_auto_insert w cfs) (stage_post b em na D {}) st"
proof -
  obtain s l where st: "st = (s, l)" by (cases st)
  have len: "l_len l = length b" using inv by (simp add: st stage_inv_def)
  let ?st = "(s\<lparr>stage_name := ''auto extras (insert)'', stage_short := ''ext_AI'', stage_cur := 0,
      stage_max := of_nat (length (a_extras s) * (length b + 1))\<rparr>, l\<lparr>orig_hit_cnt := new_hit_cnt l\<rparr>)"
  have "wp d (steps [insert_stage w cfs a_extras, end_stage STAGE_EXTRAS_AI]) (stage_post b em na D {}) ?st"
    by (rule wp_finish [OF wp_insert_stage]) (use inv pos in \<open>simp_all add: st is_token_list_def\<close>)
  then show ?thesis by (simp add: stage_auto_insert_def st len)
qed

text \<open>The branches of the stage list.\<close>

lemma wp_pair_keep:
  assumes inv: "stage_inv b em na D st"
    and c1: "\<And>st. stage_inv b em na D st \<Longrightarrow> m \<le> length b \<Longrightarrow> wp d c1 (stage_post b em na D {}) st"
    and c2: "\<And>st. stage_inv b em na D st \<Longrightarrow> n \<le> length b \<Longrightarrow> wp d c2 (stage_post b em na D {}) st"
  shows "wp d (cond (\<lambda>(s, l). l_len l < m) skip (steps [c1, cond (\<lambda>(s, l). l_len l < n) skip c2]))
    (stage_post b em na D {}) st"
proof (cases st)
  case (Pair s l)
  have len: "l_len l = length b" using inv by (simp add: Pair stage_inv_def)
  show ?thesis
  proof (cases "length b < m")
    case True
    then show ?thesis using inv by (simp add: Pair len)
  next
    case False
    have tail: "wp d (steps [cond (\<lambda>(s, l). l_len l < n) skip c2]) (stage_post b em na D {}) st"
      if "stage_inv b em na D st" for st
      using that c2 [OF that] by (cases st) (auto simp: stage_inv_len)
    have "wp d (steps [c1, cond (\<lambda>(s, l). l_len l < n) skip c2]) (stage_post b em na D {}) st"
      by (rule wp_seq [where R = "stage_inv b em na D", OF _ tail]) (use c1 [OF inv] False in simp_all)
    then show ?thesis using False by (simp add: Pair len)
  qed
qed

lemma wp_two:
  assumes inv: "stage_inv b em na D st"
    and c1: "\<And>st. stage_inv b em na D st \<Longrightarrow> wp d c1 (stage_post b em na D {}) st"
    and c2: "\<And>st. stage_inv b em na D st \<Longrightarrow> wp d c2 (stage_post b em na D {}) st"
  shows "wp d (cond P skip (steps [c1, c2])) (stage_post b em na D {}) st"
proof (cases "P st")
  case False
  have "wp d (steps [c1, c2]) (stage_post b em na D {}) st"
    by (rule wp_seq [where R = "stage_inv b em na D"]) (use c1 [OF inv] c2 in simp_all)
  then show ?thesis using False by simp
qed (use inv in simp)

lemma wp_arith_stages:
  assumes inv: "stage_inv b em na D st"
  shows "wp d (cond (\<lambda>(s, l). no_arith s) skip (steps [stage_arith8 w cfs,
        cond (\<lambda>(s, l). l_len l < 2) skip (steps [stage_arith16 w cfs,
          cond (\<lambda>(s, l). l_len l < 4) skip (stage_arith32 w cfs)])]))
    (stage_post b em na D (if na then {} else arith8_all b em)) st"
proof (cases st)
  case (Pair s l)
  have na: "no_arith s = na" using inv by (simp add: Pair stage_inv_no_arith)
  show ?thesis
  proof (cases na)
    case True
    then show ?thesis using inv na by (simp add: Pair)
  next
    case False
    have tail: "wp d (steps [cond (\<lambda>(s, l). l_len l < 2) skip (steps [stage_arith16 w cfs,
          cond (\<lambda>(s, l). l_len l < 4) skip (stage_arith32 w cfs)])]) (stage_post b em na E {}) st"
      if "stage_inv b em na E st" for st E
      unfolding wp_single
      by (rule wp_pair_keep [OF that wp_stage_arith16 wp_stage_arith32])
    have "wp d (steps [stage_arith8 w cfs,
        cond (\<lambda>(s, l). l_len l < 2) skip (steps [stage_arith16 w cfs,
          cond (\<lambda>(s, l). l_len l < 4) skip (stage_arith32 w cfs)])])
      (stage_post b em na D (arith8_all b em \<union> {})) st"
      by (rule wp_chain [OF wp_stage_arith8 [OF inv] tail])
    then show ?thesis using False na by (simp add: Pair)
  qed
qed

lemma wp_interest_stages:
  assumes inv: "stage_inv b em na D st"
  shows "wp d (cond (\<lambda>(s, l). no_arith s \<or> l_len l < 2) skip (steps [stage_interest16 w cfs,
        cond (\<lambda>(s, l). l_len l < 4) skip (stage_interest32 w cfs)])) (stage_post b em na D {}) st"
proof (cases st)
  case (Pair s l)
  show ?thesis
  proof (cases na)
    case True
    then show ?thesis using inv by (simp add: Pair stage_inv_no_arith)
  next
    case False
    have "wp d (cond (\<lambda>(s, l). l_len l < 2) skip (steps [stage_interest16 w cfs,
        cond (\<lambda>(s, l). l_len l < 4) skip (stage_interest32 w cfs)])) (stage_post b em na D {}) st"
      by (rule wp_pair_keep [OF inv wp_stage_interest16 wp_stage_interest32])
    then show ?thesis using False inv by (simp add: Pair stage_inv_no_arith)
  qed
qed

end

text \<open>The inputs known to be delivered when the deterministic stages run to their end.\<close>

definition det_delivered :: "buf \<Rightarrow> buf \<Rightarrow> bool \<Rightarrow> buf set" where
  "det_delivered b em na = insert b (walk_set 1 b em (8 * length b) \<union> walk_set 2 b em (8 * length b - 1) \<union>
     walk_set 4 b em (8 * length b - 3) \<union> flip8_set b em (length b) \<union>
     (if na then {} else arith8_all b em) \<union> interest8_all b em)"

context fuzz_runner
begin

lemma wp_det_stages:
  assumes d: d and inv: "stage_inv b em na D st" and size: "0 < length b" "length b \<le> MAX_FILE"
  shows "wp d (det_stages w cfs) (stage_post b em na D (det_delivered b em na)) st"
proof -
  have ne: "b \<noteq> []" using size(1) by simp
  have tail: "wp d (steps [cond (\<lambda>(s, l). extras s = []) skip (steps [stage_user_over w cfs, stage_user_insert w cfs]),
      cond (\<lambda>(s, l). a_extras s = []) skip (steps [stage_auto_over w cfs, stage_auto_insert w cfs]),
      on_afl (\<lambda>s. if passed_det (queue_buf s ! queue_cur s) then s
                   else mark_as_det_done (queue_cur s) s)]) (stage_post b em na E {}) st"
    if "stage_inv b em na E st" for E st
  proof (rule wp_seq [where R = "stage_inv b em na E"])
    show "wp d (cond (\<lambda>(s, l). extras s = []) skip (steps [stage_user_over w cfs, stage_user_insert w cfs]))
        (andthen (stage_inv b em na E) (stage_post b em na E {})) st"
      unfolding andthen_absorb
      by (rule wp_two [OF that, unfolded Un_empty_right])
        (erule wp_stage_user_over [OF d, unfolded Un_empty_right] wp_stage_user_insert [OF _ size(1), unfolded Un_empty_right])+
  next
    fix st assume I: "stage_inv b em na E st"
    have last: "wp d (steps [on_afl (\<lambda>s. if passed_det (queue_buf s ! queue_cur s) then s
                   else mark_as_det_done (queue_cur s) s)]) (stage_post b em na E {}) st"
      if "stage_inv b em na E st" for st
      using that by (cases st) simp
    show "wp d (steps [cond (\<lambda>(s, l). a_extras s = []) skip (steps [stage_auto_over w cfs, stage_auto_insert w cfs]),
      on_afl (\<lambda>s. if passed_det (queue_buf s ! queue_cur s) then s
                   else mark_as_det_done (queue_cur s) s)]) (stage_post b em na E {}) st"
    proof (rule wp_seq [where R = "stage_inv b em na E", OF _ last])
      show "wp d (cond (\<lambda>(s, l). a_extras s = []) skip (steps [stage_auto_over w cfs, stage_auto_insert w cfs]))
        (andthen (stage_inv b em na E) (stage_post b em na E {})) st"
        unfolding andthen_absorb
        by (rule wp_two [OF I, unfolded Un_empty_right])
          (erule wp_stage_auto_over [unfolded Un_empty_right] wp_stage_auto_insert [OF _ size(1), unfolded Un_empty_right])+
    qed
  qed
  have "wp d (det_stages w cfs) (stage_post b em na D
    (insert b (walk_set 1 b em (8 * length b)) \<union> (walk_set 2 b em (8 * length b - 1) \<union>
     (walk_set 4 b em (8 * length b - 3) \<union> (flip8_set b em (length b) \<union> ({} \<union>
     ((if na then {} else arith8_all b em) \<union> (interest8_all b em \<union> ({} \<union> {}))))))))) st"
    unfolding det_stages_def
    by (rule wp_chain [OF wp_stage_flip1 [OF d inv size(2)]], rule wp_chain [OF wp_stage_flip2 [OF _ size(2) ne]],
        assumption, rule wp_chain [OF wp_stage_flip4 [OF _ size(2) ne]], assumption,
        rule wp_chain [OF wp_stage_flip8 [OF _ size(2)]], assumption,
        rule wp_chain [OF wp_pair_keep [OF _ wp_stage_flip16 wp_stage_flip32]], assumption, assumption,
        assumption, assumption, assumption,
        rule wp_chain [OF wp_arith_stages], assumption, rule wp_chain [OF wp_stage_interest8], assumption,
        rule wp_chain [OF wp_interest_stages], assumption, rule tail)
  then show ?thesis by (simp add: det_delivered_def Un_assoc)
qed

end

section \<open>Every neighbouring byte value is tried\<close>

lemma flips_in_byte:
  assumes "r + k \<le> 8" and "i < length b"
  shows "flips k (8 * i + r) b = b[i := b ! i XOR fold (\<lambda>j x. x XOR drop_bit (r + j) 128) [0..<k] 0]"
  using assms
proof (induction k)
  case (Suc k)
  have pos: "8 * i + r + k = (r + k) + 8 * i" by simp
  have "(8 * i + r + k) div 8 = i" "(8 * i + r + k) mod 8 = r + k"
    unfolding pos using Suc.prems(1) by (simp_all only: div_mult_self2 mod_mult_self2) simp_all
  then show ?case using Suc
    by (simp add: flips_def FLIP_BIT_def drop_bit_3 and_7 xor.assoc)
qed (simp add: flips_def)

lemma byte_pattern:
  assumes "flip_pattern (ucast (x :: u8)) sh k"
  shows "\<exists>r. k \<in> {1, 2, 4, 8} \<and> r + k \<le> 8 \<and> x = fold (\<lambda>j x. x XOR drop_bit (r + j) 128) [0..<k] 0 \<and> (k = 8 \<longrightarrow> x = 0xff)"
proof -
  have pat: "(ucast x :: u32) = push_bit sh (mask k)" and k: "k \<in> {1, 2, 4, 8, 16, 32}" and le: "sh + k \<le> 32"
    using assms by (auto simp: flip_pattern_def)
  have "bit (ucast x :: u32) (sh + k - 1)" using k le by (auto simp: pat bit_simps)
  then have small: "sh + k \<le> 8" by (auto simp: bit_simps dest: bit_imp_le_length)
  have x: "x = push_bit sh (mask k)"
  proof -
    have "x = ucast (ucast x :: u32)" by simp
    also have "\<dots> = push_bit sh (mask k)" unfolding pat by (rule bit_word_eqI) (auto simp: bit_simps)
    finally show ?thesis .
  qed
  have k': "k \<in> {1, 2, 4, 8}" and sh: "sh \<in> {0, 1, 2, 3, 4, 5, 6, 7}" using small k by auto
  have "x = fold (\<lambda>j x. x XOR drop_bit (8 - sh - k + j) 128) [0..<k] 0 \<and> (k = 8 \<longrightarrow> x = 0xff)"
    using k' sh small unfolding x
    by (elim insertE emptyE) (simp_all add: upt_rec mask_eq_exp_minus_1)
  then show ?thesis using k' small by (intro exI [of _ "8 - sh - k"]) auto
qed


lemma bitflip_delivered:
  fixes b :: buf
  assumes i: "i < length b" and eff: "em ! i \<noteq> 0" and flip: "could_be_bitflip (ucast (b ! i XOR v))"
  shows "b[i := v] \<in> det_delivered b em na"
proof (cases "b ! i = v")
  case True
  then have "b[i := v] = b" by auto
  then show ?thesis by (simp add: det_delivered_def)
next
  case False
  then have "b ! i XOR v \<noteq> 0" by (metis xor.right_neutral xor.assoc xor_self_eq xor.left_neutral)
  then have "(ucast (b ! i XOR v) :: u32) \<noteq> 0" by (metis ucast_u32_u8 ucast_0)
  then obtain sh k where pat: "flip_pattern (ucast (b ! i XOR v)) sh k"
    using flip by (auto simp: could_be_bitflip_iff)
  obtain r where k: "k \<in> {1, 2, 4, 8}" and r: "r + k \<le> 8"
    and x: "b ! i XOR v = fold (\<lambda>j x. x XOR drop_bit (r + j) 128) [0..<k] 0"
    and k8: "k = 8 \<longrightarrow> b ! i XOR v = 0xff"
    using byte_pattern [OF pat] by blast
  have v: "b ! i XOR (b ! i XOR v) = v" by (simp flip: xor.assoc)
  have flips: "flips k (8 * i + r) b = b[i := v]"
    using flips_in_byte [OF r i] v by (simp flip: x)
  have at: "(8 * i + r) div 8 = i" using r k by auto
  have in_walk: "b[i := v] \<in> walk_set k b em (8 * length b - (k - 1))" if "k \<in> {1, 2, 4}"
  proof -
    have "8 * i + r < 8 * length b - (k - 1)" using r i that by auto
    then show ?thesis unfolding walk_set_def using flips at eff by (auto intro!: exI [of _ "8 * i + r"])
  qed
  show ?thesis
  proof (cases "k = 8")
    case True
    then have "b[i := v] \<in> flip8_set b em (length b)"
      unfolding flip8_set_def using i eff k8 v by (auto intro!: exI [of _ i])
    then show ?thesis by (simp add: det_delivered_def)
  next
    case False
    then have "k = 1 \<or> k = 2 \<or> k = 4" using k by auto
    then show ?thesis using in_walk by (auto simp: det_delivered_def)
  qed
qed

lemma arith_delivered:
  fixes b :: buf
  assumes i: "i < length b" and eff: "em ! i \<noteq> 0" and near: "b ! i - v \<le> 35 \<or> v - b ! i \<le> 35"
  shows "b[i := v] \<in> det_delivered b em False"
proof (cases "could_be_bitflip (ucast (b ! i XOR v))")
  case True
  then show ?thesis by (rule bitflip_delivered [OF i eff])
next
  case False
  have "b ! i \<noteq> v" using False by (auto simp: could_be_bitflip_def)
  define j where "j = (if b ! i - v \<le> 35 then unat (b ! i - v) else unat (v - b ! i))"
  have j: "1 \<le> j" "j < ARITH_MAX + 1"
    using near \<open>b ! i \<noteq> v\<close> by (auto simp: j_def ARITH_MAX_def word_le_nat_alt Suc_le_eq unat_gt_0)
  have v: "v = b ! i + of_nat j \<or> v = b ! i - of_nat j" by (auto simp: j_def)
  have "b[i := v] \<in> arith8_set b i j" using v False unfolding arith8_set_def by blast
  then have "b[i := v] \<in> arith8_all b em" unfolding arith8_all_def using i eff j
    by (intro UN_I [of i] UN_I [of j]) auto
  then show ?thesis by (simp add: det_delivered_def)
qed

text \<open>
  With the arithmetic stages on, the values one byte is set to include all interesting ones
  and all within 35 of the original: the filters drop only duplicates.
\<close>

lemma byte_values_delivered:
  fixes b :: buf
  assumes i: "i < length b" and eff: "em ! i \<noteq> 0"
    and v: "v \<in> set interesting_8 \<or> b ! i - v \<le> 35 \<or> v - b ! i \<le> 35"
  shows "b[i := v] \<in> det_delivered b em False"
proof (cases "could_be_bitflip (ucast (b ! i XOR v)) \<or> could_be_arith (ucast (b ! i)) (ucast v) 1")
  case True
  then show ?thesis
    using bitflip_delivered [OF i eff, of v] arith_delivered [OF i eff, of v]
    by (auto simp only: could_be_arith_byte) (auto simp: could_be_bitflip_def)
next
  case False
  then show ?thesis
  proof (cases "b ! i - v \<le> 35 \<or> v - b ! i \<le> 35")
    case True
    then show ?thesis by (rule arith_delivered [OF i eff])
  next
    case far: False
    then have "b[i := v] \<in> interest8_set b i" using v False by (auto simp: interest8_set_def)
    then have "b[i := v] \<in> interest8_all b em" unfolding interest8_all_def using i eff by auto
    then show ?thesis by (simp add: det_delivered_def)
  qed
qed

end
