(* ===== verification/Run.thy ===== *)
theory Run
  imports DetStages Cache
begin

text \<open>
  Running the target (\<^verbatim>\<open>src/afl-fuzz-run.c\<close>) and deciding what to keep
  (\<^verbatim>\<open>save_if_interesting\<close> in \<^verbatim>\<open>src/afl-fuzz-bitmap.c\<close>). Not modelled are
  custom mutators, the status screen, the comparison-log mode and the names of the files
  written; files are the sequences of their contents.
\<close>

section \<open>One run of the target\<close>

text \<open>
  \<^verbatim>\<open>write_to_testcase\<close> without custom mutators. Bytes past the end of the caller's
  buffer are not represented: a length raised to \<^verbatim>\<open>min_length\<close> writes what there is.
\<close>

definition write_to_testcase :: "buf \<Rightarrow> nat \<Rightarrow> bool \<Rightarrow> afl \<Rightarrow> nat \<times> afl" where
  "write_to_testcase mem len fix s =
     (let len = (if len < min_length s \<and> \<not> fix then min_length s
                 else if len > max_length s then max_length s else len)
      in (len, s\<lparr>testcase := take len mem\<rparr>))"

text \<open>The shared map is cleared before the run; the target fills it from the start.\<close>

definition shared_map :: "nat \<Rightarrow> buf \<Rightarrow> buf" where
  "shared_map n t = take n t @ replicate (n - length t) 0"

definition fuzz_run_target :: "world \<Rightarrow> u32 \<Rightarrow> afl \<Rightarrow> fault \<times> afl" where
  "fuzz_run_target w timeout s =
     (let res = target w (delivered s) (testcase s) timeout in
      (out_fault res,
       s\<lparr>trace_bits := shared_map (map_size s) (out_trace res), total_execs := total_execs s + 1,
         delivered := delivered s @ [testcase s], stop_soon := stop_soon s \<or> out_stop res,
         skip_requested := skip_requested s \<or> out_skip res\<rparr>))"

section \<open>Calibration\<close>

definition CAL_CYCLES_FAST :: u32 where "CAL_CYCLES_FAST = 3"
definition CAL_CYCLES :: u32 where "CAL_CYCLES = 7"
definition CAL_CYCLES_LONG :: u32 where "CAL_CYCLES_LONG = 12"
definition CAL_TMOUT_ADD :: u32 where "CAL_TMOUT_ADD = 50"
definition CAL_TMOUT_PERC :: u32 where "CAL_TMOUT_PERC = 125"

record cal_locals =
  c_fault :: fault
  c_new_bits :: nat
  var_detected :: bool
  use_tmout :: u32
  calibration_start_us :: u64
  start_us :: u64

type_synonym cstate = "afl \<times> cal_locals"

definition update_calibration_time :: "world \<Rightarrow> cstate \<Rightarrow> cstate" where
  "update_calibration_time w = (\<lambda>(s, l).
     let (cur, s) = get_cur_time_us w s
     in (s\<lparr>calibration_time_us := calibration_time_us s + (cur - calibration_start_us l)\<rparr>,
         l\<lparr>calibration_start_us := cur\<rparr>))"

definition upd_entry_c :: "nat \<Rightarrow> (queue_entry \<Rightarrow> queue_entry) \<Rightarrow> cstate cmd" where
  "upd_entry_c q f = upd (\<lambda>(s, l). (upd_entry q f s, l))"

definition cal_start :: "world \<Rightarrow> nat \<Rightarrow> bool \<Rightarrow> afl \<Rightarrow> cstate" where
  "cal_start w q from_queue s =
     (let use_tmout = (if \<not> from_queue \<or> resuming_fuzz s
            then max (exec_tmout s + CAL_TMOUT_ADD) (exec_tmout s * CAL_TMOUT_PERC div 100)
            else exec_tmout s);
          (now, s) = get_cur_time_us w s;
          s = upd_entry q (\<lambda>e. e\<lparr>cal_failed := cal_failed e + 1\<rparr>) s;
          s = s\<lparr>stage_name := ''calibration'', stage_max := (if cal_fast s then CAL_CYCLES_FAST else CAL_CYCLES)\<rparr>
      in (s, \<lparr>c_fault = FSRV_RUN_OK, c_new_bits = 0, var_detected = False, use_tmout = use_tmout,
              calibration_start_us = now, start_us = 0\<rparr>))"

text \<open>\<^verbatim>\<open>hnb = has_new_bits(...); if (hnb > new_bits) { new_bits = hnb; }\<close>\<close>

definition note_new_bits :: "cstate cmd" where
  "note_new_bits = upd (\<lambda>(s, l).
     let (hnb, s) = has_new_bits Virgin_bits s in (s, l\<lparr>c_new_bits := max (c_new_bits l) hnb\<rparr>))"

text \<open>The bytes of the map that differ between two runs of the same input.\<close>

definition mark_variable_byte :: "nat \<Rightarrow> afl \<Rightarrow> afl" where
  "mark_variable_byte i s =
     (if var_bytes s ! i = 0 \<and> first_trace s ! i \<noteq> trace_bits s ! i
      then s\<lparr>var_bytes := (var_bytes s)[i := 1], virgin_bits := (virgin_bits s)[i := 0]\<rparr>
      else s)"

definition cal_execute :: "world \<Rightarrow> nat \<Rightarrow> buf \<Rightarrow> cstate cmd" where
  "cal_execute w q use_mem = steps
     [upd (\<lambda>(s, l). (snd (write_to_testcase use_mem (unat (q_len (entry s q))) True s), l)),
      upd (\<lambda>(s, l). let (fault, s) = fuzz_run_target w (use_tmout l) s in (s, l\<lparr>c_fault := fault\<rparr>)),
      upd (update_calibration_time w)]"

definition cal_verdict :: "cstate cmd" where
  "cal_verdict = steps
     [cond (\<lambda>(s, l). stop_soon s \<or> c_fault l \<noteq> crash_mode s) (goto Abort_calibration) skip,
      cond (\<lambda>(s, l). \<not> non_instrumented_mode s \<and> stage_cur s = 0 \<and> count_bytes s (trace_bits s) = 0)
        (steps [upd (\<lambda>(s, l). (s, l\<lparr>c_fault := FSRV_RUN_NOINST\<rparr>)), goto Abort_calibration]) skip]"

definition cal_unstable :: "cstate cmd" where
  "cal_unstable = upd (\<lambda>(s, l).
     ((fold mark_variable_byte [0..<map_size s] s)
        \<lparr>stage_max := (if cal_fast s then CAL_CYCLES else CAL_CYCLES_LONG)\<rparr>,
      l\<lparr>var_detected := True\<rparr>))"

definition cal_first :: "nat \<Rightarrow> u64 \<Rightarrow> cstate cmd" where
  "cal_first q cksum = upd (\<lambda>(s, l).
     ((upd_entry q (\<lambda>e. e\<lparr>exec_cksum := cksum\<rparr>) s)\<lparr>first_trace := trace_bits s\<rparr>, l))"

definition cal_compare :: "nat \<Rightarrow> u64 \<Rightarrow> cstate cmd" where
  "cal_compare q cksum =
     cond (\<lambda>(s, l). exec_cksum (entry s q) \<noteq> cksum)
       (steps [note_new_bits,
               cond (\<lambda>(s, l). exec_cksum (entry s q) \<noteq> 0) cal_unstable (cal_first q cksum)])
       skip"

definition cal_body :: "world \<Rightarrow> nat \<Rightarrow> buf \<Rightarrow> cstate cmd" where
  "cal_body w q use_mem = steps
     [cal_execute w q use_mem, cal_verdict, upd (\<lambda>(s, l). (classify_counts s, l)),
      reading (\<lambda>(s, l). hash64 w (trace_bits s)) (cal_compare q)]"

definition cal_finish :: "world \<Rightarrow> nat \<Rightarrow> u32 \<Rightarrow> bool \<Rightarrow> cstate cmd" where
  "cal_finish w q handicap' first_run = steps
     [reading (\<lambda>(s, l). (fixed_seed s, clock_us w (ticks s) - start_us l)) (\<lambda>(fixed, us).
        upd (\<lambda>(s, l).
          let diff_us = (if fixed then ucast (exec_tmout s - 1) * ucast (stage_max s)
                         else if us = 0 then 1 else us);
              s = (if fixed then s else s\<lparr>ticks := Suc (ticks s)\<rparr>);
              s = s\<lparr>total_cal_us := total_cal_us s + diff_us,
                    total_cal_cycles := total_cal_cycles s + ucast (stage_max s)\<rparr>
          in (upd_entry q (\<lambda>e. e\<lparr>exec_us := diff_us\<rparr>) s, l))),
      cond (\<lambda>(s, l). stage_max s = 0) (goto Fatal) skip,
      upd (\<lambda>(s, l). (upd_entry q (\<lambda>e. let us = exec_us e div ucast (stage_max s) in
             e\<lparr>exec_us := (if us = 0 then 1 else us), bitmap_size := count_bytes s (trace_bits s),
               handicap := ucast handicap', cal_failed := 0\<rparr>) s, l)),
      upd (\<lambda>(s, l). (s\<lparr>total_bitmap_size := total_bitmap_size s + ucast (bitmap_size (entry s q)),
             total_bitmap_entries := total_bitmap_entries s + 1\<rparr>, l)),
      upd (\<lambda>(s, l). (update_bitmap_score q s, l)),
      cond (\<lambda>(s, l). \<not> non_instrumented_mode s \<and> first_run \<and> c_fault l = FSRV_RUN_OK \<and> c_new_bits l = 0)
        (upd (\<lambda>(s, l). (s, l\<lparr>c_fault := FSRV_RUN_NOBITS\<rparr>))) skip]"

definition cal_abort :: "world \<Rightarrow> nat \<Rightarrow> cstate \<Rightarrow> cstate" where
  "cal_abort w q = (\<lambda>(s, l).
     let s = (if c_new_bits l = 2 \<and> \<not> has_new_cov (entry s q)
              then (upd_entry q (\<lambda>e. e\<lparr>has_new_cov := True\<rparr>) s)\<lparr>queued_with_cov := queued_with_cov s + 1\<rparr>
              else s);
         s = (if var_detected l
              then let s = s\<lparr>var_byte_count := count_bytes s (var_bytes s)\<rparr>
                   in if var_behavior (entry s q) then s
                      else (mark_as_variable q s)\<lparr>queued_variable := queued_variable s + 1\<rparr>
              else s)
     in (s, l))"

definition cal_loop :: "world \<Rightarrow> nat \<Rightarrow> buf \<Rightarrow> cstate cmd" where
  "cal_loop w q use_mem = steps
     [upd (\<lambda>(s, l). let (now, s) = get_cur_time_us w s in (s\<lparr>stage_cur := 0\<rparr>, l\<lparr>start_us := now\<rparr>)),
      while_cmd (\<lambda>(s, l). stage_cur s < stage_max s)
        (steps [cal_body w q use_mem, upd (\<lambda>(s, l). (s\<lparr>stage_cur := stage_cur s + 1\<rparr>, l))])]"

definition calibrate_case ::
    "world \<Rightarrow> nat \<Rightarrow> buf \<Rightarrow> u32 \<Rightarrow> bool \<Rightarrow> afl \<Rightarrow> (flow \<times> fault \<times> afl) option" where
  "calibrate_case w q use_mem handicap' from_queue s =
     (let first_run = (exec_cksum (entry s q) = 0);
          old = (stage_name s, stage_cur s, stage_max s);
          body = steps
            [cond (\<lambda>(s, l). exec_cksum (entry s q) \<noteq> 0)
               (steps [upd (\<lambda>(s, l). (s\<lparr>first_trace := trace_bits s\<rparr>, l)), note_new_bits]) skip,
             cal_loop w q use_mem,
             cal_finish w q handicap' first_run]
      in map_option (\<lambda>(f, st). if f = Fatal then (Fatal, c_fault (snd st), fst st) else
           (let (s, l) = cal_abort w q st;
                s = s\<lparr>stage_name := fst old, stage_cur := fst (snd old), stage_max := snd (snd old)\<rparr>;
                (s, l) = update_calibration_time w (s, l)
            in (Next, c_fault l, s)))
         (body (cal_start w q from_queue s)))"

section \<open>Keeping what is interesting\<close>

definition KEEP_UNIQUE_HANG :: u64 where "KEEP_UNIQUE_HANG = 500"
definition KEEP_UNIQUE_CRASH :: u64 where "KEEP_UNIQUE_CRASH = 10000"
definition N_FUZZ_SIZE :: u64 where "N_FUZZ_SIZE = 2 ^ 21"

text \<open>A path's frequency, counted in a table indexed by the checksum of its trace.\<close>

definition count_path :: "world \<Rightarrow> afl \<Rightarrow> u64 \<times> afl" where
  "count_path w s =
     (let s = classify_counts s; cksum = hash64 w (trace_bits s); i = unat (cksum mod N_FUZZ_SIZE)
      in (cksum, if n_fuzz s ! i < 0xFFFFFFFF then s\<lparr>n_fuzz := (n_fuzz s)[i := n_fuzz s ! i + 1]\<rparr> else s))"

definition counts_paths :: "afl \<Rightarrow> bool" where
  "counts_paths s \<longleftrightarrow> schedule s \<ge> FAST \<and> schedule s \<le> RARE"

record save_locals =
  v_len :: nat
  v_new_bits :: nat
  v_keeping :: nat
  v_classified :: bool
  v_need_hash :: bool
  v_cksum :: u64

type_synonym vstate = "afl \<times> save_locals"

text \<open>How a block of \<^verbatim>\<open>save_if_interesting\<close> is left.\<close>

datatype save_exit = Return | Goto_save_to_queue | Goto_keep_as_crash | Save_hang | Save_crash | Die

definition upd_top :: "(queue_entry \<Rightarrow> queue_entry) \<Rightarrow> afl \<Rightarrow> afl" where
  "upd_top f s = upd_entry (queue_top s) f s"

definition enqueue :: "world \<Rightarrow> buf \<Rightarrow> vstate \<Rightarrow> vstate" where
  "enqueue w mem = (\<lambda>(s, v).
     let s = add_to_queue w (take (v_len v) mem) (v_len v) False s;
         s = s\<lparr>queue_files := queue_files s @ [take (v_len v) mem]\<rparr>;
         s = (if fuzz_mode s \<and> switch_fuzz_mode s \<noteq> 0 \<and> \<not> non_instrumented_mode s
              then s\<lparr>fuzz_mode := False\<rparr> else s);
         s = (if v_new_bits v = 2
              then (upd_top (\<lambda>e. e\<lparr>has_new_cov := True\<rparr>) s)\<lparr>queued_with_cov := queued_with_cov s + 1\<rparr>
              else s);
         hashing = (v_need_hash v \<and> v_new_bits v \<noteq> 0);
         s = (if hashing then upd_top (\<lambda>e. e\<lparr>exec_cksum := hash64 w (trace_bits s)\<rparr>) s else s);
         i = v_cksum v mod N_FUZZ_SIZE;
         s = (if v_cksum v \<noteq> 0
              then (upd_top (\<lambda>e. e\<lparr>n_fuzz_entry := ucast i\<rparr>) s)\<lparr>n_fuzz := (n_fuzz s)[unat i := 1]\<rparr>
              else s)
     in (s, if hashing then v\<lparr>v_need_hash := False\<rparr> else v))"

definition save_to_queue :: "world \<Rightarrow> buf \<Rightarrow> vstate \<Rightarrow> (bool \<times> vstate) option" where
  "save_to_queue w mem st =
     (let (s, v) = enqueue w mem st in
      map_option (\<lambda>(f, res, s).
          if f = Fatal \<or> res = FSRV_RUN_ERROR then (False, s, v)
          else (True, if q_testcase_max_cache_size s \<noteq> 0
                      then queue_testcase_store_mem (queue_top s) mem s else s, v\<lparr>v_keeping := 1\<rparr>))
        (calibrate_case w (queue_top s) mem (ucast (queue_cycle s - 1)) False s))"

text \<open>Classify and simplify the trace, then look for news in the given map.\<close>

definition unique_in :: "virgin \<Rightarrow> vstate \<Rightarrow> bool \<times> vstate" where
  "unique_in vm = (\<lambda>(s, v).
     if non_instrumented_mode s then (True, s, v)
     else let s = (if v_classified v then s else classify_counts s);
              s = s\<lparr>trace_bits := simplify_trace s (trace_bits s)\<rparr>;
              (hnb, s) = has_new_bits vm s
          in (hnb \<noteq> 0, s, v\<lparr>v_classified := True\<rparr>))"

definition rerun_hang :: "world \<Rightarrow> buf \<Rightarrow> vstate \<Rightarrow> save_exit \<times> vstate" where
  "rerun_hang w mem = (\<lambda>(s, v).
     let (tmp_len, s) = write_to_testcase mem (v_len v) False s;
         (len, s) = (if tmp_len \<noteq> 0 then (tmp_len, s) else write_to_testcase mem (v_len v) True s);
         v = v\<lparr>v_len := len\<rparr>;
         (new_fault, s) = fuzz_run_target w (hang_tmout s) s;
         s = classify_counts s
     in if \<not> stop_soon s \<and> new_fault = FSRV_RUN_CRASH then (Goto_keep_as_crash, s, v)
        else if stop_soon s \<or> new_fault \<noteq> FSRV_RUN_TMOUT
        then if keep_timeouts s then (Goto_save_to_queue, s\<lparr>saved_tmouts := saved_tmouts s + 1\<rparr>, v)
             else (Return, s, v)
        else (Save_hang, s, v))"

definition case_tmout :: "world \<Rightarrow> buf \<Rightarrow> vstate \<Rightarrow> save_exit \<times> vstate" where
  "case_tmout w mem = (\<lambda>(s, v).
     let s = s\<lparr>total_tmouts := total_tmouts s + 1\<rparr>
     in if saved_hangs s \<ge> KEEP_UNIQUE_HANG then (Return, s, v)
        else let (new, s, v) = unique_in Virgin_tmout (s, v)
             in if \<not> new then (Return, s, v)
                else if exec_tmout s < hang_tmout s then rerun_hang w mem (s, v) else (Save_hang, s, v))"

definition case_crash :: "vstate \<Rightarrow> save_exit \<times> vstate" where
  "case_crash = (\<lambda>(s, v).
     let s = s\<lparr>total_crashes := total_crashes s + 1\<rparr>
     in if saved_crashes s \<ge> KEEP_UNIQUE_CRASH then (Return, s, v)
        else let (new, s, v) = unique_in Virgin_crash (s, v)
             in (if new then Save_crash else Return, s, v))"

definition switch_fault :: "world \<Rightarrow> buf \<Rightarrow> fault \<Rightarrow> vstate \<Rightarrow> save_exit \<times> vstate" where
  "switch_fault w mem fault st =
     (case fault of
        FSRV_RUN_TMOUT \<Rightarrow> (let (x, st) = case_tmout w mem st in
          if x = Goto_keep_as_crash then case_crash st else (x, st))
      | FSRV_RUN_CRASH \<Rightarrow> case_crash st
      | FSRV_RUN_ERROR \<Rightarrow> (Die, st)
      | _ \<Rightarrow> (Return, st))"

text \<open>The end of the two cases that save a file, and the file.\<close>

definition save_hang :: "world \<Rightarrow> buf \<Rightarrow> vstate \<Rightarrow> afl" where
  "save_hang w mem = (\<lambda>(s, v).
     let (now, s) = get_cur_time w (s\<lparr>saved_hangs := saved_hangs s + 1\<rparr>)
     in s\<lparr>last_hang_time := now, hang_files := hang_files s @ [take (v_len v) mem]\<rparr>)"

definition save_crash :: "world \<Rightarrow> buf \<Rightarrow> vstate \<Rightarrow> afl" where
  "save_crash w mem = (\<lambda>(s, v).
     let (now, s) = get_cur_time w (s\<lparr>saved_crashes := saved_crashes s + 1\<rparr>)
     in s\<lparr>last_crash_time := now, last_crash_execs := total_execs s,
          crash_files := crash_files s @ [take (v_len v) mem]\<rparr>)"

text \<open>
  From the switch on. The jump back to \<^verbatim>\<open>save_to_queue\<close> makes it a loop; the first
  component of a result is false after \<^verbatim>\<open>FATAL\<close>.
\<close>

partial_function (option) switch_loop :: "world \<Rightarrow> buf \<Rightarrow> fault \<Rightarrow> vstate \<Rightarrow> (bool \<times> nat \<times> afl) option" where
  "switch_loop w mem fault st =
     (let (x, st) = switch_fault w mem fault st in
      if x = Goto_save_to_queue
      then Option.bind (save_to_queue w mem st) (\<lambda>(alive, st).
             if alive then switch_loop w mem fault st else Some (False, 0, fst st))
      else Some (x \<noteq> Die, v_keeping (snd st),
             if x = Save_hang then save_hang w mem st
             else if x = Save_crash then save_crash w mem st else fst st))"

definition save_if_interesting :: "world \<Rightarrow> buf \<Rightarrow> nat \<Rightarrow> fault \<Rightarrow> afl \<Rightarrow> (bool \<times> nat \<times> afl) option" where
  "save_if_interesting w mem len fault s =
     (if len = 0 then Some (True, 0, s)
      else if fault = FSRV_RUN_TMOUT \<and> ignore_timeouts s
      then Some (True, 0, if counts_paths s then snd (count_path w s) else s)
      else let classified = counts_paths s;
               (cksum, s) = (if classified then count_path w s else (0, s));
               v = \<lparr>v_len = len, v_new_bits = 0, v_keeping = 0, v_classified = classified,
                    v_need_hash = \<not> classified, v_cksum = cksum\<rparr>
           in if fault = crash_mode s
              then let (new_bits, s) = (if classified then has_new_bits Virgin_bits s
                                        else has_new_bits_unclassified Virgin_bits s)
                   in if new_bits = 0
                      then Some (True, 0, if crash_mode s \<noteq> FSRV_RUN_OK
                                          then s\<lparr>total_crashes := total_crashes s + 1\<rparr> else s)
                      else Option.bind
                             (save_to_queue w mem (s, v\<lparr>v_new_bits := new_bits, v_classified := True\<rparr>))
                             (\<lambda>(alive, st). if alive then switch_loop w mem fault st else Some (False, 0, fst st))
              else switch_loop w mem fault (s, v))"

section \<open>\<open>common_fuzz_stuff\<close>\<close>

definition TMOUT_LIMIT :: u32 where "TMOUT_LIMIT = 250"

definition common_fuzz_stuff :: "world \<Rightarrow> runner" where
  "common_fuzz_stuff w out len s =
     (let (len, s) = write_to_testcase out len False s in
      if len = 0 then Some (Ret0, s)
      else let (fault, s) = fuzz_run_target w (exec_tmout s) s in
        if stop_soon s then Some (Ret1, s)
        else let late = (fault = FSRV_RUN_TMOUT \<and> subseq_tmouts s > TMOUT_LIMIT);
                 s = s\<lparr>subseq_tmouts := (if fault = FSRV_RUN_TMOUT then subseq_tmouts s + 1 else 0)\<rparr>
             in if late then Some (Ret1, s\<lparr>cur_skipped_items := cur_skipped_items s + 1\<rparr>)
                else if skip_requested s
                then Some (Ret1, s\<lparr>skip_requested := False, cur_skipped_items := cur_skipped_items s + 1\<rparr>)
                else map_option (\<lambda>(alive, n, s).
                       if alive then (Ret0, s\<lparr>queued_discovered := queued_discovered s + of_nat n\<rparr>)
                       else (Died, s))
                     (save_if_interesting w out len fault s))"

section \<open>What a run leaves alone\<close>

text \<open>
  A step that touches neither what the stages keep, nor what has been delivered, nor the
  number of hangs.
\<close>

definition quiet :: "afl \<Rightarrow> afl \<Rightarrow> bool" where
  "quiet s s' \<longleftrightarrow> stage_frame s s' \<and> delivered s' = delivered s \<and> saved_hangs s' = saved_hangs s"

lemma quiet_refl [simp, intro]: "quiet s s"
  by (simp add: quiet_def)

lemma quiet_trans [trans]: "quiet a b \<Longrightarrow> quiet b c \<Longrightarrow> quiet a c"
  unfolding quiet_def using stage_frame_trans by metis

lemma quiet_upd_entry [simp]: "quiet s (upd_entry q f s')  \<longleftrightarrow> quiet s s'"
  by (simp add: quiet_def stage_frame_def upd_entry_def)

lemma quiet_simps [simp]:
  "quiet s (s'\<lparr>trace_bits := x1\<rparr>) = quiet s s'" "quiet s (s'\<lparr>bitmap_changed := x2\<rparr>) = quiet s s'"
  "quiet s (s'\<lparr>ticks := x3\<rparr>) = quiet s s'" "quiet s (s'\<lparr>queued_with_cov := x4\<rparr>) = quiet s s'"
  "quiet s (s'\<lparr>n_fuzz := x5\<rparr>) = quiet s s'" "quiet s (s'\<lparr>fuzz_mode := x6\<rparr>) = quiet s s'"
  "quiet s (s'\<lparr>queue_files := x7\<rparr>) = quiet s s'" "quiet s (s'\<lparr>crash_files := x8\<rparr>) = quiet s s'"
  "quiet s (s'\<lparr>hang_files := x9\<rparr>) = quiet s s'" "quiet s (s'\<lparr>saved_crashes := y1\<rparr>) = quiet s s'"
  "quiet s (s'\<lparr>saved_tmouts := y3\<rparr>) = quiet s s'"
  "quiet s (s'\<lparr>total_crashes := y4\<rparr>) = quiet s s'" "quiet s (s'\<lparr>total_tmouts := y5\<rparr>) = quiet s s'"
  "quiet s (s'\<lparr>last_hang_time := y6\<rparr>) = quiet s s'" "quiet s (s'\<lparr>last_crash_time := y7\<rparr>) = quiet s s'"
  "quiet s (s'\<lparr>last_crash_execs := y8\<rparr>) = quiet s s'" "quiet s (s'\<lparr>var_byte_count := y9\<rparr>) = quiet s s'"
  "quiet s (s'\<lparr>queued_variable := z1\<rparr>) = quiet s s'" "quiet s (s'\<lparr>first_trace := z2\<rparr>) = quiet s s'"
  "quiet s (s'\<lparr>var_bytes := z3\<rparr>) = quiet s s'" "quiet s (s'\<lparr>virgin_bits := z4\<rparr>) = quiet s s'"
  "quiet s (s'\<lparr>calibration_time_us := z5\<rparr>) = quiet s s'" "quiet s (s'\<lparr>total_cal_us := z6\<rparr>) = quiet s s'"
  "quiet s (s'\<lparr>total_cal_cycles := z7\<rparr>) = quiet s s'" "quiet s (s'\<lparr>total_bitmap_size := z8\<rparr>) = quiet s s'"
  "quiet s (s'\<lparr>total_bitmap_entries := z9\<rparr>) = quiet s s'" "quiet s (s'\<lparr>testcase := w1\<rparr>) = quiet s s'"
  "quiet s (s'\<lparr>queued_discovered := w2\<rparr>) = quiet s s'" "quiet s (s'\<lparr>subseq_tmouts := w3\<rparr>) = quiet s s'"
  "quiet s (s'\<lparr>cur_skipped_items := w4\<rparr>) = quiet s s'" "quiet s (s'\<lparr>skip_requested := w5\<rparr>) = quiet s s'"
  "quiet s (s'\<lparr>virgin_tmout := w6\<rparr>) = quiet s s'" "quiet s (s'\<lparr>virgin_crash := w7\<rparr>) = quiet s s'"
  by (simp_all add: quiet_def stage_frame_def)

lemma quiet_classify_counts [simp]: "quiet s (classify_counts s') = quiet s s'"
  by (simp add: classify_counts_def)

lemma quiet_has_new_bits [simp]: "quiet s (snd (has_new_bits vm s')) = quiet s s'"
  by (cases vm) (auto simp: has_new_bits_def Let_def split: prod.splits)

lemma quiet_has_new_bits_unclassified [simp]: "quiet s (snd (has_new_bits_unclassified vm s')) = quiet s s'"
  by (simp add: has_new_bits_unclassified_def)

lemma quiet_contest_frame: "contest_frame s s' \<Longrightarrow> quiet r s \<Longrightarrow> quiet r s'"
proof -
  assume "contest_frame s s'" and r: "quiet r s"
  then have s': "s' = s\<lparr>queue_buf := queue_buf s', top_rated := top_rated s', score_changed := score_changed s'\<rparr>"
    by (simp add: contest_frame_def)
  show "quiet r s'" by (subst s') (use r in \<open>simp add: quiet_def stage_frame_def\<close>)
qed

lemma quiet_update_bitmap_score [simp]: "quiet r s \<Longrightarrow> quiet r (update_bitmap_score q s)"
  by (rule quiet_contest_frame [OF update_bitmap_score_frame])

lemma quiet_mark_as_variable [simp]: "quiet r (mark_as_variable q s) = quiet r s"
  by (simp add: mark_as_variable_def)

lemma quiet_mark_variable_bytes [simp]: "quiet r (fold mark_variable_byte is s) = quiet r s"
  by (induction "is" arbitrary: s) (simp_all add: mark_variable_byte_def)

lemma quiet_add_to_queue [simp]: "quiet r (add_to_queue w file len passed s) = quiet r s"
  by (simp add: add_to_queue_def Let_def quiet_def stage_frame_def get_cur_time_def)

lemma quiet_store_mem [simp]: "quiet r (queue_testcase_store_mem q mem s) = quiet r s"
  by (simp add: queue_testcase_store_mem_def register_def Let_def quiet_def stage_frame_def upd_entry_def)

lemma quiet_count_path [simp]: "quiet r (snd (count_path w s)) = quiet r s"
  by (simp add: count_path_def Let_def)

lemma quiet_unique_in [simp]: "quiet r (fst (snd (unique_in vm (s, v)))) = quiet r s"
  by (simp add: unique_in_def Let_def split: prod.split)
     (metis quiet_classify_counts quiet_has_new_bits quiet_simps(1) snd_conv)


text \<open>
  Runs on behalf of the input \<open>mem\<close> of length \<open>n\<close>: the target gets that input
  and no other, provided its length is within the limits.
\<close>

definition run_frame :: "nat \<Rightarrow> buf \<Rightarrow> afl \<Rightarrow> afl \<Rightarrow> bool" where
  "run_frame n mem s s' \<longleftrightarrow> stage_frame s s' \<and> set (delivered s) \<subseteq> set (delivered s') \<and>
     (length_ok n s \<longrightarrow> set (delivered s') \<subseteq> insert (take n mem) (set (delivered s)))"

lemma run_frame_refl [simp, intro]: "run_frame n mem s s"
  by (auto simp: run_frame_def)

lemma run_frame_quiet: "run_frame n mem s0 s \<Longrightarrow> quiet s s' \<Longrightarrow> run_frame n mem s0 s'"
  unfolding run_frame_def quiet_def using stage_frame_trans by metis

lemma run_frame_write [simp]: "run_frame n mem s0 (snd (write_to_testcase m k fix s)) = run_frame n mem s0 s"
  by (simp add: write_to_testcase_def Let_def run_frame_def stage_frame_def)

lemma length_ok_frame: "stage_frame s s' \<Longrightarrow> length_ok n s' = length_ok n s"
  by (simp add: stage_frame_def length_ok_def)

lemma fst_write [simp]: "length_ok n s \<Longrightarrow> fst (write_to_testcase mem n fix s) = n"
  by (simp add: write_to_testcase_def length_ok_def)

lemma run_frame_run:
  assumes fr: "run_frame n mem s0 s"
  shows "run_frame n mem s0 (snd (fuzz_run_target w tm (snd (write_to_testcase mem n fix s))))"
proof -
  have "testcase (snd (write_to_testcase mem n fix s)) = take n mem" if "length_ok n s0"
    using that fr by (auto simp: write_to_testcase_def length_ok_def run_frame_def stage_frame_def)
  then show ?thesis
    using fr by (auto simp: run_frame_def fuzz_run_target_def Let_def stage_frame_def write_to_testcase_def)
qed

text \<open>Calibration borrows the stage counters and gives them back.\<close>

definition give_back :: "afl \<Rightarrow> afl \<Rightarrow> afl" where
  "give_back s0 s = s\<lparr>stage_name := stage_name s0, stage_cur := stage_cur s0, stage_max := stage_max s0\<rparr>"

definition cal_frame :: "nat \<Rightarrow> buf \<Rightarrow> afl \<Rightarrow> afl \<Rightarrow> bool" where
  "cal_frame n mem s0 s \<longleftrightarrow> run_frame n mem s0 (give_back s0 s) \<and> saved_hangs s = saved_hangs s0"

lemma cal_frame_refl [simp, intro]: "cal_frame n mem s s"
  by (simp add: cal_frame_def give_back_def)

lemma cal_frame_quiet:
  assumes "cal_frame n mem s0 s" and "quiet s s'"
  shows "cal_frame n mem s0 s'"
proof -
  have "quiet (give_back s0 s) (give_back s0 s')"
    using assms(2) by (simp add: quiet_def stage_frame_def give_back_def)
  then show ?thesis using assms run_frame_quiet unfolding cal_frame_def quiet_def by metis
qed

lemma cal_frame_stage [simp]:
  "cal_frame n mem s0 (s\<lparr>stage_cur := c\<rparr>) = cal_frame n mem s0 s"
  "cal_frame n mem s0 (s\<lparr>stage_max := m\<rparr>) = cal_frame n mem s0 s"
  "cal_frame n mem s0 (s\<lparr>stage_name := x\<rparr>) = cal_frame n mem s0 s"
  by (simp_all add: cal_frame_def give_back_def)

lemma cal_frame_run:
  assumes "cal_frame n mem s0 s"
  shows "cal_frame n mem s0 (snd (fuzz_run_target w tm (snd (write_to_testcase mem n fix s))))"
proof -
  have "give_back s0 (snd (fuzz_run_target w tm (snd (write_to_testcase mem n fix s)))) =
      snd (fuzz_run_target w tm (snd (write_to_testcase mem n fix (give_back s0 s))))"
    by (simp add: give_back_def fuzz_run_target_def write_to_testcase_def Let_def)
  moreover have "saved_hangs (snd (fuzz_run_target w tm (snd (write_to_testcase mem n fix s)))) = saved_hangs s"
    by (simp add: fuzz_run_target_def write_to_testcase_def Let_def)
  ultimately show ?thesis
    using run_frame_run assms unfolding cal_frame_def by metis
qed

lemma run_stage_max [simp]:
  "stage_max (snd (fuzz_run_target w tm s)) = stage_max s" "stage_cur (snd (fuzz_run_target w tm s)) = stage_cur s"
  "queue_buf (snd (fuzz_run_target w tm s)) = queue_buf s"
  "stage_max (snd (write_to_testcase m k fix s)) = stage_max s" "stage_cur (snd (write_to_testcase m k fix s)) = stage_cur s"
  "queue_buf (snd (write_to_testcase m k fix s)) = queue_buf s"
  by (simp_all add: fuzz_run_target_def write_to_testcase_def Let_def)

lemma wp_skip [simp]: "wp d skip Q st \<longleftrightarrow> Q Next st"
  by (simp add: skip_def)

section \<open>Calibration ends\<close>

definition cal_inv :: "nat \<Rightarrow> buf \<Rightarrow> nat \<Rightarrow> afl \<Rightarrow> cstate \<Rightarrow> bool" where
  "cal_inv n mem q s0 st \<longleftrightarrow> (case st of (s, l) \<Rightarrow>
     cal_frame n mem s0 s \<and> unat (q_len (entry s q)) = n \<and> stage_max s \<in> {3, 7, 12})"

definition cal_exit :: "nat \<Rightarrow> buf \<Rightarrow> afl \<Rightarrow> flow \<Rightarrow> cstate \<Rightarrow> bool" where
  "cal_exit n mem s0 f st \<longleftrightarrow> f = Abort_calibration \<and> cal_frame n mem s0 (fst st)"

lemma q_len_upd_entry:
  assumes "\<And>e. q_len (f e) = q_len e"
  shows "q_len (entry (upd_entry q f s) q') = q_len (entry s q')"
  using assms by (cases "q < length (queue_buf s)") (auto simp: entry_def upd_entry_def nth_list_update_if)

lemma cal_inv_quiet:
  assumes "cal_inv n mem q s0 (s, l)" and "quiet s s'"
    and "q_len (entry s' q) = q_len (entry s q)" 
  shows "cal_inv n mem q s0 (s', l')"
proof -
  have "stage_max s' = stage_max s" using assms(2) by (simp add: quiet_def stage_frame_def)
  then show ?thesis using assms(1,3) cal_frame_quiet [OF _ assms(2)] by (simp add: cal_inv_def)
qed

lemma entry_of_queue_buf: "queue_buf s' = queue_buf s \<Longrightarrow> entry s' = entry s"
  by (simp add: entry_def fun_eq_iff)


definition cal_at :: "nat \<Rightarrow> buf \<Rightarrow> nat \<Rightarrow> afl \<Rightarrow> u32 \<Rightarrow> cstate \<Rightarrow> bool" where
  "cal_at n mem q s0 c st \<longleftrightarrow> cal_inv n mem q s0 st \<and> stage_cur (fst st) = c"

lemma cal_at_quiet:
  assumes "cal_at n mem q s0 c (s, l)" and "quiet s s'" and "q_len (entry s' q) = q_len (entry s q)"
  shows "cal_at n mem q s0 c (s', l')"
proof -
  have "stage_cur s' = stage_cur s" using assms(2) by (simp add: quiet_def stage_frame_def)
  moreover have "cal_inv n mem q s0 (s', l')"
    using cal_inv_quiet [OF _ assms(2,3)] assms(1) unfolding cal_at_def by blast
  ultimately show ?thesis using assms(1) by (simp add: cal_at_def)
qed

lemma cal_at_locals: "cal_at n mem q s0 c (s, l) \<Longrightarrow> cal_at n mem q s0 c (s, l')"
  by (rule cal_at_quiet) auto

lemma cal_at_exit: "cal_at n mem q s0 c (s, l) \<Longrightarrow> cal_exit n mem s0 Abort_calibration (s, l')"
  by (simp add: cal_at_def cal_inv_def cal_exit_def)

lemma cal_at_stage_max:
  "cal_at n mem q s0 c (s, l) \<Longrightarrow> m \<in> {3, 7, 12} \<Longrightarrow> cal_at n mem q s0 c (s\<lparr>stage_max := m\<rparr>, l)"
  by (simp add: cal_at_def cal_inv_def entry_def)

lemma queue_buf_frame [simp]:
  "queue_buf (classify_counts s) = queue_buf s" "queue_buf (snd (has_new_bits vm s)) = queue_buf s"
  "queue_buf (fold mark_variable_byte is s) = queue_buf s"
proof -
  show "queue_buf (classify_counts s) = queue_buf s" by (simp add: classify_counts_def)
  show "queue_buf (snd (has_new_bits vm s)) = queue_buf s"
    by (cases vm) (auto simp: has_new_bits_def Let_def split: prod.splits)
  show "queue_buf (fold mark_variable_byte is s) = queue_buf s"
    by (induction "is" arbitrary: s) (simp_all add: mark_variable_byte_def)
qed

lemma entry_frame [simp]:
  "entry (classify_counts s) = entry s" "entry (snd (has_new_bits vm s)) = entry s"
  "entry (fold mark_variable_byte is s) = entry s" "entry (snd (fuzz_run_target w tm s)) = entry s"
  "entry (snd (write_to_testcase m k fix s)) = entry s"
  by (rule entry_of_queue_buf, simp)+

lemma wp_note_new_bits:
  assumes "cal_at n mem q s0 c st"
  shows "wp d note_new_bits (andthen (cal_at n mem q s0 c) Q) st"
proof (cases st)
  case (Pair s l)
  have "cal_at n mem q s0 c (snd (has_new_bits Virgin_bits s), l')" for l'
    by (rule cal_at_quiet [OF assms [unfolded Pair]]) simp_all
  then show ?thesis by (simp add: Pair note_new_bits_def case_prod_unfold Let_def)
qed

lemma wp_cal_execute:
  assumes inv: "cal_at n mem q s0 c st"
  shows "wp d (cal_execute w q mem) (andthen (cal_at n mem q s0 c) Q) st"
proof -
  obtain s l where st: "st = (s, l)" by (cases st)
  let ?s1 = "snd (write_to_testcase mem (unat (q_len (entry s q))) True s)"
  let ?s2 = "snd (fuzz_run_target w (use_tmout l) ?s1)"
  have n: "unat (q_len (entry s q)) = n" using inv by (simp add: st cal_at_def cal_inv_def)
  have "cal_inv n mem q s0 (?s2, l')" for l'
    using inv unfolding n by (simp add: st cal_at_def cal_inv_def cal_frame_run)
  then have J2: "cal_at n mem q s0 c (?s2, l')" for l' using inv by (simp add: st cal_at_def)
  have time: "cal_at n mem q s0 c (update_calibration_time w (x, l'))" if "cal_at n mem q s0 c (x, l')" for x l'
    unfolding update_calibration_time_def get_cur_time_us_def Let_def prod.case
    by (rule cal_at_quiet [OF that]) (simp_all add: entry_def)
  show ?thesis
    using time [OF J2] by (simp add: cal_execute_def st case_prod_unfold Let_def)
qed

lemma wp_cal_verdict:
  assumes "cal_at n mem q s0 c st"
  shows "wp d cal_verdict (andthen (cal_at n mem q s0 c) (cal_exit n mem s0)) st"
  using assms cal_at_exit by (cases st) (auto simp: cal_verdict_def skip_def andthen_def)

lemma wp_cal_compare:
  assumes "cal_at n mem q s0 c st"
  shows "wp d (cal_compare q h) (andthen (cal_at n mem q s0 c) Q) st"
proof -
  have unstable: "wp d cal_unstable (andthen (cal_at n mem q s0 c) Q) x" if J: "cal_at n mem q s0 c x" for x
  proof (cases x)
    case (Pair s l)
    have "cal_at n mem q s0 c ((fold mark_variable_byte [0..<map_size s] s)\<lparr>stage_max := m\<rparr>, l')"
      if "m \<in> {3, 7, 12}" for l' m
      by (rule cal_at_stage_max [OF cal_at_quiet [OF J [unfolded Pair]] that]) simp_all
    then show ?thesis by (simp add: Pair cal_unstable_def CAL_CYCLES_def CAL_CYCLES_LONG_def)
  qed
  have first: "wp d (cal_first q h) (andthen (cal_at n mem q s0 c) Q) x" if J: "cal_at n mem q s0 c x" for x
  proof (cases x)
    case (Pair s l)
    have "q_len (entry ((upd_entry q (\<lambda>e. e\<lparr>exec_cksum := h\<rparr>) s)\<lparr>first_trace := t\<rparr>) q) = q_len (entry s q)" for t
      using q_len_upd_entry [of "\<lambda>e. e\<lparr>exec_cksum := h\<rparr>" q s q] by (simp add: entry_def)
    then have "cal_at n mem q s0 c ((upd_entry q (\<lambda>e. e\<lparr>exec_cksum := h\<rparr>) s)\<lparr>first_trace := trace_bits s\<rparr>, l)"
      by (intro cal_at_quiet [OF J [unfolded Pair]]) simp_all
    then show ?thesis by (simp add: Pair cal_first_def)
  qed
  show ?thesis
  proof (cases "exec_cksum (entry (fst st) q) \<noteq> h")
    case True
    have "wp d (steps [note_new_bits,
        cond (\<lambda>(s, l). exec_cksum (entry s q) \<noteq> 0) cal_unstable (cal_first q h)])
        (andthen (cal_at n mem q s0 c) Q) st"
      by (rule wp_seq [OF wp_note_new_bits [OF assms]]) (use unstable first in \<open>auto split: prod.split\<close>)
    then show ?thesis using True by (cases st) (simp add: cal_compare_def)
  next
    case False
    then show ?thesis using assms by (cases st) (simp add: cal_compare_def)
  qed
qed

lemma wp_cal_body:
  assumes inv: "cal_at n mem q s0 c st"
  shows "wp d (cal_body w q mem) (andthen (cal_at n mem q s0 c) (cal_exit n mem s0)) st"
  unfolding cal_body_def
proof (rule wp_seq [where R = "cal_at n mem q s0 c"])
  show "wp d (cal_execute w q mem) (andthen (cal_at n mem q s0 c) (andthen (cal_at n mem q s0 c) (cal_exit n mem s0))) st"
    by (rule wp_cal_execute [OF inv])
next
  fix x assume x: "cal_at n mem q s0 c x"
  have classify: "wp d (upd (\<lambda>(s, l). (classify_counts s, l))) (andthen (cal_at n mem q s0 c) Q) y"
    if "cal_at n mem q s0 c y" for y Q
  proof (cases y)
    case (Pair s l)
    show ?thesis unfolding Pair wp_upd andthen_simps prod.case
      by (rule cal_at_quiet [OF that [unfolded Pair]]) simp_all
  qed
  show "wp d (steps [cal_verdict, upd (\<lambda>(s, l). (classify_counts s, l)),
      reading (\<lambda>(s, l). hash64 w (trace_bits s)) (cal_compare q)])
      (andthen (cal_at n mem q s0 c) (cal_exit n mem s0)) x"
  proof (rule wp_seq [where R = "cal_at n mem q s0 c"])
    show "wp d cal_verdict (andthen (cal_at n mem q s0 c) (andthen (cal_at n mem q s0 c) (cal_exit n mem s0))) x"
      using wp_cal_verdict [OF x] by simp
  next
    fix y assume y: "cal_at n mem q s0 c y"
    show "wp d (steps [upd (\<lambda>(s, l). (classify_counts s, l)),
        reading (\<lambda>(s, l). hash64 w (trace_bits s)) (cal_compare q)])
        (andthen (cal_at n mem q s0 c) (cal_exit n mem s0)) y"
      by (rule wp_seq [OF classify [OF y]]) (use wp_cal_compare in simp)
  qed
qed

lemma wp_cal_loop:
  assumes inv: "cal_inv n mem q s0 st"
  shows "wp d (cal_loop w q mem) (andthen (cal_inv n mem q s0) (cal_exit n mem s0)) st"
proof -
  obtain s l where st: "st = (s, l)" by (cases st)
  let ?Q = "andthen (cal_inv n mem q s0) (cal_exit n mem s0)"
  have "cal_inv n mem q s0 (s\<lparr>ticks := Suc (ticks s), stage_cur := 0\<rparr>, l\<lparr>start_us := t\<rparr>)" for t
  proof -
    have "cal_inv n mem q s0 (s\<lparr>ticks := Suc (ticks s)\<rparr>, l)"
      by (rule cal_inv_quiet [OF inv [unfolded st]]) (simp_all add: entry_def)
    then show ?thesis by (simp add: cal_inv_def entry_def)
  qed
  moreover have "wp d (while_cmd (\<lambda>(s, l). stage_cur s < stage_max s)
      (steps [cal_body w q mem, upd (\<lambda>(s, l). (s\<lparr>stage_cur := stage_cur s + 1\<rparr>, l))])) ?Q x"
    if "cal_inv n mem q s0 x" for x
  proof (rule wp_while [where I = "cal_inv n mem q s0" and m = "\<lambda>x. 12 - unat (stage_cur (fst x))", OF that])
    fix y assume y: "cal_inv n mem q s0 y" "(\<lambda>(s, l). stage_cur s < stage_max s) y"
    then have small: "unat (stage_cur (fst y)) < 12"
      by (auto simp: cal_inv_def word_less_nat_alt)
    have "wp d (steps [cal_body w q mem, upd (\<lambda>(s, l). (s\<lparr>stage_cur := stage_cur s + 1\<rparr>, l))])
      (andthen (\<lambda>x. cal_inv n mem q s0 x \<and> 12 - unat (stage_cur (fst x)) < 12 - unat (stage_cur (fst y))) ?Q) y"
    proof (rule wp_seq [where R = "cal_at n mem q s0 (stage_cur (fst y))"])
      show "wp d (cal_body w q mem) (andthen (cal_at n mem q s0 (stage_cur (fst y)))
          (andthen (\<lambda>x. cal_inv n mem q s0 x \<and> 12 - unat (stage_cur (fst x)) < 12 - unat (stage_cur (fst y))) ?Q)) y"
        by (rule wp_mono [OF wp_cal_body])
          (use y in \<open>auto simp: cal_at_def andthen_def cal_exit_def split: if_splits\<close>)
    next
      fix z assume z: "cal_at n mem q s0 (stage_cur (fst y)) z"
      have "unat (stage_cur (fst y) + 1) = unat (stage_cur (fst y)) + 1"
        using small by (subst unat_add_lem [THEN iffD1]) simp_all
      then show "wp d (steps [upd (\<lambda>(s, l). (s\<lparr>stage_cur := stage_cur s + 1\<rparr>, l))])
        (andthen (\<lambda>x. cal_inv n mem q s0 x \<and> 12 - unat (stage_cur (fst x)) < 12 - unat (stage_cur (fst y))) ?Q) z"
        using z small by (cases z) (simp add: cal_at_def cal_inv_def entry_def)
    qed
    then show "wp d (steps [cal_body w q mem, upd (\<lambda>(s, l). (s\<lparr>stage_cur := stage_cur s + 1\<rparr>, l))])
      (andthen (\<lambda>x. cal_inv n mem q s0 x \<and> 12 - unat (stage_cur (fst x)) < 12 - unat (stage_cur (fst y))) ?Q) y" .
  qed simp
  ultimately show ?thesis
    by (simp add: cal_loop_def st get_cur_time_us_def)
qed


text \<open>What comes after the loop runs nothing; \<^verbatim>\<open>stage_max\<close> is never 0 there.\<close>

lemma wp_quiet_seq:
  assumes st: "quiet s0 (fst st)" and f: "\<And>x. quiet s0 (fst x) \<Longrightarrow> quiet s0 (fst (f x))"
    and cs: "\<And>x. quiet s0 (fst x) \<Longrightarrow> wp d (steps cs) Q x"
  shows "wp d (steps (upd f # cs)) Q st"
  by (rule wp_seq [where R = "\<lambda>x. quiet s0 (fst x)"]) (use st f cs in simp_all)

lemma quiet_stage_max: "quiet s0 s \<Longrightarrow> stage_max s = stage_max s0"
  by (simp add: quiet_def stage_frame_def)

lemma wp_cal_finish:
  assumes inv: "cal_inv n mem q s0 st"
  shows "wp d (cal_finish w q hc fr) (\<lambda>f st. f = Next \<and> cal_frame n mem s0 (fst st)) st"
proof -
  have fr: "cal_frame n mem s0 (fst st)" and mx: "stage_max (fst st) \<noteq> 0"
    using inv by (auto simp: cal_inv_def split: prod.splits)
  have Q: "wp d (cal_finish w q hc fr) (\<lambda>f x. f = Next \<and> quiet (fst st) (fst x)) st"
    unfolding cal_finish_def
  proof (rule wp_seq [where R = "\<lambda>x. quiet (fst st) (fst x)"])
    fix x :: cstate assume x: "quiet (fst st) (fst x)"
    show "wp d (steps [cond (\<lambda>(s, l). stage_max s = 0) (goto Fatal) skip,
      upd (\<lambda>(s, l). (upd_entry q (\<lambda>e. let us = exec_us e div ucast (stage_max s) in
             e\<lparr>exec_us := (if us = 0 then 1 else us), bitmap_size := count_bytes s (trace_bits s),
               handicap := ucast hc, cal_failed := 0\<rparr>) s, l)),
      upd (\<lambda>(s, l). (s\<lparr>total_bitmap_size := total_bitmap_size s + ucast (bitmap_size (entry s q)),
             total_bitmap_entries := total_bitmap_entries s + 1\<rparr>, l)),
      upd (\<lambda>(s, l). (update_bitmap_score q s, l)),
      cond (\<lambda>(s, l). \<not> non_instrumented_mode s \<and> fr \<and> c_fault l = FSRV_RUN_OK \<and> c_new_bits l = 0)
        (upd (\<lambda>(s, l). (s, l\<lparr>c_fault := FSRV_RUN_NOBITS\<rparr>))) skip])
      (\<lambda>f x. f = Next \<and> quiet (fst st) (fst x)) x"
      by (rule wp_seq [where R = "\<lambda>x. quiet (fst st) (fst x)"],
          use x mx quiet_stage_max in \<open>force split: prod.split\<close>)
        (rule wp_quiet_seq [of "fst st"], assumption, force split: prod.splits,
          rule wp_quiet_seq [of "fst st"], assumption, force split: prod.splits,
          rule wp_quiet_seq [of "fst st"], assumption, force split: prod.splits,
          auto split: prod.splits)
  qed (cases st, simp add: Let_def)
  show ?thesis
    by (rule wp_mono [OF Q]) (use cal_frame_quiet [OF fr] in blast)
qed


lemma cal_inv_start:
  "cal_inv (unat (q_len (entry s q))) mem q s (cal_start w q fq s)"
proof -
  have q: "quiet s (upd_entry q (\<lambda>e. e\<lparr>cal_failed := cal_failed e + 1\<rparr>) (s\<lparr>ticks := Suc (ticks s)\<rparr>))"
    by simp
  have "q_len (entry (upd_entry q (\<lambda>e. e\<lparr>cal_failed := cal_failed e + 1\<rparr>) (s\<lparr>ticks := Suc (ticks s)\<rparr>)) q) =
      q_len (entry s q)"
    by (subst q_len_upd_entry) (simp_all add: entry_def)
  then show ?thesis
    using cal_frame_quiet [OF cal_frame_refl q]
    by (simp add: cal_start_def cal_inv_def get_cur_time_us_def CAL_CYCLES_FAST_def CAL_CYCLES_def Let_def entry_def)
qed

lemma cal_frame_abort: "cal_frame n mem s0 s \<Longrightarrow> cal_frame n mem s0 (fst (cal_abort w q (s, l)))"
  by (erule cal_frame_quiet) (simp add: cal_abort_def Let_def)

lemma calibrate_case_returns:
  "\<exists>res s'. calibrate_case w q mem hc fq s = Some (Next, res, s') \<and>
     run_frame (unat (q_len (entry s q))) mem s s' \<and> saved_hangs s' = saved_hangs s"
proof -
  let ?n = "unat (q_len (entry s q))"
  let ?body = "steps
            [cond (\<lambda>(s, l). exec_cksum (entry s q) \<noteq> 0)
               (steps [upd (\<lambda>(s, l). (s\<lparr>first_trace := trace_bits s\<rparr>, l)), note_new_bits]) skip,
             cal_loop w q mem,
             cal_finish w q hc (exec_cksum (entry s q) = 0)]"
  let ?P = "\<lambda>f st. f \<noteq> Fatal \<and> cal_frame ?n mem s (fst st)"
  have "wp False ?body ?P (cal_start w q fq s)"
  proof (rule wp_seq [where R = "cal_inv ?n mem q s"])
    have "wp False (steps [upd (\<lambda>(s, l). (s\<lparr>first_trace := trace_bits s\<rparr>, l)), note_new_bits])
        (andthen (cal_inv ?n mem q s) ?P) x" if "cal_inv ?n mem q s x" for x
    proof (rule wp_seq [where R = "cal_inv ?n mem q s"])
      show "wp False (upd (\<lambda>(s, l). (s\<lparr>first_trace := trace_bits s\<rparr>, l)))
        (andthen (cal_inv ?n mem q s) (andthen (cal_inv ?n mem q s) ?P)) x"
        using that by (cases x) (auto intro: cal_inv_quiet simp: entry_def)
    next
      fix y assume "cal_inv ?n mem q s y"
      then have "cal_at ?n mem q s (stage_cur (fst y)) y" by (simp add: cal_at_def)
      from wp_note_new_bits [OF this, of False ?P]
      have "wp False note_new_bits (andthen (cal_inv ?n mem q s) ?P) y"
        by (rule wp_mono) (auto simp: andthen_def cal_at_def split: if_splits)
      then show "wp False (steps [note_new_bits]) (andthen (cal_inv ?n mem q s) ?P) y" by simp
    qed
    then show "wp False (cond (\<lambda>(s, l). exec_cksum (entry s q) \<noteq> 0)
        (steps [upd (\<lambda>(s, l). (s\<lparr>first_trace := trace_bits s\<rparr>, l)), note_new_bits]) skip)
        (andthen (cal_inv ?n mem q s) ?P) (cal_start w q fq s)"
      using cal_inv_start [of s q mem w fq] by (simp del: wp_Cons)
  next
    fix x assume x: "cal_inv ?n mem q s x"
    show "wp False (steps [cal_loop w q mem, cal_finish w q hc (exec_cksum (entry s q) = 0)]) ?P x"
    proof (rule wp_seq [where R = "cal_inv ?n mem q s"])
      show "wp False (cal_loop w q mem) (andthen (cal_inv ?n mem q s) ?P) x"
        by (rule wp_mono [OF wp_cal_loop [OF x]]) (auto simp: andthen_def cal_exit_def split: if_splits)
    next
      fix y assume "cal_inv ?n mem q s y"
      from wp_cal_finish [OF this] show "wp False (steps [cal_finish w q hc (exec_cksum (entry s q) = 0)]) ?P y"
        unfolding wp_single by (rule wp_mono) simp
    qed
  qed
  from wp_total [OF this] obtain f st where body: "?body (cal_start w q fq s) = Some (f, st)"
    and f: "f \<noteq> Fatal" and fr: "cal_frame ?n mem s (fst st)" by blast
  obtain s1 l1 where ab: "cal_abort w q st = (s1, l1)" by (cases "cal_abort w q st")
  have "cal_frame ?n mem s s1" using cal_frame_abort [OF fr, of w q "snd st"] ab by simp
  then have rf: "run_frame ?n mem s (s1\<lparr>stage_name := stage_name s, stage_cur := stage_cur s, stage_max := stage_max s\<rparr>)"
    "saved_hangs s1 = saved_hangs s"
    by (simp_all add: cal_frame_def give_back_def)
  show ?thesis
    unfolding calibrate_case_def Let_def body
    using f rf by (auto simp: ab update_calibration_time_def get_cur_time_us_def Let_def intro: run_frame_quiet)
qed


section \<open>Saving returns\<close>

definition save_ok :: "nat \<Rightarrow> buf \<Rightarrow> afl \<Rightarrow> vstate \<Rightarrow> bool" where
  "save_ok n mem s0 st \<longleftrightarrow> run_frame n mem s0 (fst st) \<and> (length_ok n s0 \<longrightarrow> v_len (snd st) = n)"

lemma run_frame_trans:
  assumes "run_frame n mem s0 s" and "run_frame n' mem s s'" and "length_ok n s0 \<Longrightarrow> n' = n"
  shows "run_frame n mem s0 s'"
  using assms stage_frame_trans length_ok_frame unfolding run_frame_def by blast

lemma save_ok_quiet:
  "save_ok n mem s0 (s, v) \<Longrightarrow> quiet s s' \<Longrightarrow> v_len v' = v_len v \<Longrightarrow> save_ok n mem s0 (s', v')"
  using run_frame_quiet unfolding save_ok_def by auto

lemma quiet_upd_top [simp]: "quiet r (upd_top f s) = quiet r s"
  by (simp add: upd_top_def)

lemma enqueue_frame:
  shows "quiet s (fst (enqueue w mem (s, v)))" and "v_len (snd (enqueue w mem (s, v))) = v_len v"
    and "v_new_bits (snd (enqueue w mem (s, v))) = v_new_bits v"
    and "v_classified (snd (enqueue w mem (s, v))) = v_classified v"
  by (simp_all add: enqueue_def Let_def)

lemma queue_top_upd_top [simp]: "queue_top (upd_top f s) = queue_top s"
  by (simp add: upd_top_def upd_entry_def)

lemma q_len_upd_top:
  "(\<And>e. q_len (f e) = q_len e) \<Longrightarrow> q_len (entry (upd_top f s) q) = q_len (entry s q)"
  by (simp add: upd_top_def q_len_upd_entry)

lemma add_to_queue_top [simp]:
  "queue_top (add_to_queue w file len p s) = length (queue_buf s)"
  "queue_buf (add_to_queue w file len p s) = queue_buf s @ [new_entry file len p s]"
  by (simp_all add: add_to_queue_def Let_def get_cur_time_def new_entry_def)

lemma entry_more [simp]:
  "entry (s\<lparr>n_fuzz := x\<rparr>) q = entry s q" "entry (s\<lparr>queued_with_cov := y\<rparr>) q = entry s q"
  by (simp_all add: entry_def)

lemma entry_files [simp]:
  "entry (s\<lparr>fuzz_mode := x\<rparr>) q = entry s q" "entry (s\<lparr>queue_files := y\<rparr>) q = entry s q"
  by (simp_all add: entry_def)

lemma enqueue_len:
  "q_len (entry (fst (enqueue w mem (s, v))) (queue_top (fst (enqueue w mem (s, v))))) = of_nat (v_len v)"
proof -
  have "entry (add_to_queue w fl len p s) (length (queue_buf s)) = new_entry fl len p s" for fl len p
    by (simp add: entry_def)
  then show ?thesis
    by (simp add: enqueue_def Let_def q_len_upd_top new_entry_def)
qed

lemma save_to_queue_returns:
  assumes ok: "save_ok n mem s0 st"
  shows "\<exists>a st'. save_to_queue w mem st = Some (a, st') \<and> save_ok n mem s0 st' \<and>
    saved_hangs (fst st') = saved_hangs (fst st)"
proof -
  obtain s v where st: "st = (s, v)" by (cases st)
  obtain s1 v1 where en: "enqueue w mem (s, v) = (s1, v1)" by (cases "enqueue w mem (s, v)")
  have s1: "quiet s s1" "v_len v1 = v_len v" "q_len (entry s1 (queue_top s1)) = of_nat (v_len v)"
    using enqueue_frame(1) [of s w mem v] enqueue_frame(2) [of w mem s v] enqueue_len [of w mem s v] by (simp_all add: en)
  have ok1: "save_ok n mem s0 (s1, v1)" by (rule save_ok_quiet [OF ok [unfolded st] s1(1,2)])
  obtain res s2 where cal: "calibrate_case w (queue_top s1) mem (ucast (queue_cycle s1 - 1)) False s1 = Some (Next, res, s2)"
    and rf: "run_frame (unat (of_nat (v_len v) :: u32)) mem s1 s2" and sh: "saved_hangs s2 = saved_hangs s1"
    using calibrate_case_returns [of w "queue_top s1" mem "ucast (queue_cycle s1 - 1)" False s1]
    by (auto simp: s1(3))
  have "run_frame n mem s0 s2"
  proof (rule run_frame_trans [OF _ rf])
    show "run_frame n mem s0 s1" using ok1 by (simp add: save_ok_def)
    assume "length_ok n s0"
    then show "unat (of_nat (v_len v) :: u32) = n"
      using ok1 s1(2) by (simp add: save_ok_def length_ok_def unat_of_nat_small)
  qed
  then have "save_ok n mem s0 (s2, v1)" using ok1 by (simp add: save_ok_def)
  moreover have "saved_hangs (queue_testcase_store_mem q m s2) = saved_hangs s2" for q m
    using quiet_store_mem [of s2 q m s2] by (simp add: quiet_def)
  moreover have "saved_hangs s2 = saved_hangs s" using sh s1(1) by (simp add: quiet_def)
  ultimately show ?thesis
    by (auto simp: st save_to_queue_def en cal intro: save_ok_quiet)
qed

lemma save_ok_unique_in:
  assumes "save_ok n mem s0 (s, v)"
  shows "save_ok n mem s0 (snd (unique_in vm (s, v)))"
proof -
  have "v_len (snd (snd (unique_in vm (s, v)))) = v_len v"
    by (simp add: unique_in_def Let_def split: prod.split)
  moreover have "quiet s (fst (snd (unique_in vm (s, v))))" by simp
  ultimately show ?thesis
    using save_ok_quiet [OF assms] by (metis prod.collapse)
qed


lemma save_ok_rerun_hang:
  assumes ok: "save_ok n mem s0 (s, v)"
  shows "save_ok n mem s0 (snd (rerun_hang w mem (s, v)))"
    and "fst (rerun_hang w mem (s, v)) = Goto_save_to_queue \<Longrightarrow> keep_timeouts s"
    and "fst (rerun_hang w mem (s, v)) \<noteq> Die"
proof -
  obtain tl s1 where w1: "write_to_testcase mem (v_len v) False s = (tl, s1)"
    by (cases "write_to_testcase mem (v_len v) False s")
  obtain len s2 where w2: "(if tl \<noteq> 0 then (tl, s1) else write_to_testcase mem (v_len v) True s1) = (len, s2)"
    by (cases "if tl \<noteq> 0 then (tl, s1) else write_to_testcase mem (v_len v) True s1")
  obtain f s3 where run: "fuzz_run_target w (hang_tmout s2) s2 = (f, s3)"
    by (cases "fuzz_run_target w (hang_tmout s2) s2")
  have kt: "keep_timeouts s2 = keep_timeouts s" "keep_timeouts (classify_counts s3) = keep_timeouts s2"
    using w1 w2 run by (auto simp: write_to_testcase_def Let_def fuzz_run_target_def classify_counts_def split: if_splits)
  have rf: "run_frame n mem s0 s" using ok by (simp add: save_ok_def)
  have rest: "run_frame n mem s0 s3 \<and> (length_ok n s0 \<longrightarrow> len = n)"
  proof (cases "length_ok n s0")
    case True
    then have v: "v_len v = n" and l: "length_ok n s"
      using ok length_ok_frame by (auto simp: save_ok_def run_frame_def)
    have "tl = n" "0 < n" using fst_write [OF l, of mem False] w1 l by (simp_all add: v length_ok_def)
    then have s2: "s2 = snd (write_to_testcase mem n False s)" and "len = n" using w1 w2 v by auto
    moreover have "run_frame n mem s0 s3"
      using run_frame_run [OF rf, of w "hang_tmout s2" False] run unfolding s2 by simp
    ultimately show ?thesis by simp
  next
    case False
    have "s1 = snd (write_to_testcase mem (v_len v) False s)" using w1 by simp
    moreover have "s2 = (if tl \<noteq> 0 then s1 else snd (write_to_testcase mem (v_len v) True s1))"
      using w2 by (auto split: if_split_asm)
    ultimately have "run_frame n mem s0 s2" using rf by simp
    moreover have "stage_frame s2 s3" "set (delivered s2) \<subseteq> set (delivered s3)"
      using run by (auto simp: fuzz_run_target_def Let_def stage_frame_def)
    ultimately have "run_frame n mem s0 s3"
      using False stage_frame_trans unfolding run_frame_def by blast
    then show ?thesis using False by simp
  qed
  then have "save_ok n mem s0 (s3, v\<lparr>v_len := len\<rparr>)" by (simp add: save_ok_def)
  then have q: "save_ok n mem s0 (s', v\<lparr>v_len := len\<rparr>)" if "quiet s3 s'" for s'
    using save_ok_quiet that by fastforce
  have eq: "rerun_hang w mem (s, v) =
    (let s' = classify_counts s3; v' = v\<lparr>v_len := len\<rparr> in
     if \<not> stop_soon s' \<and> f = FSRV_RUN_CRASH then (Goto_keep_as_crash, s', v')
     else if stop_soon s' \<or> f \<noteq> FSRV_RUN_TMOUT
     then if keep_timeouts s' then (Goto_save_to_queue, s'\<lparr>saved_tmouts := saved_tmouts s' + 1\<rparr>, v')
          else (Return, s', v')
     else (Save_hang, s', v'))"
    by (simp only: rerun_hang_def prod.case Let_def w1 w2 run)
  show "save_ok n mem s0 (snd (rerun_hang w mem (s, v)))"
    by (simp add: eq q Let_def)
  show "fst (rerun_hang w mem (s, v)) = Goto_save_to_queue \<Longrightarrow> keep_timeouts s"
    using kt by (simp add: eq Let_def split: if_splits)
  show "fst (rerun_hang w mem (s, v)) \<noteq> Die"
    by (simp add: eq Let_def)
qed

lemma case_crash_ok:
  assumes "save_ok n mem s0 st"
  shows "save_ok n mem s0 (snd (case_crash st))"
    and "fst (case_crash st) \<in> {Return, Save_crash}"
proof -
  obtain s v where st: "st = (s, v)" by (cases st)
  let ?s = "s\<lparr>total_crashes := total_crashes s + 1\<rparr>"
  have ok: "save_ok n mem s0 (?s, v)"
    using assms save_ok_quiet [of n mem s0 s v ?s v] by (simp add: st)
  obtain b s1 v1 where u: "unique_in Virgin_crash (?s, v) = (b, s1, v1)"
    by (cases "unique_in Virgin_crash (?s, v)")
  show "save_ok n mem s0 (snd (case_crash st))"
    using ok save_ok_unique_in [OF ok, of Virgin_crash] by (simp add: st case_crash_def u Let_def)
  show "fst (case_crash st) \<in> {Return, Save_crash}"
    by (simp add: st case_crash_def u Let_def)
qed

lemma case_tmout_ok:
  assumes "save_ok n mem s0 st"
  shows "save_ok n mem s0 (snd (case_tmout w mem st))"
    and "fst (case_tmout w mem st) = Goto_save_to_queue \<Longrightarrow> keep_timeouts (fst st)"
    and "fst (case_tmout w mem st) \<noteq> Die"
proof -
  obtain s v where st: "st = (s, v)" by (cases st)
  let ?s = "s\<lparr>total_tmouts := total_tmouts s + 1\<rparr>"
  have ok: "save_ok n mem s0 (?s, v)"
    using assms save_ok_quiet [of n mem s0 s v ?s v] by (simp add: st)
  obtain b s1 v1 where u: "unique_in Virgin_tmout (?s, v) = (b, s1, v1)"
    by (cases "unique_in Virgin_tmout (?s, v)")
  have ok1: "save_ok n mem s0 (s1, v1)" using save_ok_unique_in [OF ok, of Virgin_tmout] by (simp add: u)
  have "quiet ?s s1" using quiet_unique_in [of ?s Virgin_tmout ?s v] by (simp add: u)
  then have kt: "keep_timeouts s1 = keep_timeouts s" by (simp add: quiet_def stage_frame_def)
  note rh = save_ok_rerun_hang [OF ok1, of w]
  show "save_ok n mem s0 (snd (case_tmout w mem st))"
    using ok ok1 rh(1) by (simp add: st case_tmout_def u Let_def)
  show "fst (case_tmout w mem st) = Goto_save_to_queue \<Longrightarrow> keep_timeouts (fst st)"
    using rh(2) kt by (simp add: st case_tmout_def u Let_def split: if_splits)
  show "fst (case_tmout w mem st) \<noteq> Die"
    using rh(3) by (simp add: st case_tmout_def u Let_def)
qed

lemma switch_fault_ok:
  assumes ok: "save_ok n mem s0 st"
  shows "save_ok n mem s0 (snd (switch_fault w mem fault st))"
    and "fst (switch_fault w mem fault st) = Goto_save_to_queue \<Longrightarrow> keep_timeouts (fst st)"
proof -
  obtain x st1 where t: "case_tmout w mem st = (x, st1)" by (cases "case_tmout w mem st")
  note c = case_crash_ok [OF ok] and tm = case_tmout_ok [OF ok, of w]
  have "save_ok n mem s0 st1" using tm(1) t by simp
  note c1 = case_crash_ok [OF this]
  show "save_ok n mem s0 (snd (switch_fault w mem fault st))"
    using ok c(1) tm(1) c1(1) by (cases fault) (simp_all add: switch_fault_def t)
  show "fst (switch_fault w mem fault st) = Goto_save_to_queue \<Longrightarrow> keep_timeouts (fst st)"
    using c(2) tm(2) c1(2) by (cases fault) (auto simp: switch_fault_def t split: if_splits)
qed

lemma run_frame_save_hang: "run_frame n mem s0 s \<Longrightarrow> run_frame n mem s0 (save_hang w m (s, v))"
  by (simp add: save_hang_def get_cur_time_def Let_def run_frame_def stage_frame_def)

lemma run_frame_save_crash: "run_frame n mem s0 s \<Longrightarrow> run_frame n mem s0 (save_crash w m (s, v))"
  by (erule run_frame_quiet) (simp add: save_crash_def get_cur_time_def Let_def)

lemma save_ok_result:
  assumes "save_ok n mem s0 st"
  shows "run_frame n mem s0 (if x = Save_hang then save_hang w mem st
             else if x = Save_crash then save_crash w mem st else fst st)"
  using assms run_frame_save_hang run_frame_save_crash by (cases st) (simp add: save_ok_def)

lemma switch_loop_frame:
  assumes res: "switch_loop w mem fault st = Some r" and ok: "save_ok n mem s0 st"
  shows "run_frame n mem s0 (snd (snd r))"
proof -
  have "w = w \<and> mem = mem \<and> save_ok n mem s0 st \<longrightarrow> run_frame n mem s0 (snd (snd r))"
proof (rule switch_loop.raw_induct
    [where P = "\<lambda>w' mem' fault' st r. w' = w \<and> mem' = mem \<and> save_ok n mem s0 st \<longrightarrow> run_frame n mem s0 (snd (snd r))",
     OF _ res])
  fix loop w' mem' fault' st r
  assume IH: "\<And>w' mem' fault' st r. loop w' mem' fault' st = Some r \<Longrightarrow>
      w' = w \<and> mem' = mem \<and> save_ok n mem s0 st \<longrightarrow> run_frame n mem s0 (snd (snd r))"
    and run: "(let (x, st) = switch_fault w' mem' fault' st in
      if x = Goto_save_to_queue
      then Option.bind (save_to_queue w' mem' st) (\<lambda>(alive, st).
             if alive then loop w' mem' fault' st else Some (False, 0, fst st))
      else Some (x \<noteq> Die, v_keeping (snd st),
             if x = Save_hang then save_hang w' mem' st
             else if x = Save_crash then save_crash w' mem' st else fst st)) = Some r"
  show "w' = w \<and> mem' = mem \<and> save_ok n mem s0 st \<longrightarrow> run_frame n mem s0 (snd (snd r))"
  proof (intro impI, elim conjE)
    assume w: "w' = w" "mem' = mem" and ok: "save_ok n mem s0 st"
    obtain x st1 where sf: "switch_fault w mem fault' st = (x, st1)" by (cases "switch_fault w mem fault' st")
    have ok1: "save_ok n mem s0 st1" using switch_fault_ok(1) [OF ok, of w fault'] sf by simp
    show "run_frame n mem s0 (snd (snd r))"
    proof (cases "x = Goto_save_to_queue")
      case True
      obtain b st2 where sq: "save_to_queue w mem st1 = Some (b, st2)" and ok2: "save_ok n mem s0 st2"
        using save_to_queue_returns [OF ok1] by blast
      show ?thesis
      proof (cases b)
        case True
        then have "loop w mem fault' st2 = Some r" using run \<open>x = _\<close> sf sq w by simp
        then show ?thesis using IH ok2 by blast
      next
        case False
        then have "r = (False, 0, fst st2)" using run \<open>x = _\<close> sf sq w by simp
        then show ?thesis using ok2 by (simp add: save_ok_def)
      qed
    next
      case False
      then have "r = (x \<noteq> Die, v_keeping (snd st1), if x = Save_hang then save_hang w mem st1
             else if x = Save_crash then save_crash w mem st1 else fst st1)"
        using run sf w by auto
      then show ?thesis using save_ok_result [OF ok1] by simp
    qed
  qed
qed
  then show ?thesis using ok by blast
qed

lemma switch_loop_returns:
  assumes ok: "save_ok n mem s0 st" and kt: "\<not> keep_timeouts (fst st)"
  shows "\<exists>r. switch_loop w mem fault st = Some r"
proof -
  obtain x st1 where sf: "switch_fault w mem fault st = (x, st1)" by (cases "switch_fault w mem fault st")
  have "x \<noteq> Goto_save_to_queue" using switch_fault_ok(2) [OF ok, of w fault] kt sf by auto
  then show ?thesis by (simp add: switch_loop.simps [of w mem fault st] sf)
qed


lemma save_then_switch:
  assumes ok: "save_ok n mem s0 st"
  shows "Option.bind (save_to_queue w mem st) (\<lambda>(alive, st).
      if alive then switch_loop w mem fault st else Some (False, 0, fst st)) = Some r \<Longrightarrow>
      run_frame n mem s0 (snd (snd r))"
    and "\<not> keep_timeouts s0 \<Longrightarrow> Option.bind (save_to_queue w mem st) (\<lambda>(alive, st).
      if alive then switch_loop w mem fault st else Some (False, 0, fst st)) \<noteq> None"
proof -
  obtain a st' where q: "save_to_queue w mem st = Some (a, st')" and ok': "save_ok n mem s0 st'"
    using save_to_queue_returns [OF ok] by blast
  show "run_frame n mem s0 (snd (snd r))" if "Option.bind (save_to_queue w mem st) (\<lambda>(alive, st).
      if alive then switch_loop w mem fault st else Some (False, 0, fst st)) = Some r"
  proof (cases a)
    case True
    then show ?thesis using that q switch_loop_frame [OF _ ok'] by simp
  next
    case False
    then show ?thesis using that q ok' by (auto simp: save_ok_def)
  qed
  show "Option.bind (save_to_queue w mem st) (\<lambda>(alive, st).
      if alive then switch_loop w mem fault st else Some (False, 0, fst st)) \<noteq> None" if "\<not> keep_timeouts s0"
  proof -
    have "\<not> keep_timeouts (fst st')" using ok' that by (auto simp: save_ok_def run_frame_def stage_frame_def)
    then show ?thesis using q switch_loop_returns [OF ok'] by (cases a) auto
  qed
qed

lemma save_if_interesting_result:
  assumes rf: "run_frame n mem s0 s" and len: "length_ok n s0 \<Longrightarrow> len = n"
  shows "save_if_interesting w mem len fault s = Some r \<Longrightarrow> run_frame n mem s0 (snd (snd r))"
    and "\<not> keep_timeouts s0 \<Longrightarrow> save_if_interesting w mem len fault s \<noteq> None"
proof -
  define v where "v = \<lparr>v_len = len, v_new_bits = 0, v_keeping = 0, v_classified = counts_paths s,
                    v_need_hash = \<not> counts_paths s, v_cksum = 0\<rparr>"
  obtain ck s1 where c: "(if counts_paths s then count_path w s else (0, s)) = (ck, s1)"
    by (cases "if counts_paths s then count_path w s else (0, s)")
  have "quiet s (snd (if counts_paths s then count_path w s else (0, s)))" by simp
  then have q1: "quiet s s1" by (simp add: c)
  obtain nb s2 where h: "(if counts_paths s then has_new_bits Virgin_bits s1
      else has_new_bits_unclassified Virgin_bits s1) = (nb, s2)"
    by (cases "if counts_paths s then has_new_bits Virgin_bits s1 else has_new_bits_unclassified Virgin_bits s1")
  have "quiet s1 (snd (if counts_paths s then has_new_bits Virgin_bits s1
      else has_new_bits_unclassified Virgin_bits s1))" by simp
  then have q2: "quiet s s2" using q1 quiet_trans by (auto simp: h)
  have ok: "save_ok n mem s0 (s', v')" if "quiet s s'" "v_len v' = len" for s' v'
    using run_frame_quiet [OF rf that(1)] len that(2) by (simp add: save_ok_def)
  let ?v = "v\<lparr>v_cksum := ck\<rparr>"
  have eq: "save_if_interesting w mem len fault s =
     (if len = 0 then Some (True, 0, s)
      else if fault = FSRV_RUN_TMOUT \<and> ignore_timeouts s
      then Some (True, 0, if counts_paths s then snd (count_path w s) else s)
      else if fault = crash_mode s1
      then if nb = 0 then Some (True, 0, if crash_mode s2 \<noteq> FSRV_RUN_OK
                                          then s2\<lparr>total_crashes := total_crashes s2 + 1\<rparr> else s2)
           else Option.bind (save_to_queue w mem (s2, ?v\<lparr>v_new_bits := nb, v_classified := True\<rparr>))
                             (\<lambda>(alive, st). if alive then switch_loop w mem fault st else Some (False, 0, fst st))
      else switch_loop w mem fault (s1, ?v))"
    by (simp only: save_if_interesting_def Let_def c prod.case h v_def save_locals.update_convs)
  note ok2 = save_then_switch [OF ok [OF q2]]
  note ok1 = ok [OF q1]
  have lens: "v_len (?v\<lparr>v_new_bits := nb, v_classified := True\<rparr>) = len" "v_len ?v = len"
    by (simp_all add: v_def)
  have kt: "\<not> keep_timeouts s1" if "\<not> keep_timeouts s0"
    using that run_frame_quiet [OF rf q1] by (simp add: run_frame_def stage_frame_def)
  show "run_frame n mem s0 (snd (snd r))" if "save_if_interesting w mem len fault s = Some r"
    using that run_frame_quiet [OF rf] q2 ok2(1) [OF lens(1)] switch_loop_frame [OF _ ok1 [OF lens(2)]]
    unfolding eq by (auto split: if_splits intro: rf)
  show "save_if_interesting w mem len fault s \<noteq> None" if "\<not> keep_timeouts s0"
    using ok2(2) [OF lens(1) that] switch_loop_returns [OF ok1 [OF lens(2)], of w fault] kt [OF that]
    unfolding eq by auto
qed

section \<open>The contract of the stages\<close>

lemma common_fuzz_stuff_result:
  "common_fuzz_stuff w out n s = Some (v, s') \<Longrightarrow> run_frame n out s s' \<and>
      (length_ok n s \<longrightarrow> take n out \<in> set (delivered s'))"
  "\<not> keep_timeouts s \<Longrightarrow> common_fuzz_stuff w out n s \<noteq> None"
proof -
  obtain len s1 where w1: "write_to_testcase out n False s = (len, s1)"
    by (cases "write_to_testcase out n False s")
  obtain f s2 where run: "fuzz_run_target w (exec_tmout s1) s1 = (f, s2)"
    by (cases "fuzz_run_target w (exec_tmout s1) s1")
  have rf1: "run_frame n out s s1" using run_frame_write [of n out s out n False s] by (simp add: w1)
  have rf2: "run_frame n out s s2"
    using run_frame_run [OF run_frame_refl, of n out s w "exec_tmout s1" False] by (simp add: w1 run)
  have len: "len = n" if "length_ok n s" using fst_write [OF that, of out False] by (simp add: w1)
  have given: "take n out \<in> set (delivered s2)" if "length_ok n s"
    using that w1 run by (auto simp: write_to_testcase_def fuzz_run_target_def Let_def length_ok_def split: if_splits)
  let ?s3 = "s2\<lparr>subseq_tmouts := if f = FSRV_RUN_TMOUT then subseq_tmouts s2 + 1 else 0\<rparr>"
  have q3: "quiet s2 ?s3" by simp
  have rf3: "run_frame n out s ?s3" by (rule run_frame_quiet [OF rf2 q3])
  note sv = save_if_interesting_result [OF rf3 len, of w f]
  have eq: "common_fuzz_stuff w out n s =
     (if len = 0 then Some (Ret0, s1)
      else if stop_soon s2 then Some (Ret1, s2)
      else if f = FSRV_RUN_TMOUT \<and> subseq_tmouts s2 > TMOUT_LIMIT
      then Some (Ret1, ?s3\<lparr>cur_skipped_items := cur_skipped_items ?s3 + 1\<rparr>)
      else if skip_requested ?s3
      then Some (Ret1, ?s3\<lparr>skip_requested := False, cur_skipped_items := cur_skipped_items ?s3 + 1\<rparr>)
      else map_option (\<lambda>(alive, n, s).
                       if alive then (Ret0, s\<lparr>queued_discovered := queued_discovered s + of_nat n\<rparr>)
                       else (Died, s))
                     (save_if_interesting w out len f ?s3))"
    by (simp only: common_fuzz_stuff_def Let_def w1 run prod.case)
  have given': "take n out \<in> set (delivered x)" if "length_ok n s" "run_frame n out s2 x" for x
    using given [OF that(1)] that(2) by (auto simp: run_frame_def)
  show "\<not> keep_timeouts s \<Longrightarrow> common_fuzz_stuff w out n s \<noteq> None"
    using sv(2) unfolding eq by (simp del: not_None_eq)
  show "run_frame n out s s' \<and> (length_ok n s \<longrightarrow> take n out \<in> set (delivered s'))"
    if res: "common_fuzz_stuff w out n s = Some (v, s')"
  proof (cases "len = 0")
    case True
    then show ?thesis using res rf1 len by (auto simp: eq length_ok_def)
  next
    case False
    consider (stop) "stop_soon s2"
      | (quietly) "quiet s2 s'"
      | (saved) a k s4 where "save_if_interesting w out len f ?s3 = Some (a, k, s4)" "quiet s4 s'"
      using res False unfolding eq
      by (cases "save_if_interesting w out len f ?s3") (auto split: if_splits)
    then show ?thesis
    proof cases
      case stop
      then show ?thesis using res False rf2 given by (auto simp: eq)
    next
      case quietly
      then show ?thesis using run_frame_quiet [OF rf2] given by (auto simp: quiet_def)
    next
      case saved
      have "run_frame n out s s4" using sv(1) [OF _ saved(1)] by simp
      moreover have "set (delivered s2) \<subseteq> set (delivered s4)"
        using save_if_interesting_result(1) [where n = len and mem = out, OF _ refl saved(1), of "?s3"]
        by (auto simp: run_frame_def)
      ultimately show ?thesis
        using run_frame_quiet saved(2) given by (auto simp: quiet_def)
    qed
  qed
qed

section \<open>A loop that never returns\<close>

text \<open>
  Without instrumentation every timeout is kept. If the input then runs to its end under
  the larger timeout and timeouts are to be kept, the code queues it and starts over with the
  same fault.
\<close>

definition keeps_forever :: "world \<Rightarrow> vstate \<Rightarrow> bool" where
  "keeps_forever w st \<longleftrightarrow> (case st of (s, v) \<Rightarrow>
     non_instrumented_mode s \<and> keep_timeouts s \<and> exec_tmout s < hang_tmout s \<and>
     saved_hangs s < KEEP_UNIQUE_HANG \<and>
     (\<forall>h b. out_fault (target w h b (hang_tmout s)) \<notin> {FSRV_RUN_TMOUT, FSRV_RUN_CRASH}))"

lemma keeps_forever_cong:
  assumes "stage_frame s s'" and "saved_hangs s' = saved_hangs s"
  shows "keeps_forever w (s', v') = keeps_forever w (s, v)"
  using assms by (simp add: keeps_forever_def stage_frame_def)

lemma switch_fault_again:
  assumes k: "keeps_forever w st"
  shows "fst (switch_fault w mem FSRV_RUN_TMOUT st) = Goto_save_to_queue \<and>
    keeps_forever w (snd (switch_fault w mem FSRV_RUN_TMOUT st))"
proof -
  obtain s v where st: "st = (s, v)" by (cases st)
  let ?s = "s\<lparr>total_tmouts := total_tmouts s + 1\<rparr>"
  have flags: "non_instrumented_mode s" "keep_timeouts s" "exec_tmout s < hang_tmout s"
      "saved_hangs s < KEEP_UNIQUE_HANG"
    and tgt: "\<And>h b. out_fault (target w h b (hang_tmout s)) \<notin> {FSRV_RUN_TMOUT, FSRV_RUN_CRASH}"
    using k by (simp_all add: st keeps_forever_def)
  obtain tl s1 where w1: "write_to_testcase mem (v_len v) False ?s = (tl, s1)"
    by (cases "write_to_testcase mem (v_len v) False ?s")
  obtain len s2 where w2: "(if tl \<noteq> 0 then (tl, s1) else write_to_testcase mem (v_len v) True s1) = (len, s2)"
    by (cases "if tl \<noteq> 0 then (tl, s1) else write_to_testcase mem (v_len v) True s1")
  obtain f s3 where run: "fuzz_run_target w (hang_tmout s2) s2 = (f, s3)"
    by (cases "fuzz_run_target w (hang_tmout s2) s2")
  have fr1: "stage_frame s s1" "saved_hangs s1 = saved_hangs s"
    using w1 by (auto simp: write_to_testcase_def Let_def stage_frame_def)
  have fr2: "stage_frame s1 s2" "saved_hangs s2 = saved_hangs s1"
    using w2 by (auto simp: write_to_testcase_def Let_def stage_frame_def split: if_split_asm)
  have "stage_frame s2 s3" "saved_hangs s3 = saved_hangs s2"
    using run by (auto simp: fuzz_run_target_def Let_def stage_frame_def)
  moreover have "quiet s3 (classify_counts s3)" by simp
  ultimately have fr3: "stage_frame s2 (classify_counts s3)" "saved_hangs (classify_counts s3) = saved_hangs s2"
    unfolding quiet_def using stage_frame_trans by metis+
  have fr: "stage_frame s (classify_counts s3)" "saved_hangs (classify_counts s3) = saved_hangs s"
    using stage_frame_trans fr1 fr2 fr3 by metis+
  have "hang_tmout s2 = hang_tmout s" using fr1(1) fr2(1) by (simp add: stage_frame_def)
  then have f: "f \<notin> {FSRV_RUN_TMOUT, FSRV_RUN_CRASH}"
    using run tgt by (auto simp: fuzz_run_target_def Let_def)
  have kt: "keep_timeouts (classify_counts s3)" using fr(1) flags(2) by (simp add: stage_frame_def)
  let ?s4 = "(classify_counts s3)\<lparr>saved_tmouts := saved_tmouts (classify_counts s3) + 1\<rparr>"
  have "rerun_hang w mem (?s, v) = (Goto_save_to_queue, ?s4, v\<lparr>v_len := len\<rparr>)"
    using f kt by (simp only: rerun_hang_def prod.case Let_def w1 w2 run) simp
  then have eq: "switch_fault w mem FSRV_RUN_TMOUT st = (Goto_save_to_queue, ?s4, v\<lparr>v_len := len\<rparr>)"
    using flags by (simp add: st switch_fault_def case_tmout_def unique_in_def linorder_not_le Let_def)
  have "stage_frame s ?s4" "saved_hangs ?s4 = saved_hangs s"
    using fr by (simp_all add: stage_frame_def)
  then have "keeps_forever w (?s4, v\<lparr>v_len := len\<rparr>)"
    using keeps_forever_cong [of s ?s4 w "v\<lparr>v_len := len\<rparr>" v] k st by blast
  then show ?thesis by (simp add: eq)
qed

lemma switch_loop_forever:
  assumes res: "switch_loop w mem FSRV_RUN_TMOUT st = Some r" and k: "keeps_forever w st"
  shows "\<not> fst r"
proof -
  have "w = w \<and> mem = mem \<and> FSRV_RUN_TMOUT = FSRV_RUN_TMOUT \<and> keeps_forever w st \<longrightarrow> \<not> fst r"
  proof (rule switch_loop.raw_induct
      [where P = "\<lambda>w' mem' fault' st r. w' = w \<and> mem' = mem \<and> fault' = FSRV_RUN_TMOUT \<and> keeps_forever w st \<longrightarrow> \<not> fst r",
       OF _ res])
    fix loop w' mem' fault' st r
    assume IH: "\<And>w' mem' fault' st r. loop w' mem' fault' st = Some r \<Longrightarrow>
        w' = w \<and> mem' = mem \<and> fault' = FSRV_RUN_TMOUT \<and> keeps_forever w st \<longrightarrow> \<not> fst r"
      and run: "(let (x, st) = switch_fault w' mem' fault' st in
        if x = Goto_save_to_queue
        then Option.bind (save_to_queue w' mem' st) (\<lambda>(alive, st).
               if alive then loop w' mem' fault' st else Some (False, 0, fst st))
        else Some (x \<noteq> Die, v_keeping (snd st),
               if x = Save_hang then save_hang w' mem' st
               else if x = Save_crash then save_crash w' mem' st else fst st)) = Some r"
    show "w' = w \<and> mem' = mem \<and> fault' = FSRV_RUN_TMOUT \<and> keeps_forever w st \<longrightarrow> \<not> fst r"
    proof (intro impI, elim conjE)
      assume w: "w' = w" "mem' = mem" "fault' = FSRV_RUN_TMOUT" and k: "keeps_forever w st"
      obtain st1 where sf: "switch_fault w mem FSRV_RUN_TMOUT st = (Goto_save_to_queue, st1)" and k1: "keeps_forever w st1"
        using switch_fault_again [OF k, of mem] by (cases "switch_fault w mem FSRV_RUN_TMOUT st") auto
      obtain s1 v1 where st1: "st1 = (s1, v1)" by (cases st1)
      have "save_ok (v_len v1) mem s1 st1" by (simp add: st1 save_ok_def)
      from save_to_queue_returns [OF this, of w]
      obtain a st2 where sq: "save_to_queue w mem st1 = Some (a, st2)" and ok: "save_ok (v_len v1) mem s1 st2"
        and sh: "saved_hangs (fst st2) = saved_hangs (fst st1)" by blast
      obtain s2 v2 where st2: "st2 = (s2, v2)" by (cases st2)
      have "keeps_forever w st2"
        using keeps_forever_cong [of s1 s2 w v2 v1] k1 ok sh by (simp add: st1 st2 save_ok_def run_frame_def)
      then show "\<not> fst r"
        using run w sf sq IH by (cases a) auto
    qed
  qed
  then show ?thesis using k by blast
qed

lemma save_if_interesting_forever:
  assumes k: "keeps_forever w (s, v)" and t: "\<not> ignore_timeouts s" "crash_mode s \<noteq> FSRV_RUN_TMOUT" "len \<noteq> 0"
    and res: "save_if_interesting w mem len FSRV_RUN_TMOUT s = Some r"
  shows "\<not> fst r"
proof -
  obtain ck s1 where c: "(if counts_paths s then count_path w s else (0, s)) = (ck, s1)"
    by (cases "if counts_paths s then count_path w s else (0, s)")
  have "quiet s (snd (if counts_paths s then count_path w s else (0, s)))" by simp
  then have q: "stage_frame s s1" "saved_hangs s1 = saved_hangs s" by (simp_all add: c quiet_def)
  have "crash_mode s1 = crash_mode s"
    using c by (auto simp: count_path_def Let_def classify_counts_def split: if_split_asm)
  then have "switch_loop w mem FSRV_RUN_TMOUT (s1, \<lparr>v_len = len, v_new_bits = 0, v_keeping = 0,
      v_classified = counts_paths s, v_need_hash = \<not> counts_paths s, v_cksum = ck\<rparr>) = Some r"
    using res t by (simp add: save_if_interesting_def c Let_def)
  moreover have "keeps_forever w (s1, v')" for v' using keeps_forever_cong [OF q] k by blast
  ultimately show ?thesis using switch_loop_forever by blast
qed

end
