(* ===== verification/Mutators.thy ===== *)
theory Mutators
  imports DetStages Cache "HOL-Library.Multiset"
begin

text \<open>
  The mutators of the havoc stage: the cases of the \<^verbatim>\<open>switch\<close> in
  \<^verbatim>\<open>fuzz_one_original\<close> (\<^verbatim>\<open>src/afl-fuzz-one.c\<close>), one definition each. A buffer
  is the list of its \<^verbatim>\<open>temp_len\<close> bytes. Every access goes through an operation that checks
  it, so that reading or writing outside the buffer is a result of its own, \<open>Overrun\<close>, which
  the theorems exclude. \<^term>\<open>None\<close> is a rejection loop that never draws an acceptable number.
\<close>

section \<open>Draws and checked accesses\<close>

datatype havoc_result = Mutated buf | Retry_step | Overrun

type_synonym mutation = "afl \<Rightarrow> (havoc_result \<times> afl) option"

definition yields :: "havoc_result \<Rightarrow> mutation" where
  "yields r s = Some (r, s)"

definition draw :: "world \<Rightarrow> nat \<Rightarrow> (nat \<Rightarrow> mutation) \<Rightarrow> mutation" where
  "draw w n k s = Option.bind (rand_below w (of_nat n) s) (\<lambda>(r, s). k (unat r) s)"

definition draw_block :: "world \<Rightarrow> nat \<Rightarrow> (nat \<Rightarrow> mutation) \<Rightarrow> mutation" where
  "draw_block w limit k s = Option.bind (choose_block_len w (of_nat limit) s) (\<lambda>(r, s). k (unat r) s)"

text \<open>\<^verbatim>\<open>do { j = rand_below(n); } while (j == i)\<close>\<close>

partial_function (option) other_place :: "world \<Rightarrow> nat \<Rightarrow> nat \<Rightarrow> afl \<Rightarrow> (nat \<times> afl) option" where
  "other_place w n i s =
     Option.bind (rand_below w (of_nat n) s) (\<lambda>(j, s).
       if unat j = i then other_place w n i s else Some (unat j, s))"

definition draw_other :: "world \<Rightarrow> nat \<Rightarrow> nat \<Rightarrow> (nat \<Rightarrow> mutation) \<Rightarrow> mutation" where
  "draw_other w n x k s = Option.bind (other_place w n x s) (\<lambda>(y, s). k y s)"

text \<open>\<^verbatim>\<open>do { x = rand_below(n); y = rand_below(n); } while (x == y)\<close>\<close>

partial_function (option) two_places :: "world \<Rightarrow> nat \<Rightarrow> afl \<Rightarrow> ((nat \<times> nat) \<times> afl) option" where
  "two_places w n s =
     Option.bind (rand_below w (of_nat n) s) (\<lambda>(x, s).
     Option.bind (rand_below w (of_nat n) s) (\<lambda>(y, s).
       if x = y then two_places w n s else Some ((unat x, unat y), s)))"

definition draw_two :: "world \<Rightarrow> nat \<Rightarrow> (nat \<Rightarrow> nat \<Rightarrow> mutation) \<Rightarrow> mutation" where
  "draw_two w n k s = Option.bind (two_places w n s) (\<lambda>((x, y), s). k x y s)"

definition poke8 :: "nat \<Rightarrow> (u8 \<Rightarrow> u8) \<Rightarrow> buf \<Rightarrow> havoc_result" where
  "poke8 i f b = (if i < length b then Mutated (b[i := f (b ! i)]) else Overrun)"

definition poke16 :: "nat \<Rightarrow> (u16 \<Rightarrow> u16) \<Rightarrow> buf \<Rightarrow> havoc_result" where
  "poke16 i f b = (if i + 2 \<le> length b then Mutated (store16 b i (f (load16 b i))) else Overrun)"

definition poke32 :: "nat \<Rightarrow> (u32 \<Rightarrow> u32) \<Rightarrow> buf \<Rightarrow> havoc_result" where
  "poke32 i f b = (if i + 4 \<le> length b then Mutated (store32 b i (f (load32 b i))) else Overrun)"

definition write_block :: "nat \<Rightarrow> buf \<Rightarrow> buf \<Rightarrow> havoc_result" where
  "write_block i src b = (if i + length src \<le> length b then Mutated (copy_at b i src) else Overrun)"

definition insert_block :: "nat \<Rightarrow> buf \<Rightarrow> buf \<Rightarrow> havoc_result" where
  "insert_block i src b = (if i \<le> length b then Mutated (take i b @ src @ drop i b) else Overrun)"

definition delete_block :: "nat \<Rightarrow> nat \<Rightarrow> buf \<Rightarrow> havoc_result" where
  "delete_block i n b = (if i + n \<le> length b then Mutated (take i b @ drop (i + n) b) else Overrun)"

definition read_block :: "nat \<Rightarrow> nat \<Rightarrow> buf \<Rightarrow> (buf \<Rightarrow> havoc_result) \<Rightarrow> havoc_result" where
  "read_block i n src k = (if i + n \<le> length src then k (slice src i n) else Overrun)"

text \<open>The constant byte of the fixed-block mutators: a random one, or the one before the place.\<close>

definition fill_byte :: "world \<Rightarrow> nat \<Rightarrow> buf \<Rightarrow> (u8 \<Rightarrow> havoc_result) \<Rightarrow> mutation" where
  "fill_byte w place b k =
     draw w 2 (\<lambda>strat.
       if strat \<noteq> 0 then draw w 256 (\<lambda>item. yields (k (of_nat item)))
       else let i = (if place \<noteq> 0 then place - 1 else 0)
            in yields (if i < length b then k (b ! i) else Overrun))"

section \<open>Bits, bytes and words\<close>

definition mut_flipbit :: "world \<Rightarrow> buf \<Rightarrow> mutation" where
  "mut_flipbit w b =
     draw w 8 (\<lambda>b'. draw w (length b) (\<lambda>off. yields (poke8 off (\<lambda>x. x XOR push_bit b' 1) b)))"

definition mut_interesting8 :: "world \<Rightarrow> buf \<Rightarrow> mutation" where
  "mut_interesting8 w b =
     draw w (length interesting_8) (\<lambda>item.
     draw w (length b) (\<lambda>off. yields (poke8 off (\<lambda>_. interesting_8 ! item) b)))"

definition mut_interesting16 :: "world \<Rightarrow> buf \<Rightarrow> mutation" where
  "mut_interesting16 w b =
     (if length b < 2 then yields (Mutated b)
      else draw w (length interesting_16) (\<lambda>item.
           draw w (length b - 1) (\<lambda>off. yields (poke16 off (\<lambda>_. interesting_16 ! item) b))))"

definition mut_interesting16be :: "world \<Rightarrow> buf \<Rightarrow> mutation" where
  "mut_interesting16be w b =
     (if length b < 2 then yields (Mutated b)
      else draw w (length interesting_16) (\<lambda>item.
           draw w (length b - 1) (\<lambda>off. yields (poke16 off (\<lambda>_. SWAP16 (interesting_16 ! item)) b))))"

definition mut_interesting32 :: "world \<Rightarrow> buf \<Rightarrow> mutation" where
  "mut_interesting32 w b =
     (if length b < 4 then yields (Mutated b)
      else draw w (length interesting_32) (\<lambda>item.
           draw w (length b - 3) (\<lambda>off. yields (poke32 off (\<lambda>_. interesting_32 ! item) b))))"

definition mut_interesting32be :: "world \<Rightarrow> buf \<Rightarrow> mutation" where
  "mut_interesting32be w b =
     (if length b < 4 then yields (Mutated b)
      else draw w (length interesting_32) (\<lambda>item.
           draw w (length b - 3) (\<lambda>off. yields (poke32 off (\<lambda>_. SWAP32 (interesting_32 ! item)) b))))"

definition mut_arith8_sub :: "world \<Rightarrow> buf \<Rightarrow> mutation" where
  "mut_arith8_sub w b =
     draw w ARITH_MAX (\<lambda>r. let item = 1 + r in
     draw w (length b) (\<lambda>off. yields (poke8 off (\<lambda>x. x - of_nat item) b)))"

definition mut_arith8 :: "world \<Rightarrow> buf \<Rightarrow> mutation" where
  "mut_arith8 w b =
     draw w ARITH_MAX (\<lambda>r. let item = 1 + r in
     draw w (length b) (\<lambda>off. yields (poke8 off (\<lambda>x. x + of_nat item) b)))"

definition mut_arith16_sub :: "world \<Rightarrow> buf \<Rightarrow> mutation" where
  "mut_arith16_sub w b =
     (if length b < 2 then yields (Mutated b)
      else draw w (length b - 1) (\<lambda>pos. draw w ARITH_MAX (\<lambda>r. let item = 1 + r in
           yields (poke16 pos (\<lambda>x. x - of_nat item) b))))"

definition mut_arith16be_sub :: "world \<Rightarrow> buf \<Rightarrow> mutation" where
  "mut_arith16be_sub w b =
     (if length b < 2 then yields (Mutated b)
      else draw w (length b - 1) (\<lambda>pos. draw w ARITH_MAX (\<lambda>r. let num = 1 + r in
           yields (poke16 pos (\<lambda>x. SWAP16 (SWAP16 x - of_nat num)) b))))"

definition mut_arith16 :: "world \<Rightarrow> buf \<Rightarrow> mutation" where
  "mut_arith16 w b =
     (if length b < 2 then yields (Mutated b)
      else draw w (length b - 1) (\<lambda>pos. draw w ARITH_MAX (\<lambda>r. let item = 1 + r in
           yields (poke16 pos (\<lambda>x. x + of_nat item) b))))"

definition mut_arith16be :: "world \<Rightarrow> buf \<Rightarrow> mutation" where
  "mut_arith16be w b =
     (if length b < 2 then yields (Mutated b)
      else draw w (length b - 1) (\<lambda>pos. draw w ARITH_MAX (\<lambda>r. let num = 1 + r in
           yields (poke16 pos (\<lambda>x. SWAP16 (SWAP16 x + of_nat num)) b))))"

definition mut_arith32_sub :: "world \<Rightarrow> buf \<Rightarrow> mutation" where
  "mut_arith32_sub w b =
     (if length b < 4 then yields (Mutated b)
      else draw w (length b - 3) (\<lambda>pos. draw w ARITH_MAX (\<lambda>r. let item = 1 + r in
           yields (poke32 pos (\<lambda>x. x - of_nat item) b))))"

definition mut_arith32be_sub :: "world \<Rightarrow> buf \<Rightarrow> mutation" where
  "mut_arith32be_sub w b =
     (if length b < 4 then yields (Mutated b)
      else draw w (length b - 3) (\<lambda>pos. draw w ARITH_MAX (\<lambda>r. let num = 1 + r in
           yields (poke32 pos (\<lambda>x. SWAP32 (SWAP32 x - of_nat num)) b))))"

definition mut_arith32 :: "world \<Rightarrow> buf \<Rightarrow> mutation" where
  "mut_arith32 w b =
     (if length b < 4 then yields (Mutated b)
      else draw w (length b - 3) (\<lambda>pos. draw w ARITH_MAX (\<lambda>r. let item = 1 + r in
           yields (poke32 pos (\<lambda>x. x + of_nat item) b))))"

definition mut_arith32be :: "world \<Rightarrow> buf \<Rightarrow> mutation" where
  "mut_arith32be w b =
     (if length b < 4 then yields (Mutated b)
      else draw w (length b - 3) (\<lambda>pos. draw w ARITH_MAX (\<lambda>r. let num = 1 + r in
           yields (poke32 pos (\<lambda>x. SWAP32 (SWAP32 x + of_nat num)) b))))"

definition mut_rand8 :: "world \<Rightarrow> buf \<Rightarrow> mutation" where
  "mut_rand8 w b =
     draw w (length b) (\<lambda>pos. draw w 255 (\<lambda>r. let item = 1 + r in
       yields (poke8 pos (\<lambda>x. x XOR of_nat item) b)))"

definition mut_byteadd :: "world \<Rightarrow> buf \<Rightarrow> mutation" where
  "mut_byteadd w b = draw w (length b) (\<lambda>off. yields (poke8 off (\<lambda>x. x + 1) b))"

definition mut_bytesub :: "world \<Rightarrow> buf \<Rightarrow> mutation" where
  "mut_bytesub w b = draw w (length b) (\<lambda>off. yields (poke8 off (\<lambda>x. x - 1) b))"

definition mut_flip8 :: "world \<Rightarrow> buf \<Rightarrow> mutation" where
  "mut_flip8 w b = draw w (length b) (\<lambda>off. yields (poke8 off (\<lambda>x. x XOR 0xff) b))"

section \<open>Blocks\<close>

text \<open>Growing is refused near the size limit; tiny inputs give up, others pick another mutator.\<close>

definition if_room :: "buf \<Rightarrow> mutation \<Rightarrow> mutation" where
  "if_room b m =
     (if length b + unat HAVOC_BLK_XL < MAX_FILE then m
      else if length b < 8 then yields (Mutated b) else yields Retry_step)"

definition mut_clone_copy :: "world \<Rightarrow> buf \<Rightarrow> mutation" where
  "mut_clone_copy w b = if_room b
     (draw_block w (length b) (\<lambda>clone_len.
      draw w (length b - clone_len + 1) (\<lambda>clone_from.
      draw w (length b) (\<lambda>clone_to.
        yields (read_block clone_from clone_len b (\<lambda>src. insert_block clone_to src b))))))"

definition mut_clone_fixed :: "world \<Rightarrow> buf \<Rightarrow> mutation" where
  "mut_clone_fixed w b = if_room b
     (draw_block w (unat HAVOC_BLK_XL) (\<lambda>clone_len.
      draw w (length b) (\<lambda>clone_to.
        fill_byte w clone_to b (\<lambda>item. insert_block clone_to (replicate clone_len item) b))))"

definition mut_overwrite_copy :: "world \<Rightarrow> buf \<Rightarrow> mutation" where
  "mut_overwrite_copy w b =
     (if length b < 2 then yields (Mutated b)
      else draw_block w (length b - 1) (\<lambda>copy_len.
           draw_two w (length b - copy_len + 1) (\<lambda>copy_from copy_to.
             yields (read_block copy_from copy_len b (\<lambda>src. write_block copy_to src b)))))"

definition mut_overwrite_fixed :: "world \<Rightarrow> buf \<Rightarrow> mutation" where
  "mut_overwrite_fixed w b =
     (if length b < 2 then yields (Mutated b)
      else draw_block w (length b - 1) (\<lambda>copy_len.
           draw w (length b - copy_len + 1) (\<lambda>copy_to.
             fill_byte w copy_to b (\<lambda>item. write_block copy_to (replicate copy_len item) b))))"

text \<open>Two \<^verbatim>\<open>memcpy\<close> calls through a backup, which must not overlap.\<close>

definition swap_blocks :: "nat \<Rightarrow> nat \<Rightarrow> nat \<Rightarrow> buf \<Rightarrow> havoc_result" where
  "swap_blocks i j n b =
     (if i + n \<le> length b \<and> j + n \<le> length b \<and> (i + n \<le> j \<or> j + n \<le> i)
      then Mutated (copy_at (copy_at b i (slice b j n)) j (slice b i n)) else Overrun)"

definition mut_switch :: "world \<Rightarrow> buf \<Rightarrow> mutation" where
  "mut_switch w b =
     (if length b < 4 then yields (Mutated b)
      else draw w (length b) (\<lambda>switch_from. draw_other w (length b) switch_from (\<lambda>switch_to.
           let (switch_len, to_end) =
             (if switch_from < switch_to then (switch_to - switch_from, length b - switch_to)
              else (switch_from - switch_to, length b - switch_from))
           in draw_block w (min switch_len to_end) (\<lambda>n. yields (swap_blocks switch_from switch_to n b)))))"

definition mut_del :: "world \<Rightarrow> buf \<Rightarrow> mutation" where
  "mut_del w b =
     (if length b < 2 then yields (Mutated b)
      else draw_block w (length b - 1) (\<lambda>del_len.
           draw w (length b - del_len + 1) (\<lambda>del_from. yields (delete_block del_from del_len b))))"

text \<open>\<^verbatim>\<open>for (i = len - 1; i > 0; i--)\<close>: exchange byte \<open>i\<close> of the block with an earlier one.\<close>

primrec shuffle_block :: "world \<Rightarrow> nat \<Rightarrow> nat \<Rightarrow> buf \<Rightarrow> mutation" where
  "shuffle_block w off 0 b = yields (Mutated b)"
| "shuffle_block w off (Suc i) b =
     draw_other w (Suc i + 1) (Suc i) (\<lambda>j.
       if off + Suc i < length b \<and> off + j < length b
       then shuffle_block w off i (b[off + Suc i := b ! (off + j), off + j := b ! (off + Suc i)])
       else yields Overrun)"

definition mut_shuffle :: "world \<Rightarrow> buf \<Rightarrow> mutation" where
  "mut_shuffle w b =
     (if length b < 4 then yields (Mutated b)
      else draw_block w (length b - 1) (\<lambda>n.
           draw w (length b - n + 1) (\<lambda>off. shuffle_block w off (n - 1) b)))"

definition mut_delone :: "world \<Rightarrow> buf \<Rightarrow> mutation" where
  "mut_delone w b =
     (if length b < 2 then yields (Mutated b)
      else draw w (length b - 1 + 1) (\<lambda>del_from. yields (delete_block del_from 1 b)))"

definition mut_insertone :: "world \<Rightarrow> buf \<Rightarrow> mutation" where
  "mut_insertone w b =
     (if length b < 2 then yields (Mutated b)
      else draw w (length b) (\<lambda>clone_to. fill_byte w clone_to b (\<lambda>item. insert_block clone_to [item] b)))"

section \<open>Numbers in text\<close>

definition is_digit :: "u8 \<Rightarrow> bool" where
  "is_digit c \<longleftrightarrow> 48 \<le> c \<and> c \<le> 57"

fun decimal :: "nat \<Rightarrow> buf" where
  "decimal n = (if n < 10 then [48 + of_nat n] else decimal (n div 10) @ [48 + of_nat (n mod 10)])"

declare decimal.simps [simp del]

text \<open>\<^verbatim>\<open>snprintf(buf, 20, ...)\<close> writes at most 19 characters.\<close>

definition print_s64 :: "u64 \<Rightarrow> buf" where
  "print_s64 v = take 19 (if sint v < 0 then 45 # decimal (nat (- sint v)) else decimal (nat (sint v)))"

text \<open>The first digit of \<open>b\<close> from \<open>i\<close> on and before \<open>hi\<close>, or \<open>hi\<close>.\<close>

definition find_digit :: "nat \<Rightarrow> nat \<Rightarrow> buf \<Rightarrow> nat" where
  "find_digit i hi b = i + length (takeWhile (\<lambda>c. \<not> is_digit c) (drop i (take hi b)))"

definition digits_end :: "nat \<Rightarrow> buf \<Rightarrow> nat" where
  "digits_end i b = i + 1 + length (takeWhile is_digit (drop (i + 1) b))"

text \<open>
  The number's value. The code computes in \<^verbatim>\<open>s64\<close> and overflows, which C leaves undefined,
  on more than 18 digits; the model wraps around. Division rounds towards zero.
\<close>

definition number_at :: "nat \<Rightarrow> nat \<Rightarrow> buf \<Rightarrow> u64" where
  "number_at i j b =
     (let v = fold (\<lambda>k v. v * 10 + ucast (b ! k) - 48) [i + 1..<j] (ucast (b ! i) - 48)
      in if i \<noteq> 0 \<and> b ! (i - 1) = 45 then - v else v)"

definition half :: "u64 \<Rightarrow> u64" where
  "half v = word_of_int ((sint v + (if sint v < 0 then 1 else 0)) div 2)"

definition replace_number :: "nat \<Rightarrow> nat \<Rightarrow> u64 \<Rightarrow> buf \<Rightarrow> havoc_result" where
  "replace_number i j v b =
     (if i \<le> j \<and> j \<le> length b then Mutated (take i b @ print_s64 v @ drop j b) else Overrun)"

definition change_number :: "world \<Rightarrow> u64 \<Rightarrow> (u64 \<Rightarrow> mutation) \<Rightarrow> mutation" where
  "change_number w v k =
     draw w 8 (\<lambda>strat.
       if strat = 0 then k (v + 1)
       else if strat = 1 then k (v - 1)
       else if strat = 2 then k (v * 2)
       else if strat = 3 then k (half v)
       else if strat = 4 then
         (if v \<noteq> 0 \<and> v < 0x19999999
          then (\<lambda>s. let (r, s) = rand_next s in k (r mod (v * 10)) s)
          else draw w 256 (\<lambda>r. k (of_nat r)))
       else if strat = 5 then draw w 256 (\<lambda>r. k (v + of_nat r))
       else if strat = 6 then draw w 256 (\<lambda>r. k (v - of_nat r))
       else k (NOT v))"

definition mut_asciinum :: "world \<Rightarrow> buf \<Rightarrow> mutation" where
  "mut_asciinum w b =
     (if length b < 4 then yields (Mutated b)
      else draw w (length b) (\<lambda>start.
        let found = find_digit start (length b) b;
            off = (if found = length b then find_digit 0 start b else found)
        in if found = length b \<and> off = start
           then (if length b < 8 then yields (Mutated b) else yields Retry_step)
           else change_number w (number_at off (digits_end off b) b)
                  (\<lambda>v. yields (replace_number off (digits_end off b) v b))))"

text \<open>The text is copied without regard to its end: what follows it in the array goes along.\<close>

definition mut_insertasciinum :: "world \<Rightarrow> buf \<Rightarrow> mutation" where
  "mut_insertasciinum w b =
     draw w 8 (\<lambda>r. let n = 1 + r in
     draw w (length b) (\<lambda>pos.
       if length b < pos + n
       then (if length b < 8 then yields (Mutated b) else yields Retry_step)
       else (\<lambda>s. let (v, s) = rand_next s;
                     array = take 19 (decimal (unat v)) @ [0] @ map (uninit w) [0..<8]
                 in yields (write_block pos (take n array) b) s)))"

section \<open>Dictionaries and other inputs\<close>

definition extra_overwrite :: "world \<Rightarrow> extra_data list \<Rightarrow> buf \<Rightarrow> mutation" where
  "extra_overwrite w dict b =
     (if dict = [] then yields Retry_step
      else draw w (length dict) (\<lambda>use_extra.
        let e = dict ! use_extra in
        if e_len e > length b then yields Retry_step
        else draw w (length b - e_len e + 1) (\<lambda>insert_at.
          yields (read_block 0 (e_len e) (e_data e) (\<lambda>src. write_block insert_at src b)))))"

definition extra_insert :: "world \<Rightarrow> extra_data list \<Rightarrow> buf \<Rightarrow> mutation" where
  "extra_insert w dict b =
     (if dict = [] then yields Retry_step
      else draw w (length dict) (\<lambda>use_extra.
        let e = dict ! use_extra in
        if length b + e_len e \<ge> MAX_FILE then yields Retry_step
        else draw w (length b + 1) (\<lambda>insert_at.
          yields (read_block 0 (e_len e) (e_data e) (\<lambda>src. insert_block insert_at src b)))))"

definition mut_extra_overwrite :: "world \<Rightarrow> buf \<Rightarrow> mutation" where
  "mut_extra_overwrite w b s = extra_overwrite w (extras s) b s"

definition mut_extra_insert :: "world \<Rightarrow> buf \<Rightarrow> mutation" where
  "mut_extra_insert w b s = extra_insert w (extras s) b s"

definition mut_auto_extra_overwrite :: "world \<Rightarrow> buf \<Rightarrow> mutation" where
  "mut_auto_extra_overwrite w b s = extra_overwrite w (a_extras s) b s"

definition mut_auto_extra_insert :: "world \<Rightarrow> buf \<Rightarrow> mutation" where
  "mut_auto_extra_insert w b s = extra_insert w (a_extras s) b s"

text \<open>Any entry of the queue but the current one, with at least four bytes.\<close>

partial_function (option) splice_target :: "world \<Rightarrow> afl \<Rightarrow> (nat \<times> afl) option" where
  "splice_target w s =
     Option.bind (rand_below w (queued_items s) s) (\<lambda>(tid, s).
       if tid = current_entry s \<or> q_len (entry s (unat tid)) < 4 then splice_target w s
       else Some (unat tid, s))"

definition with_target :: "world \<Rightarrow> (buf \<Rightarrow> nat \<Rightarrow> mutation) \<Rightarrow> mutation" where
  "with_target w k s =
     Option.bind (splice_target w s) (\<lambda>(tid, s).
     let new_len = unat (q_len (entry s tid)) in
     Option.bind (queue_testcase_get w tid s) (\<lambda>(new_buf, s). k new_buf new_len s))"

definition mut_splice_overwrite :: "world \<Rightarrow> buf \<Rightarrow> mutation" where
  "mut_splice_overwrite w b s =
     (if ready_for_splicing_count s \<le> 1 then yields Retry_step s
      else with_target w (\<lambda>new_buf new_len.
        draw_block w (new_len - 1) (\<lambda>r. let copy_len = min r (length b) in
        draw w (new_len - copy_len + 1) (\<lambda>copy_from.
        draw w (length b - copy_len + 1) (\<lambda>copy_to.
          yields (read_block copy_from copy_len new_buf (\<lambda>src. write_block copy_to src b)))))) s)"

definition mut_splice_insert :: "world \<Rightarrow> buf \<Rightarrow> mutation" where
  "mut_splice_insert w b s =
     (if ready_for_splicing_count s \<le> 1 then yields Retry_step s
      else if length b + unat HAVOC_BLK_XL \<ge> MAX_FILE then yields Retry_step s
      else with_target w (\<lambda>new_buf new_len.
        draw_block w new_len (\<lambda>clone_len.
        draw w (new_len - clone_len + 1) (\<lambda>clone_from.
        draw w (length b + 1) (\<lambda>clone_to.
          yields (read_block clone_from clone_len new_buf (\<lambda>src. insert_block clone_to src b)))))) s)"

section \<open>The switch\<close>

datatype mutator =
    MUT_FLIPBIT | MUT_INTERESTING8 | MUT_INTERESTING16 | MUT_INTERESTING16BE | MUT_INTERESTING32
  | MUT_INTERESTING32BE | MUT_ARITH8_SUB | MUT_ARITH8 | MUT_ARITH16_SUB | MUT_ARITH16BE_SUB | MUT_ARITH16
  | MUT_ARITH16BE | MUT_ARITH32_SUB | MUT_ARITH32BE_SUB | MUT_ARITH32 | MUT_ARITH32BE | MUT_RAND8
  | MUT_CLONE_COPY | MUT_CLONE_FIXED | MUT_OVERWRITE_COPY | MUT_OVERWRITE_FIXED | MUT_BYTEADD
  | MUT_BYTESUB | MUT_FLIP8 | MUT_SWITCH | MUT_DEL | MUT_SHUFFLE | MUT_DELONE | MUT_INSERTONE
  | MUT_ASCIINUM | MUT_INSERTASCIINUM | MUT_EXTRA_OVERWRITE | MUT_EXTRA_INSERT
  | MUT_AUTO_EXTRA_OVERWRITE | MUT_AUTO_EXTRA_INSERT | MUT_SPLICE_OVERWRITE | MUT_SPLICE_INSERT

fun mutate :: "world \<Rightarrow> mutator \<Rightarrow> buf \<Rightarrow> mutation" where
  "mutate w MUT_FLIPBIT = mut_flipbit w"
| "mutate w MUT_INTERESTING8 = mut_interesting8 w"
| "mutate w MUT_INTERESTING16 = mut_interesting16 w"
| "mutate w MUT_INTERESTING16BE = mut_interesting16be w"
| "mutate w MUT_INTERESTING32 = mut_interesting32 w"
| "mutate w MUT_INTERESTING32BE = mut_interesting32be w"
| "mutate w MUT_ARITH8_SUB = mut_arith8_sub w"
| "mutate w MUT_ARITH8 = mut_arith8 w"
| "mutate w MUT_ARITH16_SUB = mut_arith16_sub w"
| "mutate w MUT_ARITH16BE_SUB = mut_arith16be_sub w"
| "mutate w MUT_ARITH16 = mut_arith16 w"
| "mutate w MUT_ARITH16BE = mut_arith16be w"
| "mutate w MUT_ARITH32_SUB = mut_arith32_sub w"
| "mutate w MUT_ARITH32BE_SUB = mut_arith32be_sub w"
| "mutate w MUT_ARITH32 = mut_arith32 w"
| "mutate w MUT_ARITH32BE = mut_arith32be w"
| "mutate w MUT_RAND8 = mut_rand8 w"
| "mutate w MUT_CLONE_COPY = mut_clone_copy w"
| "mutate w MUT_CLONE_FIXED = mut_clone_fixed w"
| "mutate w MUT_OVERWRITE_COPY = mut_overwrite_copy w"
| "mutate w MUT_OVERWRITE_FIXED = mut_overwrite_fixed w"
| "mutate w MUT_BYTEADD = mut_byteadd w"
| "mutate w MUT_BYTESUB = mut_bytesub w"
| "mutate w MUT_FLIP8 = mut_flip8 w"
| "mutate w MUT_SWITCH = mut_switch w"
| "mutate w MUT_DEL = mut_del w"
| "mutate w MUT_SHUFFLE = mut_shuffle w"
| "mutate w MUT_DELONE = mut_delone w"
| "mutate w MUT_INSERTONE = mut_insertone w"
| "mutate w MUT_ASCIINUM = mut_asciinum w"
| "mutate w MUT_INSERTASCIINUM = mut_insertasciinum w"
| "mutate w MUT_EXTRA_OVERWRITE = mut_extra_overwrite w"
| "mutate w MUT_EXTRA_INSERT = mut_extra_insert w"
| "mutate w MUT_AUTO_EXTRA_OVERWRITE = mut_auto_extra_overwrite w"
| "mutate w MUT_AUTO_EXTRA_INSERT = mut_auto_extra_insert w"
| "mutate w MUT_SPLICE_OVERWRITE = mut_splice_overwrite w"
| "mutate w MUT_SPLICE_INSERT = mut_splice_insert w"

section \<open>A rule for every draw\<close>

text \<open>
  From state \<open>s\<close> the mutation never overruns the buffer, changes nothing but the generator and
  the cache with respect to \<open>s0\<close>, and the buffers it yields satisfy \<open>P\<close>.
\<close>

definition good :: "(buf \<Rightarrow> bool) \<Rightarrow> havoc_result \<Rightarrow> bool" where
  "good P r \<longleftrightarrow> (case r of Mutated b \<Rightarrow> P b | Retry_step \<Rightarrow> True | Overrun \<Rightarrow> False)"

definition safe :: "afl \<Rightarrow> (buf \<Rightarrow> bool) \<Rightarrow> mutation \<Rightarrow> afl \<Rightarrow> bool" where
  "safe s0 P m s \<longleftrightarrow> (case m s of None \<Rightarrow> True | Some (r, s') \<Rightarrow> cache_frame s0 s' \<and> good P r)"

lemma good_simps [simp]:
  "good P (Mutated b) = P b" "good P Retry_step" "\<not> good P Overrun"
  by (simp_all add: good_def)

lemma safe_yields: "cache_frame s0 s \<Longrightarrow> good P r \<Longrightarrow> safe s0 P (yields r) s"
  by (simp add: safe_def yields_def)

lemma safe_result: "safe s0 P m s \<Longrightarrow> m s = Some (r, s') \<Longrightarrow> cache_frame s0 s' \<and> good P r"
  by (simp add: safe_def)

lemma safe_mono: "safe s0 P m s \<Longrightarrow> (\<And>b. P b \<Longrightarrow> Q b) \<Longrightarrow> safe s0 Q m s"
  by (auto simp: safe_def good_def split: option.splits havoc_result.splits)

lemma safe_bind:
  assumes "\<And>x s'. g = Some (x, s') \<Longrightarrow> safe s0 P (k x) s'"
  shows "safe s0 P (\<lambda>_. Option.bind g (\<lambda>(x, s). k x s)) s"
  using assms by (cases g) (auto simp: safe_def)

lemma safe_draw:
  assumes "cache_frame s0 s" and "0 < n" and "n < 2 ^ 32"
    and "\<And>r s'. r < n \<Longrightarrow> cache_frame s0 s' \<Longrightarrow> safe s0 P (k r) s'"
  shows "safe s0 P (draw w n k) s"
proof -
  have "safe s0 P (k (unat r)) s'" if "rand_below w (of_nat n) s = Some (r, s')" for r s'
  proof -
    have n: "unat (of_nat n :: u32) = n" using assms(3) by (simp add: unat_of_nat_small)
    then have "(of_nat n :: u32) > 0" using assms(2) by (simp add: word_less_nat_alt)
    then have "r < of_nat n" using rand_below_less [OF that] by blast
    then have "unat r < n" using n by (simp add: word_less_nat_alt)
    moreover have "cache_frame s0 s'"
      using cache_frame_trans [OF assms(1) cache_frame_rng] rand_below_result [OF that] by blast
    ultimately show ?thesis using assms(4) by blast
  qed
  then show ?thesis unfolding draw_def
    by (cases "rand_below w (of_nat n) s") (auto simp: safe_def)
qed

lemma safe_block:
  assumes "cache_frame s0 s" and "0 < n" and "n < 2 ^ 32"
    and "\<And>r s'. 0 < r \<Longrightarrow> r \<le> n \<Longrightarrow> r \<le> unat HAVOC_BLK_XL \<Longrightarrow> cache_frame s0 s' \<Longrightarrow> safe s0 P (k r) s'"
  shows "safe s0 P (draw_block w n k) s"
proof -
  have "safe s0 P (k (unat r)) s'" if c: "choose_block_len w (of_nat n) s = Some (r, s')" for r s'
  proof -
    have n: "unat (of_nat n :: u32) = n" using assms(3) by (simp add: unat_of_nat_small)
    then have pos: "(of_nat n :: u32) > 0" using assms(2) by (simp add: word_less_nat_alt)
    have "0 < unat r \<and> unat r \<le> n \<and> unat r \<le> unat HAVOC_BLK_XL"
      using choose_block_len_bounds [OF c pos] n by (auto simp: word_le_nat_alt)
    moreover have "cache_frame s0 s'"
      using cache_frame_trans [OF assms(1) cache_frame_rng] choose_block_len_bounds [OF c pos] by blast
    ultimately show ?thesis using assms(4) by blast
  qed
  then show ?thesis unfolding draw_block_def
    by (cases "choose_block_len w (of_nat n) s") (auto simp: safe_def)
qed

lemma other_place_result:
  assumes "other_place w n x s = Some r" and "0 < n" and "n < 2 ^ 32"
  shows "fst r < n \<and> fst r \<noteq> x \<and> rng_only s (snd r)"
proof -
  have "0 < n \<longrightarrow> n < 2 ^ 32 \<longrightarrow> fst r < n \<and> fst r \<noteq> x \<and> rng_only s (snd r)"
  proof (rule other_place.raw_induct [where P = "\<lambda>w n x s r. 0 < n \<longrightarrow> n < 2 ^ 32 \<longrightarrow>
    fst r < n \<and> fst r \<noteq> x \<and> rng_only s (snd r)", OF _ assms(1)], intro impI)
  fix f and w and n x :: nat and s :: afl and r
  assume IH: "\<And>w n x s r. f w n x s = Some r \<Longrightarrow> 0 < n \<longrightarrow> n < 2 ^ 32 \<longrightarrow>
      fst r < n \<and> fst r \<noteq> x \<and> rng_only s (snd r)"
    and step: "Option.bind (rand_below w (of_nat n) s) (\<lambda>(y, s).
       if unat y = x then f w n x s else Some (unat y, s)) = Some r"
    and n: "0 < n" "n < 2 ^ 32"
  then obtain y s1 where d: "rand_below w (of_nat n) s = Some (y, s1)"
    by (auto simp: Option.bind_eq_Some_conv)
  have un: "unat (of_nat n :: u32) = n" using n by (simp add: unat_of_nat_small)
  then have "(of_nat n :: u32) > 0" using n by (simp add: word_less_nat_alt)
  then have y: "unat y < n" using rand_below_less [OF d] un by (simp add: word_less_nat_alt)
  have fr: "rng_only s s1" using rand_below_result [OF d] by blast
  show "fst r < n \<and> fst r \<noteq> x \<and> rng_only s (snd r)"
  proof (cases "unat y = x")
    case True
    then have "f w n x s1 = Some r" using step by (simp add: d)
    then show ?thesis using IH [of w n x s1 r] n rng_only_trans [OF fr] by blast
  next
    case False
    then show ?thesis using step y fr by (auto simp: d)
  qed
  qed
  then show ?thesis using assms(2,3) by blast
qed

lemma safe_other:
  assumes "cache_frame s0 s" and "0 < n" and "n < 2 ^ 32"
    and "\<And>y s'. y < n \<Longrightarrow> y \<noteq> x \<Longrightarrow> cache_frame s0 s' \<Longrightarrow> safe s0 P (k y) s'"
  shows "safe s0 P (draw_other w n x k) s"
proof -
  have "safe s0 P (k y) s'" if "other_place w n x s = Some (y, s')" for y s'
    using other_place_result [OF that assms(2,3)] assms(4)
      cache_frame_trans [OF assms(1) cache_frame_rng] by auto
  then show ?thesis unfolding draw_other_def
    by (cases "other_place w n x s") (auto simp: safe_def)
qed

lemma two_places_result:
  assumes "two_places w n s = Some r" and "0 < n" and "n < 2 ^ 32"
  shows "fst (fst r) < n \<and> snd (fst r) < n \<and> rng_only s (snd r)"
proof -
  have "0 < n \<longrightarrow> n < 2 ^ 32 \<longrightarrow> fst (fst r) < n \<and> snd (fst r) < n \<and> rng_only s (snd r)"
  proof (rule two_places.raw_induct [where P = "\<lambda>w n s r. 0 < n \<longrightarrow> n < 2 ^ 32 \<longrightarrow>
    fst (fst r) < n \<and> snd (fst r) < n \<and> rng_only s (snd r)", OF _ assms(1)], intro impI)
  fix f and w and n :: nat and s :: afl and r
  assume IH: "\<And>w n s r. f w n s = Some r \<Longrightarrow> 0 < n \<longrightarrow> n < 2 ^ 32 \<longrightarrow>
      fst (fst r) < n \<and> snd (fst r) < n \<and> rng_only s (snd r)"
    and step: "Option.bind (rand_below w (of_nat n) s) (\<lambda>(x, s).
     Option.bind (rand_below w (of_nat n) s) (\<lambda>(y, s).
       if x = y then f w n s else Some ((unat x, unat y), s))) = Some r"
    and n: "0 < n" "n < 2 ^ 32"
  then obtain x y s1 s2 where d: "rand_below w (of_nat n) s = Some (x, s1)" "rand_below w (of_nat n) s1 = Some (y, s2)"
    by (auto simp: Option.bind_eq_Some_conv)
  have un: "unat (of_nat n :: u32) = n" using n by (simp add: unat_of_nat_small)
  then have pos: "(of_nat n :: u32) > 0" using n by (simp add: word_less_nat_alt)
  have xy: "unat x < n" "unat y < n"
    using rand_below_less [OF d(1) pos] rand_below_less [OF d(2) pos] un by (simp_all add: word_less_nat_alt)
  have fr: "rng_only s s2" using rand_below_result [OF d(1)] rand_below_result [OF d(2)] rng_only_trans by blast
  show "fst (fst r) < n \<and> snd (fst r) < n \<and> rng_only s (snd r)"
  proof (cases "x = y")
    case True
    then have "f w n s2 = Some r" using step by (simp add: d)
    then show ?thesis using IH [of w n s2 r] n rng_only_trans [OF fr] by blast
  next
    case False
    then show ?thesis using step xy fr by (auto simp: d)
  qed
  qed
  then show ?thesis using assms(2,3) by blast
qed

lemma safe_two:
  assumes "cache_frame s0 s" and "0 < n" and "n < 2 ^ 32"
    and "\<And>x y s'. x < n \<Longrightarrow> y < n \<Longrightarrow> cache_frame s0 s' \<Longrightarrow> safe s0 P (k x y) s'"
  shows "safe s0 P (draw_two w n k) s"
proof -
  have "safe s0 P (k x y) s'" if "two_places w n s = Some ((x, y), s')" for x y s'
    using two_places_result [OF that assms(2,3)] assms(4)
      cache_frame_trans [OF assms(1) cache_frame_rng] by auto
  then show ?thesis unfolding draw_two_def
    by (cases "two_places w n s") (auto simp: safe_def)
qed

lemma safe_rand_next:
  assumes "cache_frame s0 s" and "\<And>r s'. cache_frame s0 s' \<Longrightarrow> safe s0 P (k r) s'"
  shows "safe s0 P (\<lambda>s. let (r, s) = rand_next s in k r s) s"
proof -
  obtain r s1 where n: "rand_next s = (r, s1)" by (cases "rand_next s")
  have "cache_frame s0 s1"
    using cache_frame_trans [OF assms(1) cache_frame_rng] rng_only_rand_next [of s] by (simp add: n)
  then show ?thesis using assms(2) [of s1 r] by (simp add: safe_def n)
qed


section \<open>What each mutator may do\<close>

text \<open>The bytes that change lie in a window of \<open>n\<close> bytes.\<close>

definition window :: "nat \<Rightarrow> buf \<Rightarrow> buf \<Rightarrow> bool" where
  "window n b b' \<longleftrightarrow> length b' = length b \<and>
     (\<exists>i. \<forall>k < length b. b' ! k \<noteq> b ! k \<longrightarrow> i \<le> k \<and> k < i + n)"

definition grown :: "buf \<Rightarrow> buf \<Rightarrow> bool" where
  "grown b b' \<longleftrightarrow> (\<exists>i src. b' = take i b @ src @ drop i b)"

definition shrunk :: "buf \<Rightarrow> buf \<Rightarrow> bool" where
  "shrunk b b' \<longleftrightarrow> (\<exists>i n. b' = take i b @ drop (i + n) b)"

definition renumbered :: "buf \<Rightarrow> buf \<Rightarrow> bool" where
  "renumbered b b' \<longleftrightarrow> b' = b \<or> (\<exists>i j v. i < j \<and> j \<le> length b \<and> (\<forall>k. i \<le> k \<and> k < j \<longrightarrow> is_digit (b ! k)) \<and>
     b' = take i b @ print_s64 v @ drop j b)"

fun effect :: "mutator \<Rightarrow> buf \<Rightarrow> buf \<Rightarrow> bool" where
  "effect MUT_FLIPBIT b b' = (window 1 b b' \<and> b' \<noteq> b)"
| "effect MUT_INTERESTING8 b b' = window 1 b b'"
| "effect MUT_INTERESTING16 b b' = window 2 b b'"
| "effect MUT_INTERESTING16BE b b' = window 2 b b'"
| "effect MUT_INTERESTING32 b b' = window 4 b b'"
| "effect MUT_INTERESTING32BE b b' = window 4 b b'"
| "effect MUT_ARITH8_SUB b b' = (window 1 b b' \<and> b' \<noteq> b)"
| "effect MUT_ARITH8 b b' = (window 1 b b' \<and> b' \<noteq> b)"
| "effect MUT_ARITH16_SUB b b' = (window 2 b b' \<and> (2 \<le> length b \<longrightarrow> b' \<noteq> b))"
| "effect MUT_ARITH16BE_SUB b b' = (window 2 b b' \<and> (2 \<le> length b \<longrightarrow> b' \<noteq> b))"
| "effect MUT_ARITH16 b b' = (window 2 b b' \<and> (2 \<le> length b \<longrightarrow> b' \<noteq> b))"
| "effect MUT_ARITH16BE b b' = (window 2 b b' \<and> (2 \<le> length b \<longrightarrow> b' \<noteq> b))"
| "effect MUT_ARITH32_SUB b b' = (window 4 b b' \<and> (4 \<le> length b \<longrightarrow> b' \<noteq> b))"
| "effect MUT_ARITH32BE_SUB b b' = (window 4 b b' \<and> (4 \<le> length b \<longrightarrow> b' \<noteq> b))"
| "effect MUT_ARITH32 b b' = (window 4 b b' \<and> (4 \<le> length b \<longrightarrow> b' \<noteq> b))"
| "effect MUT_ARITH32BE b b' = (window 4 b b' \<and> (4 \<le> length b \<longrightarrow> b' \<noteq> b))"
| "effect MUT_RAND8 b b' = (window 1 b b' \<and> b' \<noteq> b)"
| "effect MUT_CLONE_COPY b b' = grown b b'"
| "effect MUT_CLONE_FIXED b b' = grown b b'"
| "effect MUT_OVERWRITE_COPY b b' = (length b' = length b)"
| "effect MUT_OVERWRITE_FIXED b b' = (length b' = length b)"
| "effect MUT_BYTEADD b b' = (window 1 b b' \<and> b' \<noteq> b)"
| "effect MUT_BYTESUB b b' = (window 1 b b' \<and> b' \<noteq> b)"
| "effect MUT_FLIP8 b b' = (window 1 b b' \<and> b' \<noteq> b)"
| "effect MUT_SWITCH b b' = (mset b' = mset b)"
| "effect MUT_DEL b b' = shrunk b b'"
| "effect MUT_SHUFFLE b b' = (mset b' = mset b)"
| "effect MUT_DELONE b b' = shrunk b b'"
| "effect MUT_INSERTONE b b' = grown b b'"
| "effect MUT_ASCIINUM b b' = renumbered b b'"
| "effect MUT_INSERTASCIINUM b b' = window 8 b b'"
| "effect MUT_EXTRA_OVERWRITE b b' = (length b' = length b)"
| "effect MUT_EXTRA_INSERT b b' = grown b b'"
| "effect MUT_AUTO_EXTRA_OVERWRITE b b' = (length b' = length b)"
| "effect MUT_AUTO_EXTRA_INSERT b b' = grown b b'"
| "effect MUT_SPLICE_OVERWRITE b b' = (length b' = length b)"
| "effect MUT_SPLICE_INSERT b b' = grown b b'"

text \<open>
  The two mutators that may grow the buffer past \<^verbatim>\<open>MAX_FILE\<close>, by one and by 19 bytes
  less the digits replaced. The havoc stage never reaches them (theory \<open>Havoc\<close>).
\<close>

definition unbounded :: "mutator \<Rightarrow> bool" where
  "unbounded m \<longleftrightarrow> m = MUT_INSERTONE \<or> m = MUT_ASCIINUM"

definition allowed :: "mutator \<Rightarrow> buf \<Rightarrow> buf \<Rightarrow> bool" where
  "allowed m b b' \<longleftrightarrow> effect m b b' \<and> 0 < length b' \<and> (unbounded m \<or> length b' \<le> MAX_FILE)"

lemma window_refl [simp, intro]: "window n b b"
  by (simp add: window_def)

lemma length_window: "window n b b' \<Longrightarrow> length b' = length b"
  by (simp add: window_def)

lemma grown_refl [simp, intro]: "grown b b"
  unfolding grown_def by (intro exI [of _ "0 :: nat"] exI [of _ "[]"]) simp

lemma shrunk_refl [simp, intro]: "shrunk b b"
  unfolding shrunk_def by (intro exI [of _ "0 :: nat"]) simp

lemma renumbered_refl [simp, intro]: "renumbered b b"
  by (simp add: renumbered_def)

lemma window_update [simp, intro]: "window (Suc 0) b (b[i := v])"
  unfolding window_def by (auto simp: nth_list_update_if intro!: exI [of _ i])

lemma window_copy_at: "i + length src \<le> length b \<Longrightarrow> length src \<le> n \<Longrightarrow> window n b (copy_at b i src)"
  unfolding window_def by (auto simp: buf_simps intro!: exI [of _ i])

lemma window_store16 [simp, intro]: "window 2 b (store16 b i v)"
  unfolding window_def store16_def by (auto simp: nth_list_update_if intro!: exI [of _ i])

lemma window_store32 [simp, intro]: "window 4 b (store32 b i v)"
  unfolding window_def store32_def by (auto simp: nth_list_update_if intro!: exI [of _ i])

lemma update_same_iff: "i < length b \<Longrightarrow> b[i := v] = b \<longleftrightarrow> v = b ! i"
  by (metis list_update_id nth_list_update_eq)

lemma store16_changes:
  assumes "i + 2 \<le> length b" and "v \<noteq> load16 b i"
  shows "store16 b i v \<noteq> b"
proof
  assume eq: "store16 b i v = b"
  have "load16 (store16 b i v) i = v" by (rule load16_store16) (use assms(1) in simp)
  with eq assms(2) show False by simp
qed

lemma store32_changes:
  assumes "i + 4 \<le> length b" and "v \<noteq> load32 b i"
  shows "store32 b i v \<noteq> b"
proof
  assume eq: "store32 b i v = b"
  have "load32 (store32 b i v) i = v" by (rule load32_store32) (use assms(1) in simp)
  with eq assms(2) show False by simp
qed

lemma store16_same_iff: "i + 2 \<le> length b \<Longrightarrow> store16 b i v = b \<longleftrightarrow> v = load16 b i"
  using store16_changes [of i b v] store16_load16 [of i b] by auto

lemma store32_same_iff: "i + 4 \<le> length b \<Longrightarrow> store32 b i v = b \<longleftrightarrow> v = load32 b i"
  using store32_changes [of i b v] store32_load32 [of i b] by auto

text \<open>Small additions change a word.\<close>

lemma of_nat_neq_0: "0 < n \<Longrightarrow> n < 2 ^ LENGTH('a) \<Longrightarrow> (of_nat n :: 'a::len word) \<noteq> 0"
  by (metis less_numeral_extra(3) unat_0 unat_of_nat_small)

lemma small_step_neq:
  fixes x :: "'a::len word"
  assumes "n < 255" and "8 \<le> LENGTH('a)"
  shows "(x + of_nat (Suc n) = x) = False" "(x - of_nat (Suc n) = x) = False"
    "(of_nat (Suc n) = (0 :: 'a word)) = False"
proof -
  have "(2 :: nat) ^ 8 \<le> 2 ^ LENGTH('a)" using assms(2) by (rule power_increasing) simp
  then have "Suc n < 2 ^ LENGTH('a)" using assms(1) by simp
  then have k: "(of_nat (Suc n) :: 'a word) \<noteq> 0" by (intro of_nat_neq_0) auto
  then show "(of_nat (Suc n) = (0 :: 'a word)) = False" by (rule Eq_FalseI [THEN meta_eq_to_obj_eq])
  have "x + k = x \<Longrightarrow> k = 0" "x - k = x \<Longrightarrow> k = 0" for k
    by (metis add_cancel_left_right) (metis diff_eq_eq add_cancel_left_right)
  with k show "(x + of_nat (Suc n) = x) = False" "(x - of_nat (Suc n) = x) = False" by blast+
qed

lemma xor_same_iff: "x XOR k = x \<longleftrightarrow> k = 0" for x k :: "'a::len word"
  by (metis bit.xor_self xor.left_commute xor.right_neutral)

lemma SWAP16_eq_iff: "SWAP16 y = x \<longleftrightarrow> y = SWAP16 x"
  by auto

lemma SWAP32_eq_iff: "SWAP32 y = x \<longleftrightarrow> y = SWAP32 x"
  by auto

lemmas changes = update_same_iff store16_same_iff store32_same_iff small_step_neq xor_same_iff SWAP16_eq_iff SWAP32_eq_iff

text \<open>The inputs the stage mutates, and the state it does it in.\<close>

definition sources_ok :: "afl \<Rightarrow> bool" where
  "sources_ok s \<longleftrightarrow> tokens_ok (extras s) \<and> tokens_ok (a_extras s) \<and>
     length (extras s) < 2 ^ 32 \<and> length (a_extras s) < 2 ^ 32 \<and>
     entries_ok s \<and> unat (queued_items s) \<le> length (queue_buf s) \<and> queue_buf s \<noteq> []"

lemma mutable_less: "mutable b \<Longrightarrow> length b < 2 ^ 32" "mutable b \<Longrightarrow> 0 < length b"
  by (simp_all add: mutable_def MAX_FILE_def)

lemma allowed_same: "mutable b \<Longrightarrow> effect m b b \<Longrightarrow> allowed m b b"
  by (simp add: allowed_def mutable_def)

text \<open>Results that keep the length.\<close>

lemma allowed_keep: "mutable b \<Longrightarrow> effect m b b' \<Longrightarrow> length b' = length b \<Longrightarrow> allowed m b b'"
  by (simp add: allowed_def mutable_def)

lemma good_poke8:
  assumes "mutable b" and "i < length b" and "effect m b (b[i := f (b ! i)])"
  shows "good (allowed m b) (poke8 i f b)"
  using assms by (simp add: poke8_def allowed_keep)

lemma good_poke16:
  assumes "mutable b" and "i + 2 \<le> length b" and "effect m b (store16 b i (f (load16 b i)))"
  shows "good (allowed m b) (poke16 i f b)"
  using assms by (simp add: poke16_def allowed_keep)

lemma good_poke32:
  assumes "mutable b" and "i + 4 \<le> length b" and "effect m b (store32 b i (f (load32 b i)))"
  shows "good (allowed m b) (poke32 i f b)"
  using assms by (simp add: poke32_def allowed_keep)

named_theorems mutators \<open>the mutators, one safety lemma each\<close>

lemma push_bit_1_neq_0: "k < 8 \<Longrightarrow> (push_bit k 1 :: u8) \<noteq> 0"
  by (auto simp: numeral_eq_Suc less_Suc_eq)

lemma safe_flipbit [mutators]:
  assumes b: "mutable b" and s: "cache_frame s0 s"
  shows "safe s0 (allowed MUT_FLIPBIT b) (mutate w MUT_FLIPBIT b) s"
  unfolding mutate.simps mut_flipbit_def
  by (intro safe_draw safe_yields good_poke8 b s mutable_less [OF b])
    (auto simp: changes)

lemma safe_interesting8 [mutators]:
  assumes b: "mutable b" and s: "cache_frame s0 s"
  shows "safe s0 (allowed MUT_INTERESTING8 b) (mutate w MUT_INTERESTING8 b) s"
  unfolding mutate.simps mut_interesting8_def
  by (intro safe_draw safe_yields good_poke8 b s mutable_less [OF b]) (auto simp: interesting_8_def)

lemma safe_rand8 [mutators]:
  assumes b: "mutable b" and s: "cache_frame s0 s"
  shows "safe s0 (allowed MUT_RAND8 b) (mutate w MUT_RAND8 b) s"
  unfolding mutate.simps mut_rand8_def Let_def
  by (intro safe_draw safe_yields good_poke8 b s mutable_less [OF b])
    (auto simp: changes simp del: of_nat_Suc)

lemma safe_bytes [mutators]:
  assumes b: "mutable b" and s: "cache_frame s0 s"
  shows "safe s0 (allowed MUT_BYTEADD b) (mutate w MUT_BYTEADD b) s"
    and "safe s0 (allowed MUT_BYTESUB b) (mutate w MUT_BYTESUB b) s"
    and "safe s0 (allowed MUT_FLIP8 b) (mutate w MUT_FLIP8 b) s"
  unfolding mutate.simps mut_byteadd_def mut_bytesub_def mut_flip8_def
  by (intro safe_draw safe_yields good_poke8 b s mutable_less [OF b]; auto simp: changes)+

lemma safe_arith8 [mutators]:
  assumes b: "mutable b" and s: "cache_frame s0 s"
  shows "safe s0 (allowed MUT_ARITH8_SUB b) (mutate w MUT_ARITH8_SUB b) s"
    and "safe s0 (allowed MUT_ARITH8 b) (mutate w MUT_ARITH8 b) s"
  unfolding mutate.simps mut_arith8_sub_def mut_arith8_def Let_def
  by (intro safe_draw safe_yields good_poke8 b s mutable_less [OF b];
      auto simp: changes ARITH_MAX_def simp del: of_nat_Suc)+

lemma safe_interesting16 [mutators]:
  assumes b: "mutable b" and s: "cache_frame s0 s"
  shows "safe s0 (allowed MUT_INTERESTING16 b) (mutate w MUT_INTERESTING16 b) s"
proof (cases "length b < 2")
  case True
  then show ?thesis
    by (simp add: mut_interesting16_def safe_yields s b allowed_same)
next
  case False
  then show ?thesis unfolding mutate.simps mut_interesting16_def Let_def if_not_P [OF False]
    by (intro safe_draw safe_yields good_poke16 b s)
      (use mutable_less [OF b] in \<open>auto simp: interesting_16_def\<close>)
qed

lemma safe_interesting16be [mutators]:
  assumes b: "mutable b" and s: "cache_frame s0 s"
  shows "safe s0 (allowed MUT_INTERESTING16BE b) (mutate w MUT_INTERESTING16BE b) s"
proof (cases "length b < 2")
  case True
  then show ?thesis
    by (simp add: mut_interesting16be_def safe_yields s b allowed_same)
next
  case False
  then show ?thesis unfolding mutate.simps mut_interesting16be_def Let_def if_not_P [OF False]
    by (intro safe_draw safe_yields good_poke16 b s)
      (use mutable_less [OF b] in \<open>auto simp: interesting_16_def\<close>)
qed

lemma safe_interesting32 [mutators]:
  assumes b: "mutable b" and s: "cache_frame s0 s"
  shows "safe s0 (allowed MUT_INTERESTING32 b) (mutate w MUT_INTERESTING32 b) s"
proof (cases "length b < 4")
  case True
  then show ?thesis
    by (simp add: mut_interesting32_def safe_yields s b allowed_same)
next
  case False
  then show ?thesis unfolding mutate.simps mut_interesting32_def Let_def if_not_P [OF False]
    by (intro safe_draw safe_yields good_poke32 b s)
      (use mutable_less [OF b] in \<open>auto simp: interesting_32_def\<close>)
qed

lemma safe_interesting32be [mutators]:
  assumes b: "mutable b" and s: "cache_frame s0 s"
  shows "safe s0 (allowed MUT_INTERESTING32BE b) (mutate w MUT_INTERESTING32BE b) s"
proof (cases "length b < 4")
  case True
  then show ?thesis
    by (simp add: mut_interesting32be_def safe_yields s b allowed_same)
next
  case False
  then show ?thesis unfolding mutate.simps mut_interesting32be_def Let_def if_not_P [OF False]
    by (intro safe_draw safe_yields good_poke32 b s)
      (use mutable_less [OF b] in \<open>auto simp: interesting_32_def\<close>)
qed

lemma safe_arith16_sub [mutators]:
  assumes b: "mutable b" and s: "cache_frame s0 s"
  shows "safe s0 (allowed MUT_ARITH16_SUB b) (mutate w MUT_ARITH16_SUB b) s"
proof (cases "length b < 2")
  case True
  then show ?thesis
    by (simp add: mut_arith16_sub_def safe_yields s b allowed_same)
next
  case False
  then show ?thesis unfolding mutate.simps mut_arith16_sub_def Let_def if_not_P [OF False]
    by (intro safe_draw safe_yields good_poke16 b s)
      (use mutable_less [OF b] in \<open>auto simp: ARITH_MAX_def changes simp del: of_nat_Suc\<close>)
qed

lemma safe_arith16 [mutators]:
  assumes b: "mutable b" and s: "cache_frame s0 s"
  shows "safe s0 (allowed MUT_ARITH16 b) (mutate w MUT_ARITH16 b) s"
proof (cases "length b < 2")
  case True
  then show ?thesis
    by (simp add: mut_arith16_def safe_yields s b allowed_same)
next
  case False
  then show ?thesis unfolding mutate.simps mut_arith16_def Let_def if_not_P [OF False]
    by (intro safe_draw safe_yields good_poke16 b s)
      (use mutable_less [OF b] in \<open>auto simp: ARITH_MAX_def changes simp del: of_nat_Suc\<close>)
qed

lemma safe_arith16be_sub [mutators]:
  assumes b: "mutable b" and s: "cache_frame s0 s"
  shows "safe s0 (allowed MUT_ARITH16BE_SUB b) (mutate w MUT_ARITH16BE_SUB b) s"
proof (cases "length b < 2")
  case True
  then show ?thesis
    by (simp add: mut_arith16be_sub_def safe_yields s b allowed_same)
next
  case False
  then show ?thesis unfolding mutate.simps mut_arith16be_sub_def Let_def if_not_P [OF False]
    by (intro safe_draw safe_yields good_poke16 b s)
      (use mutable_less [OF b] in \<open>auto simp: ARITH_MAX_def changes simp del: of_nat_Suc\<close>)
qed

lemma safe_arith16be [mutators]:
  assumes b: "mutable b" and s: "cache_frame s0 s"
  shows "safe s0 (allowed MUT_ARITH16BE b) (mutate w MUT_ARITH16BE b) s"
proof (cases "length b < 2")
  case True
  then show ?thesis
    by (simp add: mut_arith16be_def safe_yields s b allowed_same)
next
  case False
  then show ?thesis unfolding mutate.simps mut_arith16be_def Let_def if_not_P [OF False]
    by (intro safe_draw safe_yields good_poke16 b s)
      (use mutable_less [OF b] in \<open>auto simp: ARITH_MAX_def changes simp del: of_nat_Suc\<close>)
qed

lemma safe_arith32_sub [mutators]:
  assumes b: "mutable b" and s: "cache_frame s0 s"
  shows "safe s0 (allowed MUT_ARITH32_SUB b) (mutate w MUT_ARITH32_SUB b) s"
proof (cases "length b < 4")
  case True
  then show ?thesis
    by (simp add: mut_arith32_sub_def safe_yields s b allowed_same)
next
  case False
  then show ?thesis unfolding mutate.simps mut_arith32_sub_def Let_def if_not_P [OF False]
    by (intro safe_draw safe_yields good_poke32 b s)
      (use mutable_less [OF b] in \<open>auto simp: ARITH_MAX_def changes simp del: of_nat_Suc\<close>)
qed

lemma safe_arith32 [mutators]:
  assumes b: "mutable b" and s: "cache_frame s0 s"
  shows "safe s0 (allowed MUT_ARITH32 b) (mutate w MUT_ARITH32 b) s"
proof (cases "length b < 4")
  case True
  then show ?thesis
    by (simp add: mut_arith32_def safe_yields s b allowed_same)
next
  case False
  then show ?thesis unfolding mutate.simps mut_arith32_def Let_def if_not_P [OF False]
    by (intro safe_draw safe_yields good_poke32 b s)
      (use mutable_less [OF b] in \<open>auto simp: ARITH_MAX_def changes simp del: of_nat_Suc\<close>)
qed

lemma safe_arith32be_sub [mutators]:
  assumes b: "mutable b" and s: "cache_frame s0 s"
  shows "safe s0 (allowed MUT_ARITH32BE_SUB b) (mutate w MUT_ARITH32BE_SUB b) s"
proof (cases "length b < 4")
  case True
  then show ?thesis
    by (simp add: mut_arith32be_sub_def safe_yields s b allowed_same)
next
  case False
  then show ?thesis unfolding mutate.simps mut_arith32be_sub_def Let_def if_not_P [OF False]
    by (intro safe_draw safe_yields good_poke32 b s)
      (use mutable_less [OF b] in \<open>auto simp: ARITH_MAX_def changes simp del: of_nat_Suc\<close>)
qed

lemma safe_arith32be [mutators]:
  assumes b: "mutable b" and s: "cache_frame s0 s"
  shows "safe s0 (allowed MUT_ARITH32BE b) (mutate w MUT_ARITH32BE b) s"
proof (cases "length b < 4")
  case True
  then show ?thesis
    by (simp add: mut_arith32be_def safe_yields s b allowed_same)
next
  case False
  then show ?thesis unfolding mutate.simps mut_arith32be_def Let_def if_not_P [OF False]
    by (intro safe_draw safe_yields good_poke32 b s)
      (use mutable_less [OF b] in \<open>auto simp: ARITH_MAX_def changes simp del: of_nat_Suc\<close>)
qed


subsection \<open>Blocks\<close>

lemma good_insert:
  assumes "mutable b" and "i \<le> length b" and "length b + length src \<le> MAX_FILE \<or> unbounded m"
    and "\<And>b'. grown b b' \<Longrightarrow> effect m b b'"
  shows "good (allowed m b) (insert_block i src b)"
proof -
  have "grown b (take i b @ src @ drop i b)" unfolding grown_def by blast
  then show ?thesis using assms by (auto simp: insert_block_def allowed_def mutable_def)
qed

lemma good_write:
  assumes "mutable b" and "i + length src \<le> length b" and "effect m b (copy_at b i src)"
  shows "good (allowed m b) (write_block i src b)"
  using assms by (simp add: write_block_def allowed_keep)

lemma good_read:
  assumes "i + n \<le> length src" and "\<And>x. length x = n \<Longrightarrow> good P (k x)"
  shows "good P (read_block i n src k)"
  using assms by (simp add: read_block_def)

lemma good_delete:
  assumes "mutable b" and "i + n \<le> length b" and "n < length b" and "\<And>b'. shrunk b b' \<Longrightarrow> effect m b b'"
  shows "good (allowed m b) (delete_block i n b)"
proof -
  have "shrunk b (take i b @ drop (i + n) b)" unfolding shrunk_def by blast
  then show ?thesis using assms by (auto simp: delete_block_def allowed_def mutable_def)
qed

lemma safe_fill:
  assumes s: "cache_frame s0 s" and "place < length b" and "\<And>item. good P (k item)"
  shows "safe s0 P (fill_byte w place b k) s"
proof -
  have read: "good P (if i < length b then k (b ! i) else Overrun)" if "i = (if place \<noteq> 0 then place - 1 else 0)" for i
    using assms that by auto
  have "safe s0 P (if strat \<noteq> 0 then draw w 256 (\<lambda>item. yields (k (of_nat item)))
      else let i = (if place \<noteq> 0 then place - 1 else 0) in yields (if i < length b then k (b ! i) else Overrun)) s'"
    if "cache_frame s0 s'" for strat s'
  proof (cases "strat = 0")
    case True
    have "safe s0 P (let i = (if place \<noteq> 0 then place - 1 else 0)
        in yields (if i < length b then k (b ! i) else Overrun)) s'"
      unfolding Let_def by (rule safe_yields [OF that read [OF refl]])
    with True show ?thesis by simp
  next
    case False
    then have "safe s0 P (draw w 256 (\<lambda>item. yields (k (of_nat item)))) s'"
      by (intro safe_draw safe_yields that assms(3)) auto
    then show ?thesis using False by simp
  qed
  then show ?thesis unfolding fill_byte_def by (rule safe_draw [OF s, rotated 2]) simp_all
qed

lemma XL_MAX: "unat HAVOC_BLK_XL = 32768" "MAX_FILE = 1048576"
  by (simp_all add: HAVOC_BLK_XL_def MAX_FILE_def)

lemma safe_if_room:
  assumes b: "mutable b" and s: "cache_frame s0 s" and "effect m b b"
    and "length b + unat HAVOC_BLK_XL < MAX_FILE \<Longrightarrow> safe s0 (allowed m b) g s"
  shows "safe s0 (allowed m b) (if_room b g) s"
  using assms by (simp add: if_room_def safe_yields allowed_same)

lemma safe_clone_copy [mutators]:
  assumes b: "mutable b" and s: "cache_frame s0 s"
  shows "safe s0 (allowed MUT_CLONE_COPY b) (mutate w MUT_CLONE_COPY b) s"
  unfolding mutate.simps mut_clone_copy_def
  by (intro safe_if_room safe_block safe_draw safe_yields good_read good_insert b s)
    (use mutable_less [OF b] in auto)

lemma safe_clone_fixed [mutators]:
  assumes b: "mutable b" and s: "cache_frame s0 s"
  shows "safe s0 (allowed MUT_CLONE_FIXED b) (mutate w MUT_CLONE_FIXED b) s"
  unfolding mutate.simps mut_clone_fixed_def
  by (intro safe_if_room safe_block safe_draw safe_fill good_insert b s)
    (use mutable_less [OF b] in \<open>auto simp: XL_MAX\<close>)

lemma safe_too_small:
  assumes "mutable b" and "cache_frame s0 s" and "effect m b b"
    and "k \<le> length b \<Longrightarrow> safe s0 (allowed m b) c s"
  shows "safe s0 (allowed m b) (if length b < k then yields (Mutated b) else c) s"
  using assms by (simp add: safe_yields allowed_same)

lemma safe_overwrite_copy [mutators]:
  assumes b: "mutable b" and s: "cache_frame s0 s"
  shows "safe s0 (allowed MUT_OVERWRITE_COPY b) (mutate w MUT_OVERWRITE_COPY b) s"
  unfolding mutate.simps mut_overwrite_copy_def
  by (intro safe_too_small safe_block safe_two safe_yields good_read good_write b s)
    (use mutable_less [OF b] in auto)

lemma safe_overwrite_fixed [mutators]:
  assumes b: "mutable b" and s: "cache_frame s0 s"
  shows "safe s0 (allowed MUT_OVERWRITE_FIXED b) (mutate w MUT_OVERWRITE_FIXED b) s"
  unfolding mutate.simps mut_overwrite_fixed_def
  by (intro safe_too_small safe_block safe_draw safe_fill good_write b s)
    (use mutable_less [OF b] in auto)

lemma safe_del [mutators]:
  assumes b: "mutable b" and s: "cache_frame s0 s"
  shows "safe s0 (allowed MUT_DEL b) (mutate w MUT_DEL b) s"
    and "safe s0 (allowed MUT_DELONE b) (mutate w MUT_DELONE b) s"
  unfolding mutate.simps mut_del_def mut_delone_def
  by (intro safe_too_small safe_block safe_draw safe_yields good_delete b s;
      use mutable_less [OF b] in auto)+

lemma safe_insertone [mutators]:
  assumes b: "mutable b" and s: "cache_frame s0 s"
  shows "safe s0 (allowed MUT_INSERTONE b) (mutate w MUT_INSERTONE b) s"
  unfolding mutate.simps mut_insertone_def
  by (intro safe_too_small safe_draw safe_fill good_insert b s)
    (use mutable_less [OF b] in \<open>auto simp: unbounded_def\<close>)


text \<open>Exchanging two blocks, and shuffling, permute the bytes.\<close>

lemma copy_at_split: "copy_at (u @ v @ z) (length u) v' = u @ v' @ z" if "length v' = length v"
  using that by (simp add: copy_at_def)

lemma mset_swap_sorted:
  assumes "i + n \<le> j" and "j + n \<le> length b"
  shows "mset (copy_at (copy_at b i (slice b j n)) j (slice b i n)) = mset b"
proof -
  define p where "p = take i b"
  define x where "x = slice b i n"
  define q where "q = drop (i + n) (take j b)"
  define y where "y = slice b j n"
  define r where "r = drop (j + n) b"
  have "take j b = p @ x @ q"
    using assms by (simp add: p_def x_def q_def slice_def)
      (metis append_take_drop_id append_assoc min.absorb1 take_drop take_take le_add1 add.commute le_trans take_add)
  moreover have "drop j b = y @ r"
    by (simp add: y_def r_def slice_def) (metis append_take_drop_id drop_drop add.commute)
  ultimately have b: "b = p @ x @ q @ y @ r"
    by (metis append_assoc append_take_drop_id)
  have len: "length p = i" "length x = n" "length q = j - (i + n)" "length y = n"
    using assms by (simp_all add: p_def x_def q_def y_def slice_def)
  have "copy_at b i y = p @ y @ q @ y @ r"
    using copy_at_split [of y x p "q @ y @ r"] len b by simp
  moreover have "copy_at (p @ y @ q @ y @ r) j x = p @ y @ q @ x @ r"
    using copy_at_split [of x y "p @ y @ q" r] len assms by simp
  ultimately have "copy_at (copy_at b i y) j x = p @ y @ q @ x @ r" by simp
  then show ?thesis unfolding x_def [symmetric] y_def [symmetric] by (subst b) (simp add: union_ac)
qed

lemma copy_at_commute:
  assumes "i + length x \<le> j" and "j + length y \<le> length b"
  shows "copy_at (copy_at b i x) j y = copy_at (copy_at b j y) i x"
  using assms by (intro nth_equalityI) (auto simp: buf_simps)

lemma mset_swap_blocks:
  assumes "i + n \<le> length b" and "j + n \<le> length b" and "i + n \<le> j \<or> j + n \<le> i"
  shows "mset (copy_at (copy_at b i (slice b j n)) j (slice b i n)) = mset b"
  using assms(3)
proof
  assume "i + n \<le> j"
  then show ?thesis using mset_swap_sorted assms(2) by blast
next
  assume "j + n \<le> i"
  then show ?thesis
    using mset_swap_sorted [of j n i b] assms(1,2)
      copy_at_commute [of j "slice b i n" i "slice b j n" b] by simp
qed

lemma good_permuted: "mutable b \<Longrightarrow> mset b' = mset b \<Longrightarrow> effect m b b' \<Longrightarrow> good (allowed m b) (Mutated b')"
  using mset_eq_length [of b' b] by (simp add: allowed_keep)

lemma safe_switch [mutators]:
  assumes b: "mutable b" and s: "cache_frame s0 s"
  shows "safe s0 (allowed MUT_SWITCH b) (mutate w MUT_SWITCH b) s"
proof -
  have sw: "good (allowed MUT_SWITCH b) (swap_blocks i j n b)"
    if "i \<noteq> j" "n \<le> min (if i < j then j - i else i - j) (if i < j then length b - j else length b - i)"
      "i < length b" "j < length b" for i j n
  proof -
    have *: "i + n \<le> length b" "j + n \<le> length b" "i + n \<le> j \<or> j + n \<le> i"
      using that by (auto split: if_splits)
    then show ?thesis using good_permuted [OF b mset_swap_blocks [OF *]] mset_swap_blocks [OF *]
      by (simp add: swap_blocks_def)
  qed
  show ?thesis unfolding mutate.simps mut_switch_def
  proof (intro safe_too_small safe_draw safe_other b s, goal_cases)
    case (7 i s1 j s2)
    have "safe s0 (allowed MUT_SWITCH b) (draw_block w (min (if i < j then j - i else i - j)
        (if i < j then length b - j else length b - i)) (\<lambda>n. yields (swap_blocks i j n b))) s2"
      using 7 mutable_less [OF b] by (intro safe_block safe_yields sw) (auto split: if_splits)
    then show ?case by (simp add: Let_def split: if_splits)
  qed (use mutable_less [OF b] in auto)
qed

lemma safe_shuffle_block:
  assumes "cache_frame s0 s" and "mset b' = mset b" and "off + i < length b" and "mutable b"
  shows "safe s0 (allowed MUT_SHUFFLE b) (shuffle_block w off i b') s"
  using assms
proof (induction i arbitrary: b' s)
  case 0
  then show ?case using good_permuted [OF assms(4) 0(2)] by (simp add: safe_yields)
next
  case (Suc i)
  have len: "length b' = length b" using Suc(3) by (rule mset_eq_length)
  have "safe s0 (allowed MUT_SHUFFLE b)
      (shuffle_block w off i (b'[off + Suc i := b' ! (off + j), off + j := b' ! (off + Suc i)])) s'"
    if "j < Suc i + 1" "cache_frame s0 s'" for j s'
  proof (rule Suc.IH [OF that(2) _ _ Suc(5)])
    show "mset (b'[off + Suc i := b' ! (off + j), off + j := b' ! (off + Suc i)]) = mset b"
      using that Suc len by (simp add: mset_swap)
  qed (use Suc in simp)
  then show ?case unfolding shuffle_block.simps
    using Suc len mutable_less [OF Suc(5)] by (intro safe_other) auto
qed

lemma safe_shuffle [mutators]:
  assumes b: "mutable b" and s: "cache_frame s0 s"
  shows "safe s0 (allowed MUT_SHUFFLE b) (mutate w MUT_SHUFFLE b) s"
  unfolding mutate.simps mut_shuffle_def
  by (intro safe_too_small safe_block safe_draw safe_shuffle_block b s)
    (use mutable_less [OF b] in auto)


subsection \<open>Numbers, dictionaries and other inputs\<close>

lemma decimal_not_Nil [simp]: "decimal n \<noteq> []"
  by (subst decimal.simps) simp

lemma print_s64_not_Nil [simp]: "print_s64 v \<noteq> []"
  by (simp add: print_s64_def)

lemma find_digit_le: "i \<le> hi \<Longrightarrow> hi \<le> length b \<Longrightarrow> find_digit i hi b \<le> hi"
  using length_takeWhile_le [of "\<lambda>c. \<not> is_digit c" "drop i (take hi b)"] by (simp add: find_digit_def)

lemma find_digit_digit:
  assumes "find_digit i hi b < hi" and "hi \<le> length b" and "i \<le> hi"
  shows "is_digit (b ! find_digit i hi b)"
proof -
  let ?xs = "drop i (take hi b)" and ?P = "\<lambda>c. \<not> is_digit c"
  have "length (takeWhile ?P ?xs) < length ?xs" using assms by (simp add: find_digit_def)
  then have "is_digit (?xs ! length (takeWhile ?P ?xs))" using nth_length_takeWhile by fastforce
  then show ?thesis using assms by (simp add: find_digit_def)
qed

lemma digits_end_le: "i < length b \<Longrightarrow> digits_end i b \<le> length b"
  using length_takeWhile_le [of is_digit "drop (i + 1) b"] by (simp add: digits_end_def)

lemma digits_run:
  assumes "is_digit (b ! i)" and "i < length b" and "i \<le> k" and "k < digits_end i b"
  shows "is_digit (b ! k)"
proof (cases "k = i")
  case False
  let ?xs = "drop (i + 1) b"
  have k: "k - (i + 1) < length (takeWhile is_digit ?xs)" using assms False by (simp add: digits_end_def)
  then have "takeWhile is_digit ?xs ! (k - (i + 1)) \<in> set (takeWhile is_digit ?xs)" by (rule nth_mem)
  then have "is_digit (takeWhile is_digit ?xs ! (k - (i + 1)))" by (rule set_takeWhileD [THEN conjunct2])
  moreover have "takeWhile is_digit ?xs ! (k - (i + 1)) = ?xs ! (k - (i + 1))" using k by (rule takeWhile_nth)
  ultimately show ?thesis using assms False by simp
qed (use assms in simp)

lemma good_replace_number:
  assumes b: "mutable b" and i: "i < length b" and d: "is_digit (b ! i)"
  shows "good (allowed MUT_ASCIINUM b) (replace_number i (digits_end i b) v b)"
proof -
  have le: "i < digits_end i b" "digits_end i b \<le> length b"
    using digits_end_le [OF i] by (simp_all add: digits_end_def)
  have "renumbered b (take i b @ print_s64 v @ drop (digits_end i b) b)"
    unfolding renumbered_def using le digits_run [OF d i] by blast
  moreover have "0 < length (print_s64 v)" by simp
  then have "0 < length (take i b @ print_s64 v @ drop (digits_end i b) b)" by simp
  ultimately show ?thesis using le by (simp add: replace_number_def allowed_def unbounded_def del: length_append)
qed

lemma safe_change_number:
  assumes s: "cache_frame s0 s" and k: "\<And>v s'. cache_frame s0 s' \<Longrightarrow> safe s0 P (k v) s'"
  shows "safe s0 P (change_number w v k) s"
proof -
  have 4: "safe s0 P (if v \<noteq> 0 \<and> v < 0x19999999
          then (\<lambda>s. let (r, s) = rand_next s in k (r mod (v * 10)) s)
          else draw w 256 (\<lambda>r. k (of_nat r))) s'" if "cache_frame s0 s'" for s'
  proof (cases "v \<noteq> 0 \<and> v < 0x19999999")
    case True
    have "safe s0 P (\<lambda>s. let (r, s) = rand_next s in k (r mod (v * 10)) s) s'"
      by (rule safe_rand_next [OF that k])
    then show ?thesis by (simp only: if_P [OF True])
  next
    case False
    have "safe s0 P (draw w 256 (\<lambda>r. k (of_nat r))) s'" by (intro safe_draw that k) auto
    then show ?thesis by (simp only: if_not_P [OF False])
  qed
  have 5: "safe s0 P (draw w 256 (\<lambda>r. k (f r))) s'" if "cache_frame s0 s'" for f s'
    by (intro safe_draw that k) auto
  show ?thesis unfolding change_number_def
  proof (rule safe_draw [OF s])
    fix strat s'
    assume "cache_frame s0 s'"
    then show "safe s0 P (if strat = 0 then k (v + 1)
       else if strat = 1 then k (v - 1)
       else if strat = 2 then k (v * 2)
       else if strat = 3 then k (half v)
       else if strat = 4 then
         (if v \<noteq> 0 \<and> v < 0x19999999
          then (\<lambda>s. let (r, s) = rand_next s in k (r mod (v * 10)) s)
          else draw w 256 (\<lambda>r. k (of_nat r)))
       else if strat = 5 then draw w 256 (\<lambda>r. k (v + of_nat r))
       else if strat = 6 then draw w 256 (\<lambda>r. k (v - of_nat r))
       else k (NOT v)) s'"
      using k 4 5 by (cases "strat = 0"; cases "strat = 1"; cases "strat = 2"; cases "strat = 3";
          cases "strat = 4"; cases "strat = 5"; cases "strat = 6") (simp_all only: if_True if_False simp_thms)
  qed auto
qed

lemma safe_asciinum [mutators]:
  assumes b: "mutable b" and s: "cache_frame s0 s"
  shows "safe s0 (allowed MUT_ASCIINUM b) (mutate w MUT_ASCIINUM b) s"
  unfolding mutate.simps mut_asciinum_def
proof (intro safe_too_small safe_draw b s)
  fix start s'
  assume start: "start < length b" and s': "cache_frame s0 s'"
  let ?found = "find_digit start (length b) b"
  let ?off = "if ?found = length b then find_digit 0 start b else ?found"
  have "safe s0 (allowed MUT_ASCIINUM b)
     (if ?found = length b \<and> ?off = start
           then (if length b < 8 then yields (Mutated b) else yields Retry_step)
           else change_number w (number_at ?off (digits_end ?off b) b)
                  (\<lambda>v. yields (replace_number ?off (digits_end ?off b) v b))) s'"
  proof (cases "?found = length b \<and> ?off = start")
    case True
    have "safe s0 (allowed MUT_ASCIINUM b) (if length b < 8 then yields (Mutated b) else yields Retry_step) s'"
      using b s' by (simp add: safe_yields allowed_same)
    then show ?thesis by (simp only: if_P [OF True])
  next
    case False
    have "?off < length b \<and> is_digit (b ! ?off)"
    proof (cases "?found = length b")
      case True
      then have "find_digit 0 start b < start"
        using False find_digit_le [of 0 start b] start by auto
      then show ?thesis using True find_digit_digit [of 0 start b] start by simp
    next
      case f: False
      then show ?thesis
        using find_digit_le [of start "length b" b] find_digit_digit [of start "length b" b] start by simp
    qed
    then have "safe s0 (allowed MUT_ASCIINUM b) (change_number w (number_at ?off (digits_end ?off b) b)
                  (\<lambda>v. yields (replace_number ?off (digits_end ?off b) v b))) s'"
      by (intro safe_change_number safe_yields good_replace_number b s') auto
    then show ?thesis by (simp only: if_not_P [OF False])
  qed
  then show "safe s0 (allowed MUT_ASCIINUM b)
     (let found = find_digit start (length b) b;
            off = (if found = length b then find_digit 0 start b else found)
        in if found = length b \<and> off = start
           then (if length b < 8 then yields (Mutated b) else yields Retry_step)
           else change_number w (number_at off (digits_end off b) b)
                  (\<lambda>v. yields (replace_number off (digits_end off b) v b))) s'"
    unfolding Let_def .
qed (use mutable_less [OF b] in auto)


lemma safe_insertasciinum [mutators]:
  assumes b: "mutable b" and s: "cache_frame s0 s"
  shows "safe s0 (allowed MUT_INSERTASCIINUM b) (mutate w MUT_INSERTASCIINUM b) s"
  unfolding mutate.simps mut_insertasciinum_def Let_def [of "1 + r" for r]
proof (intro safe_draw s, goal_cases)
  case (6 r s1 pos s2)
  let ?n = "1 + r"
  let ?text = "\<lambda>v. take ?n (take 19 (decimal (unat v)) @ [0] @ map (uninit w) [0..<8])"
  show ?case
  proof (cases "length b < pos + ?n")
    case True
    have "safe s0 (allowed MUT_INSERTASCIINUM b) (if length b < 8 then yields (Mutated b) else yields Retry_step) s2"
      using b 6 by (simp add: safe_yields allowed_same)
    then show ?thesis by (simp only: if_P [OF True])
  next
    case False
    have "good (allowed MUT_INSERTASCIINUM b) (write_block pos (?text v) b)" for v
      by (rule good_write [OF b]) (use False 6 in \<open>auto intro!: window_copy_at\<close>)
    then have "safe s0 (allowed MUT_INSERTASCIINUM b)
        (\<lambda>s. let (v, s) = rand_next s in yields (write_block pos (?text v) b) s) s2"
      by (intro safe_rand_next safe_yields) (use 6 in auto)
    then show ?thesis by (simp only: if_not_P [OF False] Let_def)
  qed
qed (use mutable_less [OF b] in auto)

lemma safe_extra_overwrite:
  assumes b: "mutable b" and s: "cache_frame s0 s" and "tokens_ok dict" and "length dict < 2 ^ 32"
    and eff: "\<And>b'. length b' = length b \<Longrightarrow> effect m b b'"
  shows "safe s0 (allowed m b) (extra_overwrite w dict b) s"
proof (cases "dict = []")
  case True
  then show ?thesis by (simp add: extra_overwrite_def safe_yields s)
next
  case False
  have "safe s0 (allowed m b) (let e = dict ! r in
        if e_len e > length b then yields Retry_step
        else draw w (length b - e_len e + 1) (\<lambda>insert_at.
          yields (read_block 0 (e_len e) (e_data e) (\<lambda>src. write_block insert_at src b)))) s'"
    if "r < length dict" "cache_frame s0 s'" for r s'
  proof (cases "e_len (dict ! r) > length b")
    case True
    then show ?thesis using that by (simp add: Let_def safe_yields)
  next
    case small: False
    have "length (e_data (dict ! r)) = e_len (dict ! r)" using assms(3) that by (simp add: tokens_ok_def)
    then have "safe s0 (allowed m b) (draw w (length b - e_len (dict ! r) + 1) (\<lambda>insert_at.
          yields (read_block 0 (e_len (dict ! r)) (e_data (dict ! r)) (\<lambda>src. write_block insert_at src b)))) s'"
      by (intro safe_draw safe_yields good_read good_write b eff)
        (use that small b in \<open>auto simp: mutable_def MAX_FILE_def\<close>)
    then show ?thesis using small by (simp add: Let_def)
  qed
  then show ?thesis unfolding extra_overwrite_def if_not_P [OF False]
    by (intro safe_draw s) (use assms False in auto)
qed

lemma safe_extra_insert:
  assumes b: "mutable b" and s: "cache_frame s0 s" and "tokens_ok dict" and "length dict < 2 ^ 32"
    and eff: "\<And>b'. grown b b' \<Longrightarrow> effect m b b'"
  shows "safe s0 (allowed m b) (extra_insert w dict b) s"
proof (cases "dict = []")
  case True
  then show ?thesis by (simp add: extra_insert_def safe_yields s)
next
  case False
  have "safe s0 (allowed m b) (let e = dict ! r in
        if length b + e_len e \<ge> MAX_FILE then yields Retry_step
        else draw w (length b + 1) (\<lambda>insert_at.
          yields (read_block 0 (e_len e) (e_data e) (\<lambda>src. insert_block insert_at src b)))) s'"
    if "r < length dict" "cache_frame s0 s'" for r s'
  proof (cases "length b + e_len (dict ! r) \<ge> MAX_FILE")
    case True
    then show ?thesis using that by (simp add: Let_def safe_yields)
  next
    case small: False
    have "length (e_data (dict ! r)) = e_len (dict ! r)" using assms(3) that by (simp add: tokens_ok_def)
    then have "safe s0 (allowed m b) (draw w (length b + 1) (\<lambda>insert_at.
          yields (read_block 0 (e_len (dict ! r)) (e_data (dict ! r)) (\<lambda>src. insert_block insert_at src b)))) s'"
      by (intro safe_draw safe_yields good_read good_insert b eff)
        (use that small b in \<open>auto simp: mutable_def MAX_FILE_def\<close>)
    then show ?thesis using small by (simp add: Let_def)
  qed
  then show ?thesis unfolding extra_insert_def if_not_P [OF False]
    by (intro safe_draw s) (use assms False in auto)
qed

text \<open>What the splicing mutators get is the contents of an entry with at least four bytes.\<close>

lemma splice_target_result:
  assumes "splice_target w s = Some r" and "unat (queued_items s) \<le> length (queue_buf s)" and "queue_buf s \<noteq> []"
  shows "fst r < length (queue_buf s) \<and> 4 \<le> unat (q_len (entry s (fst r))) \<and> rng_only s (snd r)"
proof -
  let ?P = "\<lambda>s r. unat (queued_items s) \<le> length (queue_buf s) \<longrightarrow> queue_buf s \<noteq> [] \<longrightarrow>
     fst r < length (queue_buf s) \<and> 4 \<le> unat (q_len (entry s (fst r))) \<and> rng_only s (snd r)"
  have "?P s r"
  proof (rule splice_target.raw_induct [where P = "\<lambda>w s r. ?P s r", OF _ assms(1)], intro impI)
    fix f and w and s :: afl and r
    assume IH: "\<And>w s r. f w s = Some r \<Longrightarrow> ?P s r"
      and step: "Option.bind (rand_below w (queued_items s) s) (\<lambda>(tid, s).
       if tid = current_entry s \<or> q_len (entry s (unat tid)) < 4 then f w s
       else Some (unat tid, s)) = Some r"
      and q: "unat (queued_items s) \<le> length (queue_buf s)" "queue_buf s \<noteq> []"
    then obtain tid s1 where d: "rand_below w (queued_items s) s = Some (tid, s1)"
      by (auto simp: Option.bind_eq_Some_conv)
    have tid: "unat tid < length (queue_buf s)"
    proof (cases "queued_items s \<le> 1")
      case True
      then show ?thesis using rand_below_result [OF d] q by simp
    next
      case False
      then have "tid < queued_items s" using rand_below_result [OF d] by simp
      then show ?thesis using q by (simp add: word_less_nat_alt)
    qed
    have fr: "rng_only s s1" using rand_below_result [OF d] by blast
    then have same: "queue_buf s1 = queue_buf s" "queued_items s1 = queued_items s" by (auto simp: rng_only_def)
    then have ent: "entry s1 = entry s" by (simp add: entry_def fun_eq_iff)
    show "fst r < length (queue_buf s) \<and> 4 \<le> unat (q_len (entry s (fst r))) \<and> rng_only s (snd r)"
    proof (cases "tid = current_entry s1 \<or> q_len (entry s1 (unat tid)) < 4")
      case True
      then have "f w s1 = Some r" using step by (auto simp: d)
      then show ?thesis using IH [of w s1 r] q same ent rng_only_trans [OF fr] by auto
    next
      case False
      then have "r = (unat tid, s1)" using step by (auto simp: d)
      then show ?thesis using False tid fr ent by (simp add: word_less_nat_alt)
    qed
  qed
  then show ?thesis using assms by blast
qed

lemma safe_with_target:
  assumes s: "cache_frame s0 s" and ok: "entries_ok s" "unat (queued_items s) \<le> length (queue_buf s)" "queue_buf s \<noteq> []"
    and k: "\<And>buf n s'. 4 \<le> n \<Longrightarrow> n < 2 ^ 32 \<Longrightarrow> n \<le> length buf \<Longrightarrow> cache_frame s0 s' \<Longrightarrow> safe s0 P (k buf n) s'"
  shows "safe s0 P (with_target w k) s"
proof -
  have "safe s0 P (k buf (unat (q_len (entry s1 tid)))) s2"
    if t: "splice_target w s = Some (tid, s1)" and g: "queue_testcase_get w tid s1 = Some (buf, s2)" for tid s1 buf s2
  proof -
    note r = splice_target_result [OF t ok(2,3)]
    have fr: "cache_frame s s1" using r by (simp add: cache_frame_rng)
    have same: "queue_buf s1 = queue_buf s" using r by (auto simp: rng_only_def)
    then have ent: "entry s1 = entry s" by (simp add: entry_def fun_eq_iff)
    have "cache_frame s1 s2 \<and> (entries_ok s1 \<longrightarrow> unat (q_len (entry s1 tid)) \<le> length buf)"
      by (rule queue_testcase_get_result [OF g]) (use r same in simp)
    moreover have "entries_ok s1" using cache_frameD(2) [OF fr] ok(1) by simp
    moreover have "unat (q_len (entry s1 tid)) < 2 ^ 32" using unsigned_less [of "q_len (entry s1 tid)"] by simp
    ultimately show ?thesis
      using k r ent cache_frame_trans [OF s cache_frame_trans [OF fr]] by simp
  qed
  then have "safe s0 P (\<lambda>_. Option.bind (queue_testcase_get w tid s1) (\<lambda>(buf, s). k buf (unat (q_len (entry s1 tid))) s)) s1"
    if "splice_target w s = Some (tid, s1)" for tid s1
    using that by (intro safe_bind) blast
  then have "safe s0 P (\<lambda>_. Option.bind (splice_target w s) (\<lambda>(tid, s).
      Option.bind (queue_testcase_get w tid s) (\<lambda>(buf, s'). k buf (unat (q_len (entry s tid))) s'))) s"
    by (cases "splice_target w s") (auto simp: safe_def)
  then show ?thesis by (simp add: safe_def with_target_def Let_def)
qed


lemma safe_splice_overwrite:
  assumes b: "mutable b" and s: "cache_frame s0 s"
    and ok: "entries_ok s" "unat (queued_items s) \<le> length (queue_buf s)" "queue_buf s \<noteq> []"
  shows "safe s0 (allowed MUT_SPLICE_OVERWRITE b) (mutate w MUT_SPLICE_OVERWRITE b) s"
proof (cases "ready_for_splicing_count s \<le> 1")
  case True
  then show ?thesis using s by (simp add: safe_def mut_splice_overwrite_def yields_def)
next
  case False
  have small: "n - min r (length b) + 1 < 2 ^ 32" if "0 < r" "n < 2 ^ 32" "4 \<le> n" for r n
  proof -
    have "0 < min r (length b)" using that b by (simp add: mutable_def)
    then show ?thesis using that by linarith
  qed
  have "safe s0 (allowed MUT_SPLICE_OVERWRITE b) (draw_block w (n - 1) (\<lambda>r. let copy_len = min r (length b) in
        draw w (n - copy_len + 1) (\<lambda>copy_from.
        draw w (length b - copy_len + 1) (\<lambda>copy_to.
          yields (read_block copy_from copy_len buf (\<lambda>src. write_block copy_to src b)))))) s'"
    if "4 \<le> n" "n < 2 ^ 32" "n \<le> length buf" "cache_frame s0 s'" for buf n s'
    unfolding Let_def
    by (intro safe_block safe_draw safe_yields good_read good_write b)
      (use that b small in \<open>auto simp: mutable_def MAX_FILE_def\<close>)
  then have "safe s0 (allowed MUT_SPLICE_OVERWRITE b) (with_target w (\<lambda>new_buf new_len.
        draw_block w (new_len - 1) (\<lambda>r. let copy_len = min r (length b) in
        draw w (new_len - copy_len + 1) (\<lambda>copy_from.
        draw w (length b - copy_len + 1) (\<lambda>copy_to.
          yields (read_block copy_from copy_len new_buf (\<lambda>src. write_block copy_to src b))))))) s"
    by (rule safe_with_target [OF s ok])
  then show ?thesis using False by (simp add: safe_def mut_splice_overwrite_def)
qed

lemma safe_splice_insert:
  assumes b: "mutable b" and s: "cache_frame s0 s"
    and ok: "entries_ok s" "unat (queued_items s) \<le> length (queue_buf s)" "queue_buf s \<noteq> []"
  shows "safe s0 (allowed MUT_SPLICE_INSERT b) (mutate w MUT_SPLICE_INSERT b) s"
proof (cases "ready_for_splicing_count s \<le> 1 \<or> length b + unat HAVOC_BLK_XL \<ge> MAX_FILE")
  case True
  then show ?thesis using s by (auto simp: safe_def mut_splice_insert_def yields_def)
next
  case False
  have "safe s0 (allowed MUT_SPLICE_INSERT b) (draw_block w n (\<lambda>clone_len.
        draw w (n - clone_len + 1) (\<lambda>clone_from.
        draw w (length b + 1) (\<lambda>clone_to.
          yields (read_block clone_from clone_len buf (\<lambda>src. insert_block clone_to src b)))))) s'"
    if "4 \<le> n" "n < 2 ^ 32" "n \<le> length buf" "cache_frame s0 s'" for buf n s'
    by (intro safe_block safe_draw safe_yields good_read good_insert b)
      (use that b False in \<open>auto simp: mutable_def MAX_FILE_def\<close>)
  then have "safe s0 (allowed MUT_SPLICE_INSERT b) (with_target w (\<lambda>new_buf new_len.
        draw_block w new_len (\<lambda>clone_len.
        draw w (new_len - clone_len + 1) (\<lambda>clone_from.
        draw w (length b + 1) (\<lambda>clone_to.
          yields (read_block clone_from clone_len new_buf (\<lambda>src. insert_block clone_to src b))))))) s"
    by (rule safe_with_target [OF s ok])
  then show ?thesis using False by (simp add: safe_def mut_splice_insert_def)
qed

lemma safe_extras:
  assumes b: "mutable b" and s: "cache_frame s0 s" and ok: "sources_ok s"
  shows "safe s0 (allowed MUT_EXTRA_OVERWRITE b) (mutate w MUT_EXTRA_OVERWRITE b) s"
    and "safe s0 (allowed MUT_EXTRA_INSERT b) (mutate w MUT_EXTRA_INSERT b) s"
    and "safe s0 (allowed MUT_AUTO_EXTRA_OVERWRITE b) (mutate w MUT_AUTO_EXTRA_OVERWRITE b) s"
    and "safe s0 (allowed MUT_AUTO_EXTRA_INSERT b) (mutate w MUT_AUTO_EXTRA_INSERT b) s"
proof -
  have d: "tokens_ok (extras s)" "tokens_ok (a_extras s)" "length (extras s) < 2 ^ 32" "length (a_extras s) < 2 ^ 32"
    using ok by (simp_all add: sources_ok_def)
  show "safe s0 (allowed MUT_EXTRA_OVERWRITE b) (mutate w MUT_EXTRA_OVERWRITE b) s"
    "safe s0 (allowed MUT_AUTO_EXTRA_OVERWRITE b) (mutate w MUT_AUTO_EXTRA_OVERWRITE b) s"
    using safe_extra_overwrite [OF b s d(1,3), of MUT_EXTRA_OVERWRITE w]
      safe_extra_overwrite [OF b s d(2,4), of MUT_AUTO_EXTRA_OVERWRITE w]
    by (simp_all add: safe_def mut_extra_overwrite_def mut_auto_extra_overwrite_def)
  show "safe s0 (allowed MUT_EXTRA_INSERT b) (mutate w MUT_EXTRA_INSERT b) s"
    "safe s0 (allowed MUT_AUTO_EXTRA_INSERT b) (mutate w MUT_AUTO_EXTRA_INSERT b) s"
    using safe_extra_insert [OF b s d(1,3), of MUT_EXTRA_INSERT w]
      safe_extra_insert [OF b s d(2,4), of MUT_AUTO_EXTRA_INSERT w]
    by (simp_all add: safe_def mut_extra_insert_def mut_auto_extra_insert_def)
qed

text \<open>Every mutator stays within the buffer and does what its entry in the table says.\<close>

lemma safe_mutate:
  assumes b: "mutable b" and s: "cache_frame s0 s" and ok: "sources_ok s"
  shows "safe s0 (allowed m b) (mutate w m b) s"
proof -
  have q: "entries_ok s" "unat (queued_items s) \<le> length (queue_buf s)" "queue_buf s \<noteq> []"
    using ok by (simp_all add: sources_ok_def)
  show ?thesis
    by (cases m) (simp_all only: mutators [OF b s] safe_extras [OF b s ok] safe_splice_overwrite [OF b s q]
        safe_splice_insert [OF b s q])
qed

end
