(* ===== verification/Alias.thy ===== *)
theory Alias
  imports Complex_Main
begin

text \<open>
  Alias tables: the data structure both tables of the fuzzer use to draw from a distribution
  in constant time (\<^verbatim>\<open>update_distribution\<close> in \<^verbatim>\<open>src/afl-fuzz.c\<close> for the
  mutators, \<^verbatim>\<open>create_alias_table\<close> in \<^verbatim>\<open>src/afl-fuzz-queue.c\<close> for the queue).
  Drawing picks a slot \<open>i\<close> of \<open>n\<close> uniformly, then \<open>i\<close> itself with probability
  \<open>prob ! i\<close> and \<open>alias ! i\<close> otherwise. The numbers are exact rationals in place of
  \<^verbatim>\<open>double\<close>s, so rounding is not represented.
\<close>

section \<open>Building a table\<close>

record tables =
  t_prob :: "rat list"
  t_alias :: "nat list"

text \<open>The two stacks, top first, and the scaled probabilities still to be placed.\<close>

record work =
  w_small :: "nat list"
  w_large :: "nat list"
  w_scaled :: "rat list"

text \<open>\<^verbatim>\<open>if (scaled[g] < 1.0) small[small_size++] = g; else large[large_size++] = g;\<close>\<close>

definition stack_on :: "nat \<Rightarrow> work \<Rightarrow> work" where
  "stack_on g w = (if w_scaled w ! g < 1 then w\<lparr>w_small := g # w_small w\<rparr> else w\<lparr>w_large := g # w_large w\<rparr>)"

text \<open>One turn of the pairing loop: the small slot \<open>l\<close> is topped up from the large one \<open>g\<close>.\<close>

definition pair_step :: "nat \<Rightarrow> nat \<Rightarrow> work \<times> tables \<Rightarrow> work \<times> tables" where
  "pair_step l g wt =
     (let (w, t) = wt;
          t = t\<lparr>t_prob := (t_prob t)[l := w_scaled w ! l], t_alias := (t_alias t)[l := g]\<rparr>;
          w = w\<lparr>w_scaled := (w_scaled w)[g := w_scaled w ! g + w_scaled w ! l - 1],
                w_small := tl (w_small w), w_large := tl (w_large w)\<rparr>
      in (stack_on g w, t))"

definition stacked :: "work \<Rightarrow> nat" where
  "stacked w = length (w_small w) + length (w_large w)"

function pairing :: "work \<times> tables \<Rightarrow> work \<times> tables" where
  "pairing (w, t) =
     (if w_small w \<noteq> [] \<and> w_large w \<noteq> []
      then pairing (pair_step (hd (w_small w)) (hd (w_large w)) (w, t))
      else (w, t))"
  by pat_completeness auto

lemma stacked_pair_step:
  assumes "w_small w \<noteq> []" and "w_large w \<noteq> []"
  shows "stacked (fst (pair_step l g (w, t))) < stacked w"
  using assms by (cases "w_small w"; cases "w_large w") (auto simp: pair_step_def stack_on_def Let_def stacked_def)

termination pairing
proof (relation "measure (\<lambda>(w, t). stacked w)", goal_cases)
  case (2 w t)
  then show ?case using stacked_pair_step [of w _ _ t] by (auto split: prod.split) (metis fst_conv)
qed simp

declare pairing.simps [simp del]

text \<open>What is left on either stack is drawn for itself alone.\<close>

definition fill_up :: "work \<times> tables \<Rightarrow> tables" where
  "fill_up wt =
     (let (w, t) = wt in
      t\<lparr>t_prob := fold (\<lambda>i p. p[i := 1]) (w_large w @ w_small w) (t_prob t)\<rparr>)"

definition stack_all :: "nat list \<Rightarrow> rat list \<Rightarrow> work" where
  "stack_all order scaled = fold stack_on order \<lparr>w_small = [], w_large = [], w_scaled = scaled\<rparr>"

text \<open>One row of \<^verbatim>\<open>update_distribution\<close>.\<close>

definition update_row :: "rat list \<Rightarrow> tables" where
  "update_row probabilities =
     (let n = length probabilities in
      fill_up (pairing (stack_all [0..<n] (map (\<lambda>p. p * of_nat n) probabilities),
        \<lparr>t_prob = replicate n 0, t_alias = [0..<n]\<rparr>)))"

text \<open>
  The second half of \<^verbatim>\<open>create_alias_table\<close>: \<^verbatim>\<open>P\<close> is scaled already, the slots are
  stacked from the last to the first, and unused aliases are 0.
\<close>

definition alias_tables :: "rat list \<Rightarrow> tables" where
  "alias_tables P =
     (let n = length P in
      fill_up (pairing (stack_all (rev [0..<n]) P, \<lparr>t_prob = replicate n 0, t_alias = replicate n 0\<rparr>)))"

section \<open>What is drawn\<close>

text \<open>The weight with which \<open>k\<close> is drawn, out of \<open>n\<close>.\<close>

definition drawn :: "tables \<Rightarrow> nat \<Rightarrow> rat" where
  "drawn t k = t_prob t ! k +
     (\<Sum>i<length (t_prob t). if t_alias t ! i = k then 1 - t_prob t ! i else 0)"

text \<open>
  During pairing a slot is on one of the stacks or settled. \<open>received\<close> is what settled slots
  pass on; a slot's share of it and what is left of its probability always add up to the
  probability it started with.
\<close>

definition open_slots :: "work \<Rightarrow> nat set" where
  "open_slots w = set (w_small w) \<union> set (w_large w)"

definition received :: "nat \<Rightarrow> work \<Rightarrow> tables \<Rightarrow> nat \<Rightarrow> rat" where
  "received n w t k = (\<Sum>i | i < n \<and> i \<notin> open_slots w \<and> t_alias t ! i = k. 1 - t_prob t ! i)"

definition pairing_inv :: "rat list \<Rightarrow> work \<times> tables \<Rightarrow> bool" where
  "pairing_inv P wt \<longleftrightarrow> (let (w, t) = wt; n = length P in
     length (w_scaled w) = n \<and> length (t_prob t) = n \<and> length (t_alias t) = n \<and>
     distinct (w_small w @ w_large w) \<and> open_slots w \<subseteq> {..<n} \<and>
     (\<forall>i\<in>set (w_small w). 0 \<le> w_scaled w ! i \<and> w_scaled w ! i < 1) \<and>
     (\<forall>i\<in>set (w_large w). 1 \<le> w_scaled w ! i) \<and>
     (\<forall>i<n. t_alias t ! i < n) \<and>
     (\<forall>i<n. i \<notin> open_slots w \<longrightarrow> 0 \<le> t_prob t ! i \<and> t_prob t ! i < 1) \<and>
     (\<forall>k<n. (if k \<in> open_slots w then w_scaled w ! k else t_prob t ! k) + received n w t k = P ! k))"

lemma pairing_inv_step:
  assumes inv: "pairing_inv P (w, t)" and ne: "w_small w = l # sm" "w_large w = g # lg"
  shows "pairing_inv P (pair_step l g (w, t))"
proof -
  define n where "n = length P"
  define w' where "w' = fst (pair_step l g (w, t))"
  define t' where "t' = snd (pair_step l g (w, t))"
  have len: "length (w_scaled w) = n" "length (t_prob t) = n" "length (t_alias t) = n"
    and dist: "distinct (w_small w @ w_large w)" and sub: "open_slots w \<subseteq> {..<n}"
    and sm: "\<And>i. i \<in> set (w_small w) \<Longrightarrow> 0 \<le> w_scaled w ! i \<and> w_scaled w ! i < 1"
    and lg: "\<And>i. i \<in> set (w_large w) \<Longrightarrow> 1 \<le> w_scaled w ! i"
    and al: "\<And>i. i < n \<Longrightarrow> t_alias t ! i < n"
    and pr: "\<And>i. i < n \<Longrightarrow> i \<notin> open_slots w \<Longrightarrow> 0 \<le> t_prob t ! i \<and> t_prob t ! i < 1"
    and eq: "\<And>k. k < n \<Longrightarrow> (if k \<in> open_slots w then w_scaled w ! k else t_prob t ! k) + received n w t k = P ! k"
    using inv by (simp_all add: pairing_inv_def n_def Let_def)
  have lgn: "l < n" "g < n" "l \<noteq> g" "l \<notin> set sm" "g \<notin> set sm" "l \<notin> set lg" "g \<notin> set lg"
    using sub dist ne by (auto simp: open_slots_def)
  have t': "t_prob t' = (t_prob t)[l := w_scaled w ! l]" "t_alias t' = (t_alias t)[l := g]"
    by (simp_all add: t'_def pair_step_def Let_def)
  have sc: "w_scaled w' = (w_scaled w)[g := w_scaled w ! g + w_scaled w ! l - 1]"
    by (simp add: w'_def pair_step_def stack_on_def Let_def)
  have stacks: "(w_scaled w' ! g < 1 \<and> w_small w' = g # sm \<and> w_large w' = lg) \<or>
      (1 \<le> w_scaled w' ! g \<and> w_small w' = sm \<and> w_large w' = g # lg)"
    by (auto simp: w'_def pair_step_def stack_on_def Let_def ne)
  have op: "open_slots w' = open_slots w - {l}" "l \<in> open_slots w" "g \<in> open_slots w"
    using stacks lgn ne by (auto simp: open_slots_def)
  have sg: "w_scaled w' ! g = w_scaled w ! g + w_scaled w ! l - 1"
    using sc lgn len by simp
  have other: "w_scaled w' ! i = w_scaled w ! i" if "i \<noteq> g" for i using sc that by simp
  have pos: "0 \<le> w_scaled w' ! g" using sg sm [of l] lg [of g] ne by simp
  have rec: "received n w' t' k = received n w t k + (if k = g then 1 - w_scaled w ! l else 0)" if "k < n" for k
  proof -
    let ?A = "{i. i < n \<and> i \<notin> open_slots w \<and> t_alias t ! i = k}"
    let ?B = "{i. i < n \<and> i \<notin> open_slots w' \<and> t_alias t' ! i = k}"
    have B: "?B = (if k = g then insert l ?A else ?A)"
      using op lgn len by (auto simp: t' nth_list_update split: if_splits)
    have l: "l \<notin> ?A" using op by simp
    have same: "(\<Sum>i\<in>?A. 1 - t_prob t' ! i) = (\<Sum>i\<in>?A. 1 - t_prob t ! i)"
    proof (rule sum.cong)
      fix i
      assume "i \<in> ?A"
      then have "i \<noteq> l" using l by blast
      then show "1 - t_prob t' ! i = 1 - t_prob t ! i" by (simp add: t')
    qed simp
    have fin: "finite ?A" by simp
    have lp: "t_prob t' ! l = w_scaled w ! l" using lgn len by (simp add: t')
    show ?thesis
    proof (cases "k = g")
      case True
      have "(\<Sum>i\<in>?B. 1 - t_prob t' ! i) = (\<Sum>i\<in>insert l ?A. 1 - t_prob t' ! i)"
        by (simp only: B if_P [OF True])
      also have "\<dots> = (1 - w_scaled w ! l) + (\<Sum>i\<in>?A. 1 - t_prob t ! i)"
        by (simp only: sum.insert [OF fin l] same lp)
      finally show ?thesis unfolding received_def using True by simp
    next
      case False
      then have "?B = ?A" using B by simp
      then show ?thesis unfolding received_def using same False by simp
    qed
  qed
  have "(if k \<in> open_slots w' then w_scaled w' ! k else t_prob t' ! k) + received n w' t' k = P ! k"
    if k: "k < n" for k
  proof -
    consider "k = l" | "k = g" | "k \<noteq> l" "k \<noteq> g" by blast
    then show ?thesis
      using eq [OF k] rec [OF k] op sg other lgn len by cases (auto simp: t')
  qed
  moreover have "distinct (w_small w' @ w_large w')" using stacks dist ne lgn by auto
  moreover have "0 \<le> w_scaled w' ! i \<and> w_scaled w' ! i < 1" if "i \<in> set (w_small w')" for i
    using stacks that sm [of i] ne other [of i] pos lgn by (cases "i = g") auto
  moreover have "1 \<le> w_scaled w' ! i" if "i \<in> set (w_large w')" for i
    using stacks that lg [of i] ne other [of i] lgn by (cases "i = g") auto
  moreover have "0 \<le> t_prob t' ! i \<and> t_prob t' ! i < 1" if "i < n" "i \<notin> open_slots w'" for i
    using that op pr [of i] sm [of l] ne len by (cases "i = l") (auto simp: t')
  moreover have "t_alias t' ! i < n" if "i < n" for i using al [OF that] lgn len that by (simp add: t' nth_list_update)
  ultimately have "pairing_inv P (w', t')"
    unfolding pairing_inv_def Let_def n_def [symmetric] prod.case
    using len sc t' op sub by auto
  then show ?thesis by (simp add: w'_def t'_def)
qed

lemma pairing_inv_pairing:
  "pairing_inv P wt \<Longrightarrow> pairing_inv P (pairing wt) \<and> (w_small (fst (pairing wt)) = [] \<or> w_large (fst (pairing wt)) = [])"
proof (induction wt rule: pairing.induct)
  case (1 w t)
  show ?case
  proof (cases "w_small w \<noteq> [] \<and> w_large w \<noteq> []")
    case True
    then obtain l sm g lg where ne: "w_small w = l # sm" "w_large w = g # lg"
      by (auto simp: neq_Nil_conv)
    have "pairing_inv P (pair_step l g (w, t))" by (rule pairing_inv_step [OF 1(2) ne])
    then show ?thesis using 1(1) [OF True] by (subst (1 2 3) pairing.simps) (simp add: ne)
  next
    case False
    then show ?thesis using 1(2) by (subst (1 2 3) pairing.simps) auto
  qed
qed


lemma fold_stack_on:
  assumes "distinct order" and "set order \<inter> open_slots w = {}" and "distinct (w_small w @ w_large w)"
  shows "w_scaled (fold stack_on order w) = w_scaled w \<and>
    set (w_small (fold stack_on order w)) = set (w_small w) \<union> {i \<in> set order. w_scaled w ! i < 1} \<and>
    set (w_large (fold stack_on order w)) = set (w_large w) \<union> {i \<in> set order. \<not> w_scaled w ! i < 1} \<and>
    distinct (w_small (fold stack_on order w) @ w_large (fold stack_on order w))"
  using assms
proof (induction order arbitrary: w)
  case (Cons i xs)
  define w' where "w' = stack_on i w"
  have w': "w_scaled w' = w_scaled w" "open_slots w' = insert i (open_slots w)"
    "distinct (w_small w' @ w_large w')"
    "set (w_small w') = (if w_scaled w ! i < 1 then insert i (set (w_small w)) else set (w_small w))"
    "set (w_large w') = (if w_scaled w ! i < 1 then set (w_large w) else insert i (set (w_large w)))"
    using Cons.prems by (auto simp: w'_def stack_on_def open_slots_def)
  have "distinct xs" "set xs \<inter> open_slots w' = {}" using Cons.prems w' by auto
  then show ?case
    using Cons.IH [OF _ _ w'(3)] w' by (auto simp: w'_def [symmetric] simp del: distinct_append)
qed simp

lemma pairing_inv_start:
  assumes "distinct order" and "set order = {..<length P}" and "\<forall>p\<in>set P. 0 \<le> p"
    and "length al = length P" and "\<forall>i<length P. al ! i < length P"
  shows "pairing_inv P (stack_all order P, \<lparr>t_prob = replicate (length P) 0, t_alias = al\<rparr>)"
proof -
  let ?w0 = "\<lparr>w_small = [], w_large = [], w_scaled = P\<rparr>"
  have "set order \<inter> open_slots ?w0 = {}" "distinct (w_small ?w0 @ w_large ?w0)" by (simp_all add: open_slots_def)
  note f = fold_stack_on [OF assms(1) this, folded stack_all_def, THEN conjunct1]
    fold_stack_on [OF assms(1) this, folded stack_all_def, THEN conjunct2, THEN conjunct1]
    fold_stack_on [OF assms(1) this, folded stack_all_def, THEN conjunct2, THEN conjunct2, THEN conjunct1]
    fold_stack_on [OF assms(1) this, folded stack_all_def, THEN conjunct2, THEN conjunct2, THEN conjunct2]
  have op: "open_slots (stack_all order P) = {..<length P}"
    using f(2,3) assms(2) by (auto simp: open_slots_def)
  have "received (length P) (stack_all order P) t k = 0" for t k
    unfolding received_def op by (rule sum.neutral) auto
  then show ?thesis
    using f assms op by (auto simp: pairing_inv_def Let_def not_less)
qed

text \<open>
  Nobody is drawn less often than asked for; when the probabilities add up to one (scaled: to
  \<open>n\<close>), everybody is drawn exactly as often.
\<close>

lemma fold_update_1:
  "j < length p \<Longrightarrow> fold (\<lambda>i p. p[i := 1 :: rat]) xs p ! j = (if j \<in> set xs then 1 else p ! j)"
  by (induction xs arbitrary: p) (auto simp: nth_list_update)

lemma length_fold_update [simp]: "length (fold (\<lambda>i p. p[i := v]) xs p) = length p"
  by (induction xs arbitrary: p) auto

lemma sum_received:
  assumes "\<forall>i<n. t_alias t ! i < n"
  shows "(\<Sum>k<n. received n w t k) = (\<Sum>i | i < n \<and> i \<notin> open_slots w. 1 - t_prob t ! i)"
proof -
  let ?S = "{i. i < n \<and> i \<notin> open_slots w}"
  have "(\<Sum>k<n. received n w t k) = (\<Sum>k<n. \<Sum>i\<in>?S. if t_alias t ! i = k then 1 - t_prob t ! i else 0)"
    unfolding received_def by (intro sum.cong sum.mono_neutral_cong_left refl) auto
  also have "\<dots> = (\<Sum>i\<in>?S. \<Sum>k<n. if t_alias t ! i = k then 1 - t_prob t ! i else 0)"
    by (rule sum.swap)
  also have "\<dots> = (\<Sum>i\<in>?S. 1 - t_prob t ! i)"
    by (rule sum.cong) (use assms in auto)
  finally show ?thesis .
qed

lemma filled_drawn:
  assumes inv: "pairing_inv P (w, t)" and done_: "w_small w = [] \<or> w_large w = []"
    and total: "sum_list P \<le> of_nat (length P)"
  defines "T \<equiv> fill_up (w, t)"
  shows "length (t_prob T) = length P \<and> length (t_alias T) = length P \<and>
    (\<forall>i<length P. t_alias T ! i < length P \<and> 0 \<le> t_prob T ! i \<and> t_prob T ! i \<le> 1) \<and>
    (\<forall>k<length P. P ! k \<le> drawn T k) \<and> (\<Sum>k<length P. drawn T k) = of_nat (length P)"
proof -
  define n where "n = length P"
  define left where "left k = (if k \<in> open_slots w then w_scaled w ! k else t_prob t ! k)" for k
  have len: "length (w_scaled w) = n" "length (t_prob t) = n" "length (t_alias t) = n"
    and sub: "open_slots w \<subseteq> {..<n}"
    and lg: "\<And>i. i \<in> set (w_large w) \<Longrightarrow> 1 \<le> w_scaled w ! i"
    and sm: "\<And>i. i \<in> set (w_small w) \<Longrightarrow> w_scaled w ! i < 1"
    and al: "\<And>i. i < n \<Longrightarrow> t_alias t ! i < n"
    and pr: "\<And>i. i < n \<Longrightarrow> i \<notin> open_slots w \<Longrightarrow> 0 \<le> t_prob t ! i \<and> t_prob t ! i < 1"
    and eq: "\<And>k. k < n \<Longrightarrow> left k + received n w t k = P ! k"
    using inv by (simp_all add: pairing_inv_def n_def left_def Let_def)
  have T: "t_prob T ! i = (if i \<in> open_slots w then 1 else t_prob t ! i)" "t_alias T = t_alias t" if "i < n" for i
    using that len by (auto simp: T_def fill_up_def fold_update_1 open_slots_def)
  have lenT: "length (t_prob T) = n" "length (t_alias T) = n" "t_alias T = t_alias t"
    using len by (simp_all add: T_def fill_up_def)
  have recT: "drawn T k = t_prob T ! k + received n w t k" for k
  proof -
    have "(\<Sum>i<n. if t_alias T ! i = k then 1 - t_prob T ! i else 0) = received n w t k"
      unfolding received_def
      by (rule sum.mono_neutral_cong_right) (auto simp: T)
    then show ?thesis by (simp add: drawn_def lenT)
  qed
  have split: "(\<Sum>i<n. f i) = (\<Sum>i\<in>open_slots w. f i) + (\<Sum>i | i < n \<and> i \<notin> open_slots w. f i)" for f :: "nat \<Rightarrow> rat"
  proof -
    have "{..<n} = open_slots w \<union> {i. i < n \<and> i \<notin> open_slots w}" using sub by auto
    then show ?thesis by (metis (no_types, lifting) sum.union_disjoint disjoint_iff mem_Collect_eq
        finite_Un finite_lessThan)
  qed
  have settled: "(\<Sum>i | i < n \<and> i \<notin> open_slots w. 1 - t_prob t ! i) =
      of_nat (card {i. i < n \<and> i \<notin> open_slots w}) - (\<Sum>i | i < n \<and> i \<notin> open_slots w. t_prob t ! i)"
    by (simp add: sum_subtractf)
  have "sum_list P = (\<Sum>k<n. P ! k)" by (simp add: sum_list_sum_nth n_def atLeast0LessThan)
  also have "\<dots> = (\<Sum>k<n. left k) + (\<Sum>k<n. received n w t k)"
    by (simp add: sum.distrib [symmetric] eq)
  also have "(\<Sum>k<n. left k) = (\<Sum>i\<in>open_slots w. w_scaled w ! i) + (\<Sum>i | i < n \<and> i \<notin> open_slots w. t_prob t ! i)"
    by (subst split) (simp add: left_def)
  finally have P: "sum_list P = (\<Sum>i\<in>open_slots w. w_scaled w ! i) + of_nat (card {i. i < n \<and> i \<notin> open_slots w})"
    using sum_received [of n t w] al settled by simp
  have card: "n = card (open_slots w) + card {i. i < n \<and> i \<notin> open_slots w}"
  proof -
    have "{..<n} = open_slots w \<union> {i. i < n \<and> i \<notin> open_slots w}" using sub by auto
    then have "card {..<n} = card (open_slots w \<union> {i. i < n \<and> i \<notin> open_slots w})" by simp
    also have "\<dots> = card (open_slots w) + card {i. i < n \<and> i \<notin> open_slots w}"
      by (rule card_Un_disjoint) (auto simp: open_slots_def)
    finally show ?thesis by simp
  qed
  have small: "w_scaled w ! k \<le> 1" if k: "k \<in> open_slots w" for k
  proof (cases "w_large w = []")
    case True
    then show ?thesis using sm [of k] k by (simp add: open_slots_def)
  next
    case False
    then have all: "\<And>i. i \<in> open_slots w \<Longrightarrow> 1 \<le> w_scaled w ! i" using done_ lg by (auto simp: open_slots_def)
    have "(\<Sum>i\<in>open_slots w. w_scaled w ! i) \<le> of_nat (card (open_slots w))"
    proof -
      have "of_nat n = (of_nat (card (open_slots w)) + of_nat (card {i. i < n \<and> i \<notin> open_slots w}) :: rat)"
        by (subst card) simp
      then show ?thesis using total P by (simp add: n_def)
    qed
    then have "(\<Sum>i\<in>open_slots w. w_scaled w ! i - 1) \<le> 0" by (simp add: sum_subtractf)
    moreover have "w_scaled w ! k - 1 \<le> (\<Sum>i\<in>open_slots w. w_scaled w ! i - 1)"
      by (rule member_le_sum [OF k]) (use all in \<open>auto simp: open_slots_def\<close>)
    ultimately show ?thesis by simp
  qed
  have "P ! k \<le> drawn T k" if "k < n" for k
    using eq [OF that] small [of k] T(1) [OF that] by (simp add: recT left_def split: if_splits)
  moreover have "(\<Sum>k<n. drawn T k) = of_nat n"
  proof -
    have "(\<Sum>k<n. drawn T k) = (\<Sum>k<n. t_prob T ! k) + (\<Sum>k<n. received n w t k)"
      by (simp add: recT sum.distrib)
    also have "(\<Sum>k<n. t_prob T ! k) = (\<Sum>i\<in>open_slots w. 1) + (\<Sum>i | i < n \<and> i \<notin> open_slots w. t_prob t ! i)"
    proof (subst split)
      have "(\<Sum>i\<in>open_slots w. t_prob T ! i) = (\<Sum>i\<in>open_slots w. 1)"
        by (rule sum.cong) (use T sub in auto)
      moreover have "(\<Sum>i | i < n \<and> i \<notin> open_slots w. t_prob T ! i) = (\<Sum>i | i < n \<and> i \<notin> open_slots w. t_prob t ! i)"
        by (rule sum.cong) (use T in auto)
      ultimately show "(\<Sum>i\<in>open_slots w. t_prob T ! i) + (\<Sum>i | i < n \<and> i \<notin> open_slots w. t_prob T ! i) =
        (\<Sum>i\<in>open_slots w. 1) + (\<Sum>i | i < n \<and> i \<notin> open_slots w. t_prob t ! i)" by simp
    qed
    finally show ?thesis using sum_received [of n t w] al settled
      by (subst card) simp
  qed
  moreover have "t_alias T ! i < n \<and> 0 \<le> t_prob T ! i \<and> t_prob T ! i \<le> 1" if "i < n" for i
    using al [OF that] pr [OF that] T(1) [OF that] lenT by (auto simp: less_imp_le)
  ultimately show ?thesis using lenT by (simp add: n_def)
qed


text \<open>
  What a built table is worth: every slot and alias exists, nobody is drawn less often than
  asked for, and the weights add up to the number of slots. When the scaled probabilities add
  up to exactly that, everybody is drawn exactly as often as asked for.
\<close>

definition table_for :: "rat list \<Rightarrow> tables \<Rightarrow> bool" where
  "table_for P t \<longleftrightarrow> length (t_prob t) = length P \<and> length (t_alias t) = length P \<and>
    (\<forall>i<length P. t_alias t ! i < length P \<and> 0 \<le> t_prob t ! i \<and> t_prob t ! i \<le> 1) \<and>
    (\<forall>k<length P. P ! k \<le> drawn t k) \<and>
    (sum_list P = of_nat (length P) \<longrightarrow> (\<forall>k<length P. drawn t k = P ! k))"

lemma table_for_built:
  assumes "distinct order" and "set order = {..<length P}" and "\<forall>p\<in>set P. 0 \<le> p"
    and "length al = length P" and "\<forall>i<length P. al ! i < length P"
    and total: "sum_list P \<le> of_nat (length P)"
  shows "table_for P (fill_up (pairing (stack_all order P, \<lparr>t_prob = replicate (length P) 0, t_alias = al\<rparr>)))"
proof -
  obtain w t where wt: "pairing (stack_all order P, \<lparr>t_prob = replicate (length P) 0, t_alias = al\<rparr>) = (w, t)"
    by (meson surj_pair)
  note built = pairing_inv_pairing [OF pairing_inv_start [OF assms(1-5)], unfolded wt fst_conv]
  define T where "T = fill_up (w, t)"
  note T = filled_drawn [OF built [THEN conjunct1] built [THEN conjunct2] total, folded T_def]
  have "drawn T k = P ! k" if "sum_list P = of_nat (length P)" and k: "k < length P" for k
  proof -
    have "(\<Sum>i<length P. drawn T i - P ! i) = 0"
      using T \<open>sum_list P = _\<close> by (simp add: sum_subtractf sum_list_sum_nth atLeast0LessThan)
    then have "\<forall>i\<in>{..<length P}. drawn T i - P ! i = 0"
      using T by (subst (asm) sum_nonneg_eq_0_iff) auto
    then show ?thesis using k by simp
  qed
  then show ?thesis using T by (simp add: table_for_def wt T_def [symmetric])
qed

lemma table_for_alias_tables:
  assumes "\<forall>p\<in>set P. 0 \<le> p" and "sum_list P \<le> of_nat (length P)"
  shows "table_for P (alias_tables P)"
  unfolding alias_tables_def Let_def
  by (rule table_for_built) (use assms in auto)

lemma table_for_update_row:
  assumes "\<forall>p\<in>set P. 0 \<le> p" and "sum_list P \<le> 1"
  shows "table_for (map (\<lambda>p. p * of_nat (length P)) P) (update_row P)"
proof -
  have "sum_list (map (\<lambda>p. p * of_nat (length P)) P) = sum_list P * of_nat (length P)"
    using sum_list_mult_const [of "\<lambda>p. p" "of_nat (length P)" P] by simp
  also have "\<dots> \<le> of_nat (length P)" using assms(2) by (simp add: mult_left_le_one_le sum_list_nonneg assms(1))
  finally show ?thesis
    unfolding update_row_def Let_def
    using table_for_built [of "[0..<length P]" "map (\<lambda>p. p * of_nat (length P)) P" "[0..<length P]"] assms(1)
    by (auto simp: atLeast0LessThan)
qed

text \<open>Only a total that is too large loses anything: with it, the last large slots are cut to one.\<close>

lemma drawn_overweight:
  "let P = [3, 0 :: rat] in (drawn (alias_tables P) 0, drawn (alias_tables P) 1) = (2, 0)"
  by code_simp

end
