(* ===== verification/Havoc.thy ===== *)
theory Havoc
  imports Mutators Alias
begin

text \<open>
  The havoc stage of \<^verbatim>\<open>fuzz_one_original\<close> (\<^verbatim>\<open>src/afl-fuzz-one.c\<close>): how many
  mutators are stacked, which ones, what is learnt from the finds, and splicing. This is the
  part MuoFuzz adds to its ancestor: while training, pairs of mutators are drawn uniformly and
  their finds counted; afterwards each mutator is drawn from the distribution its predecessor's
  row of the transition matrix gives (\<open>Alias\<close>), and the number of stacked mutators by an
  epsilon-greedy choice.
\<close>

section \<open>Numbers of mutators\<close>

text \<open>The enumeration's constants, in order.\<close>

definition mutator_enum :: "mutator list" where
  "mutator_enum = [
    MUT_FLIPBIT, MUT_INTERESTING8, MUT_INTERESTING16, MUT_INTERESTING16BE, MUT_INTERESTING32,
    MUT_INTERESTING32BE, MUT_ARITH8_SUB, MUT_ARITH8, MUT_ARITH16_SUB, MUT_ARITH16BE_SUB, MUT_ARITH16,
    MUT_ARITH16BE, MUT_ARITH32_SUB, MUT_ARITH32BE_SUB, MUT_ARITH32, MUT_ARITH32BE, MUT_RAND8,
    MUT_CLONE_COPY, MUT_CLONE_FIXED, MUT_OVERWRITE_COPY, MUT_OVERWRITE_FIXED, MUT_BYTEADD, MUT_BYTESUB,
    MUT_FLIP8, MUT_SWITCH, MUT_DEL, MUT_SHUFFLE, MUT_DELONE, MUT_INSERTONE, MUT_ASCIINUM,
    MUT_INSERTASCIINUM, MUT_EXTRA_OVERWRITE, MUT_EXTRA_INSERT, MUT_AUTO_EXTRA_OVERWRITE,
    MUT_AUTO_EXTRA_INSERT, MUT_SPLICE_OVERWRITE, MUT_SPLICE_INSERT]"

definition mut_num :: "mutator \<Rightarrow> nat" where
  "mut_num m = length (takeWhile (\<lambda>x. x \<noteq> m) mutator_enum)"

text \<open>The arrays of \<^verbatim>\<open>include/afl-mutations.h\<close>, as runs of equal elements.\<close>

definition runs :: "(mutator \<times> nat) list \<Rightarrow> nat list" where
  "runs rs = concat (map (\<lambda>(m, n). replicate n (mut_num m)) rs)"

definition text_array :: "nat list" where
  "text_array = runs [
    (MUT_FLIPBIT, 8), (MUT_INTERESTING8, 4), (MUT_INTERESTING16, 2), (MUT_INTERESTING16BE, 2),
    (MUT_INTERESTING32, 2), (MUT_INTERESTING32BE, 2), (MUT_ARITH8_SUB, 6), (MUT_ARITH8, 6),
    (MUT_ARITH16_SUB, 5), (MUT_ARITH16BE_SUB, 5), (MUT_ARITH16, 5), (MUT_ARITH16BE, 5),
    (MUT_ARITH32_SUB, 5), (MUT_ARITH32BE_SUB, 5), (MUT_ARITH32, 5), (MUT_ARITH32BE, 5), (MUT_RAND8, 8),
    (MUT_CLONE_COPY, 16), (MUT_CLONE_FIXED, 8), (MUT_OVERWRITE_COPY, 10), (MUT_OVERWRITE_FIXED, 5),
    (MUT_BYTEADD, 5), (MUT_BYTESUB, 5), (MUT_FLIP8, 4), (MUT_SWITCH, 7), (MUT_DEL, 10),
    (MUT_EXTRA_OVERWRITE, 7), (MUT_EXTRA_INSERT, 9), (MUT_AUTO_EXTRA_OVERWRITE, 4),
    (MUT_AUTO_EXTRA_INSERT, 5), (MUT_SPLICE_OVERWRITE, 12), (MUT_SPLICE_INSERT, 13)]"

definition binary_array :: "nat list" where
  "binary_array = runs [
    (MUT_FLIPBIT, 11), (MUT_INTERESTING8, 9), (MUT_INTERESTING16, 6), (MUT_INTERESTING16BE, 6),
    (MUT_INTERESTING32, 6), (MUT_INTERESTING32BE, 6), (MUT_ARITH8_SUB, 9), (MUT_ARITH8, 10),
    (MUT_ARITH16_SUB, 6), (MUT_ARITH16BE_SUB, 6), (MUT_ARITH16, 6), (MUT_ARITH16BE, 6),
    (MUT_ARITH32_SUB, 6), (MUT_ARITH32BE_SUB, 6), (MUT_ARITH32, 6), (MUT_ARITH32BE, 6), (MUT_RAND8, 9),
    (MUT_CLONE_COPY, 14), (MUT_CLONE_FIXED, 7), (MUT_OVERWRITE_COPY, 10), (MUT_OVERWRITE_FIXED, 5),
    (MUT_BYTEADD, 6), (MUT_BYTESUB, 6), (MUT_FLIP8, 4), (MUT_SWITCH, 6), (MUT_DEL, 9),
    (MUT_EXTRA_OVERWRITE, 10), (MUT_EXTRA_INSERT, 12), (MUT_AUTO_EXTRA_OVERWRITE, 9),
    (MUT_AUTO_EXTRA_INSERT, 11), (MUT_SPLICE_OVERWRITE, 13), (MUT_SPLICE_INSERT, 14)]"

definition mutation_strategy_exploration_binary :: "nat list" where
  "mutation_strategy_exploration_binary = runs [
    (MUT_FLIPBIT, 7), (MUT_INTERESTING8, 6), (MUT_INTERESTING16, 6), (MUT_INTERESTING16BE, 6),
    (MUT_INTERESTING32, 6), (MUT_INTERESTING32BE, 6), (MUT_ARITH8_SUB, 7), (MUT_ARITH8, 7),
    (MUT_ARITH16_SUB, 6), (MUT_ARITH16BE_SUB, 6), (MUT_ARITH16, 6), (MUT_ARITH16BE, 6),
    (MUT_ARITH32_SUB, 6), (MUT_ARITH32BE_SUB, 6), (MUT_ARITH32, 7), (MUT_ARITH32BE, 6), (MUT_RAND8, 6),
    (MUT_CLONE_COPY, 14), (MUT_CLONE_FIXED, 9), (MUT_OVERWRITE_COPY, 9), (MUT_OVERWRITE_FIXED, 7),
    (MUT_BYTEADD, 7), (MUT_BYTESUB, 7), (MUT_FLIP8, 10), (MUT_SWITCH, 7), (MUT_DEL, 6), (MUT_SHUFFLE, 6),
    (MUT_DELONE, 6), (MUT_INSERTONE, 6), (MUT_ASCIINUM, 6), (MUT_INSERTASCIINUM, 6),
    (MUT_EXTRA_OVERWRITE, 7), (MUT_EXTRA_INSERT, 7), (MUT_AUTO_EXTRA_OVERWRITE, 6),
    (MUT_AUTO_EXTRA_INSERT, 6), (MUT_SPLICE_OVERWRITE, 8), (MUT_SPLICE_INSERT, 10)]"

definition mutation_strategy_exploitation_binary :: "nat list" where
  "mutation_strategy_exploitation_binary = runs [
    (MUT_FLIPBIT, 7), (MUT_INTERESTING8, 7), (MUT_INTERESTING16, 7), (MUT_INTERESTING16BE, 7),
    (MUT_INTERESTING32, 8), (MUT_INTERESTING32BE, 8), (MUT_ARITH8_SUB, 6), (MUT_ARITH8, 7),
    (MUT_ARITH16_SUB, 6), (MUT_ARITH16BE_SUB, 7), (MUT_ARITH16, 7), (MUT_ARITH16BE, 7),
    (MUT_ARITH32_SUB, 6), (MUT_ARITH32BE_SUB, 7), (MUT_ARITH32, 7), (MUT_ARITH32BE, 7), (MUT_RAND8, 7),
    (MUT_CLONE_COPY, 9), (MUT_CLONE_FIXED, 8), (MUT_OVERWRITE_COPY, 6), (MUT_OVERWRITE_FIXED, 6),
    (MUT_BYTEADD, 7), (MUT_BYTESUB, 6), (MUT_FLIP8, 10), (MUT_SWITCH, 7), (MUT_DEL, 6), (MUT_SHUFFLE, 6),
    (MUT_DELONE, 5), (MUT_INSERTONE, 6), (MUT_ASCIINUM, 5), (MUT_INSERTASCIINUM, 7),
    (MUT_EXTRA_OVERWRITE, 7), (MUT_EXTRA_INSERT, 7), (MUT_AUTO_EXTRA_OVERWRITE, 7),
    (MUT_AUTO_EXTRA_INSERT, 7), (MUT_SPLICE_OVERWRITE, 7), (MUT_SPLICE_INSERT, 9)]"

text \<open>The \<^verbatim>\<open>switch (afl->input_mode)\<close> that picks one.\<close>

definition mutation_array :: "'a afl_state_scheme \<Rightarrow> nat list" where
  "mutation_array s =
     (if input_mode s = 2
      then if \<not> fuzz_mode s then mutation_strategy_exploration_binary else mutation_strategy_exploitation_binary
      else if \<not> fuzz_mode s then binary_array else text_array)"

section \<open>Choosing\<close>

definition mut_max :: nat where "mut_max = 32"
definition RAND_MAX :: nat where "RAND_MAX = 2147483647"

definition rand_c :: "world \<Rightarrow> afl \<Rightarrow> nat \<times> afl" where
  "rand_c w s = (libc_rand w (libc_draws s), s\<lparr>libc_draws := Suc (libc_draws s)\<rparr>)"

text \<open>\<^term>\<open>None\<close> is a read outside one of the two tables.\<close>

definition sample_from_distribution :: "world \<Rightarrow> nat \<Rightarrow> afl \<Rightarrow> nat option \<times> afl" where
  "sample_from_distribution w row s =
     (let (a, s) = rand_c w s;
          i = a mod mut_max;
          (b, s) = rand_c w s
      in if row < length (prob_table_mut s) \<and> i < length (prob_table_mut s ! row)
         then if (of_nat b / of_nat RAND_MAX :: rat) < prob_table_mut s ! row ! i then (Some i, s)
           else if row < length (alias_table_mut s) \<and> i < length (alias_table_mut s ! row)
             then (Some (unat (alias_table_mut s ! row ! i)), s)
             else (None, s)
         else (None, s))"

definition num_of_available_stacks :: "afl \<Rightarrow> u32" where
  "num_of_available_stacks s = push_bit (havoc_stack_pow2 s) 1"

definition select_stack :: "world \<Rightarrow> afl \<Rightarrow> u32 \<times> afl" where
  "select_stack w s =
     (let (a, s) = rand_c w s
      in if (of_nat a / of_nat RAND_MAX :: rat) < stack_epsilon s
         then (let (b, s) = rand_c w s in (of_nat b mod (num_of_available_stacks s - 2) + 2, s))
         else (stack_with_most_finds s, s))"

text \<open>
  The mutator's number \<open>r\<close>, from 0 to 31: a uniform draw while training; else for the first
  of a stack an element of the array, moved down over the five mutators that are left out; else
  a draw from the predecessor's distribution.
\<close>

definition pick_mutator :: "world \<Rightarrow> nat list \<Rightarrow> nat option \<Rightarrow> afl \<Rightarrow> (nat option \<times> afl) option" where
  "pick_mutator w arr prev_mutator s =
     (if in_training s then map_option (\<lambda>(r, s). (Some (unat r), s)) (rand_below w (of_nat mut_max) s)
      else case prev_mutator of
        None \<Rightarrow> map_option (\<lambda>(r, s).
          (if unat r < length arr
           then let r = arr ! unat r in Some (if r \<ge> mut_num MUT_EXTRA_OVERWRITE then r - 5 else r)
           else None, s)) (rand_below w (of_nat (length arr)) s)
      | Some p \<Rightarrow> Some (sample_from_distribution w p s))"

text \<open>\<^verbatim>\<open>r_original\<close>, the case of the \<^verbatim>\<open>switch\<close> that is run.\<close>

definition original :: "nat \<Rightarrow> nat" where
  "original r = (if r \<ge> mut_num MUT_SHUFFLE then r + 5 else r)"

section \<open>A stack of mutations\<close>

text \<open>\<^verbatim>\<open>retry_havoc_step\<close>: a mutator that does not apply is replaced by another draw.\<close>

partial_function (option) havoc_step ::
    "world \<Rightarrow> nat list \<Rightarrow> nat option \<Rightarrow> buf \<Rightarrow> afl \<Rightarrow> ((buf \<times> nat) option \<times> afl) option" where
  "havoc_step w arr prev_mutator b s =
     Option.bind (pick_mutator w arr prev_mutator s) (\<lambda>(choice, s).
       case choice of None \<Rightarrow> Some (None, s)
       | Some r \<Rightarrow>
           if original r < length mutator_enum
           then Option.bind (mutate w (mutator_enum ! original r) b s) (\<lambda>(result, s).
             case result of Retry_step \<Rightarrow> havoc_step w arr prev_mutator b s
             | Overrun \<Rightarrow> Some (None, s)
             | Mutated b' \<Rightarrow> Some (Some (b', r), s))
           else Some (Some (b, r), s))"

text \<open>
  \<^verbatim>\<open>for (i = 0; i < use_stacking; ++i)\<close>. \<open>sel\<close> is the part of
  \<^verbatim>\<open>selected_mutators\<close> written so far, of \<open>cap\<close> elements.
\<close>

fun havoc_stack ::
    "world \<Rightarrow> nat list \<Rightarrow> nat \<Rightarrow> nat \<Rightarrow> nat option \<Rightarrow> nat list \<Rightarrow> buf \<Rightarrow> afl \<Rightarrow> ((buf \<times> nat list) option \<times> afl) option" where
  "havoc_stack w arr cap 0 prev_mutator sel b s = Some (Some (b, sel), s)"
| "havoc_stack w arr cap (Suc n) prev_mutator sel b s =
     Option.bind (havoc_step w arr prev_mutator b s) (\<lambda>(result, s).
       case result of None \<Rightarrow> Some (None, s)
       | Some (b', r) \<Rightarrow>
           if length sel < cap then havoc_stack w arr cap n (Some r) (sel @ [r]) b' s
           else Some (None, s))"

definition mutate_stack :: "world \<Rightarrow> nat list \<Rightarrow> nat \<Rightarrow> fstate cmd" where
  "mutate_stack w arr cap st =
     (let (s, l) = st in
      map_option (\<lambda>(result, s). case result of None \<Rightarrow> (Invalid_access, s, l)
          | Some (b, sel) \<Rightarrow> (Next, s, l\<lparr>out_buf := b, selected_mutators := sel\<rparr>))
        (havoc_stack w arr cap (unat (use_stacking l)) None [] (out_buf l) s))"

section \<open>Learning from finds\<close>

text \<open>The finds of every pair of neighbours in the stack; \<^term>\<open>None\<close> is a write outside the matrix.\<close>

fun note_bigrams :: "nat list \<Rightarrow> u32 list list \<Rightarrow> u32 list list option" where
  "note_bigrams (p # r # rs) t =
     (if p < length t \<and> r < length (t ! p)
      then note_bigrams (r # rs) (t[p := (t ! p)[r := t ! p ! r + 1]]) else None)"
| "note_bigrams rs t = Some t"

text \<open>\<^verbatim>\<open>if (finds_per_stack[istack] >= finds_per_stack[stack_with_most_finds])\<close>\<close>

definition better_stack :: "u32 list \<Rightarrow> nat \<Rightarrow> u32 \<Rightarrow> u32" where
  "better_stack finds i best = (if finds ! i \<ge> finds ! unat best then of_nat i else best)"

definition note_stack :: "nat \<Rightarrow> afl \<Rightarrow> afl option" where
  "note_stack n s =
     (let finds = (finds_per_stack s)[n := finds_per_stack s ! n + 1];
          num = unat (num_of_available_stacks s)
      in if n < length finds \<and> num \<le> length finds \<and> unat (stack_with_most_finds s) < length finds
         then Some (s\<lparr>finds_per_stack := finds,
           stack_with_most_finds := fold (better_stack finds) [2..<num] (stack_with_most_finds s)\<rparr>)
         else None)"

definition learn :: "fstate cmd" where
  "learn st =
     (let (s, l) = st in
      if in_training s
      then case note_bigrams (selected_mutators l) (finds_per_mutator s) of
          None \<Rightarrow> Some (Invalid_access, s, l)
        | Some t \<Rightarrow> Some (Next, s\<lparr>finds_per_mutator := t\<rparr>, l)
      else case note_stack (unat (use_stacking l)) s of
          None \<Rightarrow> Some (Invalid_access, s, l)
        | Some s \<Rightarrow> Some (Next, s, l))"

section \<open>The stage\<close>

definition HAVOC_CYCLES :: u32 where "HAVOC_CYCLES = 256"
definition HAVOC_CYCLES_INIT :: u32 where "HAVOC_CYCLES_INIT = 1024"
definition HAVOC_MIN :: u32 where "HAVOC_MIN = 12"
definition SPLICE_CYCLES :: u32 where "SPLICE_CYCLES = 15"
definition SPLICE_HAVOC :: u32 where "SPLICE_HAVOC = 32"

text \<open>Finding something doubles the rounds, as long as the score allows.\<close>

definition run_longer :: "fstate cmd" where
  "run_longer = cond (\<lambda>(s, l). l_perf_score l \<le> havoc_max_mult s * 100)
     (upd (\<lambda>(s, l). (s\<lparr>stage_max := stage_max s * 2\<rparr>, l\<lparr>l_perf_score := l_perf_score l * 2\<rparr>))) skip"

definition found_something :: "fstate \<Rightarrow> bool" where
  "found_something st \<longleftrightarrow> ucast (queued_items (fst st)) \<noteq> havoc_queued (snd st)"

definition havoc_round :: "world \<Rightarrow> runner \<Rightarrow> nat list \<Rightarrow> nat \<Rightarrow> fstate cmd" where
  "havoc_round w cfs arr cap = steps [
     cond (\<lambda>(s, l). \<not> in_training s)
       (upd (\<lambda>(s, l). let (n, s) = select_stack w s in (s, l\<lparr>use_stacking := n\<rparr>))) skip,
     upd (\<lambda>(s, l). (s\<lparr>stage_cur_val := use_stacking l\<rparr>, l)),
     mutate_stack w arr cap,
     fuzz_with cfs out_buf (\<lambda>l. length (out_buf l)),
     on_loc (\<lambda>l. l\<lparr>out_buf := take (l_len l) (in_buf l)\<rparr>),
     cond found_something (steps [run_longer, learn,
       upd (\<lambda>(s, l). (s, l\<lparr>havoc_queued := ucast (queued_items s)\<rparr>))]) skip]"

definition havoc_begin :: "fstate cmd" where
  "havoc_begin = steps [
     on_afl (\<lambda>s. s\<lparr>stage_cur_byte := -1\<rparr>),
     cond (\<lambda>(s, l). splice_cycle l = 0)
       (upd (\<lambda>(s, l). (s\<lparr>stage_name := ''havoc'', stage_short := ''havoc'',
          stage_max := drop_bit 8 ((if doing_det l then HAVOC_CYCLES_INIT else HAVOC_CYCLES) * l_perf_score l
            div havoc_div s)\<rparr>, l)))
       (upd (\<lambda>(s, l).
         let l = l\<lparr>l_perf_score := orig_perf l\<rparr>
         in (s\<lparr>stage_name := ''splice '' @ map (\<lambda>b. char_of (unat b)) (decimal (unat (splice_cycle l))),
           stage_short := ''splice'',
           stage_max := drop_bit 8 (SPLICE_HAVOC * l_perf_score l div havoc_div s)\<rparr>, l))),
     on_afl (\<lambda>s. s\<lparr>stage_max := max (stage_max s) HAVOC_MIN\<rparr>),
     upd (\<lambda>(s, l). (s, l\<lparr>orig_hit_cnt := hits s, havoc_queued := ucast (queued_items s),
       use_stacking := if in_training s then 2 else use_stacking l\<rparr>))]"

text \<open>The \<^verbatim>\<open>malloc\<close> of \<^verbatim>\<open>selected_mutators\<close>.\<close>

definition selected_cap :: "afl \<Rightarrow> nat" where
  "selected_cap s = (if in_training s then 2 else unat (num_of_available_stacks s))"

definition havoc_stage :: "world \<Rightarrow> runner \<Rightarrow> fstate cmd" where
  "havoc_stage w cfs = steps [
     havoc_begin,
     reading (\<lambda>(s, l). (mutation_array s, selected_cap s)) (\<lambda>(arr, cap).
       for_stage_cur (havoc_round w cfs arr cap)),
     reading (\<lambda>(s, l). if splice_cycle l = 0 then STAGE_HAVOC else STAGE_SPLICE) end_stage]"

section \<open>Splicing\<close>

text \<open>
  One attempt from \<^verbatim>\<open>retry_splicing\<close>: leaves for the custom mutators (and from there
  for the havoc stage) with a spliced input, for another attempt, or normally when there is
  nothing to splice.
\<close>

definition may_splice :: "fstate \<Rightarrow> bool" where
  "may_splice st = (let (s, l) = st in
     splice_cycle l \<le> SPLICE_CYCLES \<and> ready_for_splicing_count s > 1 \<and> q_len (entry s (queue_cur s)) \<ge> 4)"

text \<open>
  The second \<^verbatim>\<open>memcpy\<close> reads the other input from its start, not from \<^verbatim>\<open>split_at\<close> on;
  both copies are checked.
\<close>

definition splice_inputs :: "buf \<Rightarrow> buf \<Rightarrow> nat \<Rightarrow> nat \<Rightarrow> buf option" where
  "splice_inputs in_b new_b split_at len =
     (if split_at \<le> length in_b \<and> split_at \<le> len \<and> len - split_at \<le> length new_b
      then Some (take split_at in_b @ take (len - split_at) new_b) else None)"

text \<open>From \<^verbatim>\<open>locate_diffs\<close> on, with the other entry's bytes at hand.\<close>

definition splice_onto :: "world \<Rightarrow> buf \<Rightarrow> nat \<Rightarrow> fstate cmd" where
  "splice_onto w new_buf len st =
     (let (s, l) = st;
          (f_diff, l_diff) = locate_diffs (in_buf l) new_buf (min (l_len l) len)
      in if f_diff < 0 \<or> l_diff < 2 \<or> f_diff = l_diff then Some (Retry_splicing, s, l)
         else Option.bind (rand_below w (of_int (l_diff - f_diff)) s) (\<lambda>(r, s).
           Some (case splice_inputs (in_buf l) new_buf (nat f_diff + unat r) len of
             None \<Rightarrow> (Invalid_access, s, l)
           | Some b \<Rightarrow> (Custom_mutator_stage, s, l\<lparr>in_buf := b, out_buf := b, l_len := len\<rparr>))))"

definition splice_attempt :: "world \<Rightarrow> fstate cmd" where
  "splice_attempt w st =
     (let (s, l) = st;
          l = l\<lparr>in_buf := orig_in l, l_len := unat (q_len (entry s (queue_cur s)))\<rparr>
      in Option.bind (splice_target w s) (\<lambda>(tid, s).
         let s = s\<lparr>splicing_with := int tid\<rparr>; len = unat (q_len (entry s tid)) in
         Option.bind (queue_testcase_get w tid s) (\<lambda>(new_buf, s). splice_onto w new_buf len (s, l))))"

definition retry_splicing :: "world \<Rightarrow> fstate cmd" where
  "retry_splicing w = loop_on Retry_splicing
     (cond (\<lambda>(s, l). use_splicing s)
       (steps [on_loc (\<lambda>l. l\<lparr>splice_cycle := splice_cycle l + 1\<rparr>), cond may_splice (splice_attempt w) skip])
       skip)"

text \<open>The end of \<^verbatim>\<open>fuzz_one_original\<close>: havoc, then splicing and havoc again while there is something to splice.\<close>

definition havoc_and_splice :: "world \<Rightarrow> runner \<Rightarrow> fstate cmd" where
  "havoc_and_splice w cfs = loop_on Custom_mutator_stage (steps [havoc_stage w cfs, retry_splicing w])"

section \<open>Which mutators are run\<close>

lemma mut_num_simps [simp]: "mut_num MUT_EXTRA_OVERWRITE = 31" "mut_num MUT_SHUFFLE = 26"
  by (simp_all add: mut_num_def mutator_enum_def)

lemma mut_num_less [simp]: "mut_num m < 37"
  by (cases m) (simp_all add: mut_num_def mutator_enum_def)

lemma length_mutator_enum [simp]: "length mutator_enum = 37"
  by (simp add: mutator_enum_def)

lemma mutator_enum_num [simp]: "mutator_enum ! mut_num m = m"
  by (cases m) (simp_all add: mut_num_def mutator_enum_def)

lemma in_runs: "r \<in> set (runs rs) \<Longrightarrow> r < 37"
  by (auto simp: runs_def)

lemma length_runs: "length (runs rs) = sum_list (map snd rs)"
  by (induction rs) (auto simp: runs_def)

definition array_ok :: "nat list \<Rightarrow> bool" where
  "array_ok arr \<longleftrightarrow> (\<forall>r\<in>set arr. r < 37) \<and> 0 < length arr \<and> length arr < 2 ^ 32"

lemma array_ok_runs: "0 < sum_list (map snd rs) \<Longrightarrow> sum_list (map snd rs) < 2 ^ 32 \<Longrightarrow> array_ok (runs rs)"
  using in_runs [of _ rs] by (auto simp: array_ok_def length_runs simp del: length_greater_0_conv)

lemma array_ok_mutation_array [simp]: "array_ok (mutation_array s)"
  by (simp add: mutation_array_def text_array_def binary_array_def mutation_strategy_exploration_binary_def
      mutation_strategy_exploitation_binary_def array_ok_runs)

lemma original_less: "r < 32 \<Longrightarrow> original r < 37"
  by (simp add: original_def)

lemma original_live: "r < 32 \<Longrightarrow> mutator_enum ! original r \<notin> {MUT_SHUFFLE, MUT_DELONE, MUT_INSERTONE, MUT_ASCIINUM, MUT_INSERTASCIINUM}"
proof -
  have "\<forall>r<32. mutator_enum ! original r \<notin> {MUT_SHUFFLE, MUT_DELONE, MUT_INSERTONE, MUT_ASCIINUM, MUT_INSERTASCIINUM}"
    by (simp add: original_def mutator_enum_def numeral_eq_Suc All_less_Suc)
  then show "r < 32 \<Longrightarrow> ?thesis" by blast
qed

text \<open>The tables after training: 32 rows of 32, with aliases that are mutators.\<close>

definition matrix_ok :: "'b list list \<Rightarrow> bool" where
  "matrix_ok t \<longleftrightarrow> length t = 32 \<and> (\<forall>row\<in>set t. length row = 32)"

definition bandit_ok :: "afl \<Rightarrow> bool" where
  "bandit_ok s \<longleftrightarrow>
     2 \<le> havoc_stack_pow2 s \<and> havoc_stack_pow2 s < 32 \<and> length (finds_per_stack s) = 2 ^ havoc_stack_pow2 s \<and>
     2 \<le> stack_with_most_finds s \<and> unat (stack_with_most_finds s) < 2 ^ havoc_stack_pow2 s \<and>
     matrix_ok (finds_per_mutator s) \<and>
     (\<not> in_training s \<longrightarrow> matrix_ok (prob_table_mut s) \<and> matrix_ok (alias_table_mut s) \<and>
        (\<forall>row\<in>set (alias_table_mut s). \<forall>a\<in>set row. unat a < 32))"

text \<open>What choosing and mutating leave alone.\<close>

definition havoc_frame :: "afl \<Rightarrow> afl \<Rightarrow> bool" where
  "havoc_frame s0 s \<longleftrightarrow> stage_frame s0 s \<and> delivered s = delivered s0 \<and> queued_items s = queued_items s0 \<and>
     ready_for_splicing_count s = ready_for_splicing_count s0 \<and> (\<exists>c. cache_frame (s0\<lparr>libc_draws := c\<rparr>) s)"

lemma havoc_frame_refl [simp, intro]: "havoc_frame s s"
  unfolding havoc_frame_def by (intro conjI exI [of _ "libc_draws s"]) simp_all

lemma cache_frame_draws:
  assumes "cache_frame s s'"
  shows "cache_frame (s\<lparr>libc_draws := c\<rparr>) (s'\<lparr>libc_draws := c\<rparr>)"
  using assms by (cases s; cases s') (simp add: cache_frame_def entries_ok_def)

lemma cache_frame_stage:
  fixes s s' :: afl
  assumes "cache_frame s s'"
  shows "stage_frame s s'" "delivered s' = delivered s" "queued_items s' = queued_items s"
    "ready_for_splicing_count s' = ready_for_splicing_count s" "libc_draws s' = libc_draws s"
    "extras s' = extras s" "a_extras s' = a_extras s" "queue_cur s' = queue_cur s"
  using assms by (cases s; cases s'; simp add: cache_frame_def stage_frame_def)+

lemma havoc_frame_cache:
  assumes "havoc_frame s0 s" and "cache_frame s s'"
  shows "havoc_frame s0 s'"
proof -
  obtain c where "cache_frame (s0\<lparr>libc_draws := c\<rparr>) s" using assms(1) by (auto simp: havoc_frame_def)
  then have "cache_frame (s0\<lparr>libc_draws := c\<rparr>) s'" using assms(2) by (rule cache_frame_trans)
  then show ?thesis
    using assms(1) cache_frame_stage [OF assms(2)] stage_frame_trans by (auto simp: havoc_frame_def)
qed

lemma havoc_frame_draws:
  assumes "havoc_frame s0 s"
  shows "havoc_frame s0 (s\<lparr>libc_draws := c\<rparr>)"
proof -
  obtain d where "cache_frame (s0\<lparr>libc_draws := d\<rparr>) s" using assms by (auto simp: havoc_frame_def)
  then have "cache_frame (s0\<lparr>libc_draws := c\<rparr>) (s\<lparr>libc_draws := c\<rparr>)"
    using cache_frame_draws [of "s0\<lparr>libc_draws := d\<rparr>" s c] by simp
  then show ?thesis using assms by (auto simp: havoc_frame_def stage_frame_def)
qed

lemma havoc_frame_rand_c: "havoc_frame s0 s \<Longrightarrow> havoc_frame s0 (snd (rand_c w s))"
  by (simp add: rand_c_def havoc_frame_draws)

lemma havoc_frame_rng: "havoc_frame s0 s \<Longrightarrow> rng_only s s' \<Longrightarrow> havoc_frame s0 s'"
  by (blast intro: havoc_frame_cache cache_frame_rng)

definition queue_ok :: "afl \<Rightarrow> bool" where
  "queue_ok s \<longleftrightarrow> sources_ok s \<and> sizes_ok s \<and> dicts_ok s"

lemma queue_ok_cache:
  assumes "cache_frame s s'" and "queue_ok s"
  shows "queue_ok s'"
proof -
  note same = cache_frame_stage [OF assms(1)] cache_frameD [OF assms(1)]
  have "0 < q_len (queue_buf s' ! i) \<and> unat (q_len (queue_buf s' ! i)) \<le> MAX_FILE" if "i < length (queue_buf s)" for i
  proof -
    have "queue_buf s ! i \<in> set (queue_buf s)" using that by simp
    then show ?thesis using same(11) [OF that] assms(2) by (simp add: queue_ok_def sizes_ok_def entry_def)
  qed
  then have "sizes_ok s'" using same(9) by (auto simp: sizes_ok_def in_set_conv_nth)
  moreover have "queue_buf s' \<noteq> []" using assms(2) same(9) by (auto simp: queue_ok_def sources_ok_def simp del: length_greater_0_conv)
  ultimately show ?thesis using assms(2) same by (simp add: queue_ok_def sources_ok_def dicts_ok_def dict_ok_def)
qed

lemma queue_ok_draws [simp]: "queue_ok (s\<lparr>libc_draws := c\<rparr>) = queue_ok s"
  by (simp add: queue_ok_def sources_ok_def sizes_ok_def entries_ok_def dicts_ok_def dict_ok_def)

lemma queue_ok_frame:
  assumes "havoc_frame s0 s" and "queue_ok s0"
  shows "queue_ok s"
  using assms queue_ok_cache by (auto simp: havoc_frame_def)

lemma bandit_ok_frame: "stage_frame s0 s \<Longrightarrow> bandit_ok s = bandit_ok s0"
  by (simp add: stage_frame_def bandit_ok_def)

lemma unat_num_of_available_stacks: "bandit_ok s \<Longrightarrow> unat (num_of_available_stacks s) = 2 ^ havoc_stack_pow2 s"
proof -
  assume b: "bandit_ok s"
  have "num_of_available_stacks s = of_nat (2 ^ havoc_stack_pow2 s)"
    by (simp add: num_of_available_stacks_def push_bit_eq_mult)
  moreover have "(2 :: nat) ^ havoc_stack_pow2 s < 2 ^ 32"
    by (rule power_strict_increasing) (use b in \<open>simp_all add: bandit_ok_def\<close>)
  ultimately show ?thesis using unat_of_nat_small [of "2 ^ havoc_stack_pow2 s", where 'a = 32] by simp
qed

lemma matrix_ok_row: "matrix_ok t \<Longrightarrow> i < 32 \<Longrightarrow> i < length t \<and> length (t ! i) = 32"
  by (simp add: matrix_ok_def)

lemma sample_from_distribution_result:
  assumes "sample_from_distribution w row s = (choice, s')"
    and "bandit_ok s" "\<not> in_training s" "row < 32" "havoc_frame s0 s"
  shows "havoc_frame s0 s' \<and> (\<exists>r. choice = Some r \<and> r < 32)"
proof -
  have m: "matrix_ok (prob_table_mut s)" "matrix_ok (alias_table_mut s)"
    "\<forall>row\<in>set (alias_table_mut s). \<forall>a\<in>set row. unat a < 32"
    using assms by (auto simp: bandit_ok_def)
  have i: "libc_rand w (libc_draws s) mod mut_max < 32" by (simp add: mut_max_def)
  have "unat (alias_table_mut s ! row ! (libc_rand w (libc_draws s) mod mut_max)) < 32"
    using m(3) matrix_ok_row [OF m(2) assms(4)] i by (metis nth_mem)
  then show ?thesis
    using assms(1,5) i matrix_ok_row [OF m(1) assms(4)] matrix_ok_row [OF m(2) assms(4)]
    by (auto simp: sample_from_distribution_def rand_c_def Let_def havoc_frame_draws split: if_splits)
qed

lemma pick_mutator_result:
  assumes pick: "pick_mutator w arr prev_mutator s = Some (choice, s')"
    and ok: "array_ok arr" "bandit_ok s" "\<And>p. prev_mutator = Some p \<Longrightarrow> p < 32" "havoc_frame s0 s"
  shows "havoc_frame s0 s' \<and> (\<exists>r. choice = Some r \<and> r < 32)"
proof (cases "in_training s")
  case True
  then obtain r where r: "rand_below w (of_nat mut_max) s = Some (r, s')" "choice = Some (unat r)"
    using pick by (auto simp: pick_mutator_def)
  have "r < 32" using rand_below_less [OF r(1)] by (simp add: mut_max_def)
  then show ?thesis using r havoc_frame_rng [OF ok(4)] rand_below_result [OF r(1)]
    by (auto simp: word_less_nat_alt)
next
  case False
  show ?thesis
  proof (cases prev_mutator)
    case (Some p)
    then show ?thesis using sample_from_distribution_result [OF _ ok(2) False ok(3) ok(4)] pick False
      by (simp add: pick_mutator_def)
  next
    case None
    then obtain r where r: "rand_below w (of_nat (length arr)) s = Some (r, s')"
      and c: "choice = (if unat r < length arr
           then let r = arr ! unat r in Some (if r \<ge> mut_num MUT_EXTRA_OVERWRITE then r - 5 else r) else None)"
      using pick False by (auto simp: pick_mutator_def)
    have len: "unat (of_nat (length arr) :: u32) = length arr" "0 < length arr"
      using ok(1) unat_of_nat_small [of "length arr", where 'a = 32] by (auto simp: array_ok_def)
    then have "r < of_nat (length arr)" by (intro rand_below_less [OF r]) (metis len(1) less_numeral_extra(3) unat_0 word_gt_0)
    then have lt: "unat r < length arr" using len by (simp add: word_less_nat_alt)
    then have "arr ! unat r < 37" using ok(1) by (simp add: array_ok_def)
    then show ?thesis using c lt havoc_frame_rng [OF ok(4)] rand_below_result [OF r] by (auto simp: Let_def)
  qed
qed

lemma havoc_step_result:
  assumes "havoc_step w arr prev_mutator b s = Some res"
    and "array_ok arr" "bandit_ok s0" "\<And>p. prev_mutator = Some p \<Longrightarrow> p < 32" "havoc_frame s0 s"
    and "queue_ok s0" "mutable b"
  shows "havoc_frame s0 (snd res) \<and> (\<exists>b' r. fst res = Some (b', r) \<and> r < 32 \<and> mutable b' \<and>
    allowed (mutator_enum ! original r) b b')"
proof -
  let ?P = "\<lambda>arr prev_mutator b s res. array_ok arr \<longrightarrow> (\<forall>p. prev_mutator = Some p \<longrightarrow> p < 32) \<longrightarrow>
    havoc_frame s0 s \<longrightarrow> mutable b \<longrightarrow> havoc_frame s0 (snd res) \<and> (\<exists>b' r. fst res = Some (b', r) \<and> r < 32 \<and>
      mutable b' \<and> allowed (mutator_enum ! original r) b b')"
  have "?P arr prev_mutator b s res"
  proof (rule havoc_step.raw_induct [where P = "\<lambda>w arr prev_mutator b s res. ?P arr prev_mutator b s res", OF _ assms(1)],
      intro impI)
    fix f w arr prev_mutator b s res
    assume IH: "\<And>w arr prev_mutator b s res. f w arr prev_mutator b s = Some res \<Longrightarrow> ?P arr prev_mutator b s res"
      and step: "Option.bind (pick_mutator w arr prev_mutator s) (\<lambda>(choice, s).
       case choice of None \<Rightarrow> Some (None, s)
       | Some r \<Rightarrow>
           if original r < length mutator_enum
           then Option.bind (mutate w (mutator_enum ! original r) b s) (\<lambda>(result, s).
             case result of Retry_step \<Rightarrow> f w arr prev_mutator b s
             | Overrun \<Rightarrow> Some (None, s)
             | Mutated b' \<Rightarrow> Some (Some (b', r), s))
           else Some (Some (b, r), s)) = Some res"
      and ok: "array_ok arr" "\<forall>p. prev_mutator = Some p \<longrightarrow> p < 32" "havoc_frame s0 s" "mutable b"
    obtain choice s1 where pick: "pick_mutator w arr prev_mutator s = Some (choice, s1)"
      using step by (auto simp: Option.bind_eq_Some_conv)
    have "bandit_ok s" using bandit_ok_frame assms(3) ok(3) by (auto simp: havoc_frame_def)
    note p = pick_mutator_result [OF pick ok(1) this ok(2) [rule_format] ok(3)]
    then obtain r where r: "choice = Some r" "r < 32" and fr: "havoc_frame s0 s1" by blast
    define m where "m = mutator_enum ! original r"
    have live: "\<not> unbounded m" using original_live [OF r(2)] by (auto simp: unbounded_def m_def)
    have "original r < 37" by (rule original_less [OF r(2)])
    then obtain result s2 where mu: "mutate w m b s1 = Some (result, s2)"
      and rest: "(case result of Retry_step \<Rightarrow> f w arr prev_mutator b s2
             | Overrun \<Rightarrow> Some (None, s2)
             | Mutated b' \<Rightarrow> Some (Some (b', r), s2)) = Some res"
      using step by (auto simp: pick r m_def Option.bind_eq_Some_conv)
    have "sources_ok s1" using queue_ok_frame [OF fr assms(6)] by (simp add: queue_ok_def)
    note sm = safe_result [OF safe_mutate [OF ok(4) cache_frame_refl this] mu]
    have fr2: "havoc_frame s0 s2" using havoc_frame_cache [OF fr] sm by blast
    show "havoc_frame s0 (snd res) \<and> (\<exists>b' r. fst res = Some (b', r) \<and> r < 32 \<and> mutable b' \<and>
      allowed (mutator_enum ! original r) b b')"
    proof (cases result)
      case Retry_step
      then show ?thesis using IH [of w arr prev_mutator b s2 res] rest ok fr2 by simp
    next
      case Overrun
      then show ?thesis using sm by simp
    next
      case (Mutated b')
      then have "allowed m b b'" using sm by simp
      moreover from this have "mutable b'" using live by (simp add: allowed_def mutable_def)
      ultimately show ?thesis using rest Mutated fr2 r m_def by auto
    qed
  qed
  then show ?thesis using assms by blast
qed

lemma havoc_stack_result:
  assumes "havoc_stack w arr cap n prev_mutator sel b s = Some (res, s')"
    and "array_ok arr" "bandit_ok s0" "\<And>p. prev_mutator = Some p \<Longrightarrow> p < 32" "havoc_frame s0 s"
    and "queue_ok s0" "mutable b" "length sel + n \<le> cap" "\<forall>r\<in>set sel. r < 32"
  shows "havoc_frame s0 s' \<and> (\<exists>b' sel'. res = Some (b', sel') \<and> mutable b' \<and> length sel' = length sel + n \<and>
    (\<forall>r\<in>set sel'. r < 32))"
  using assms
proof (induction n arbitrary: prev_mutator sel b s)
  case 0
  then show ?case by auto
next
  case (Suc n)
  obtain r1 s1 where st: "havoc_step w arr prev_mutator b s = Some (r1, s1)"
    using Suc.prems(1) by (auto simp: Option.bind_eq_Some_conv)
  note h = havoc_step_result [OF st Suc.prems(2-7)]
  then obtain b' r where r: "r1 = Some (b', r)" "r < 32" "mutable b'" and fr: "havoc_frame s0 s1" by auto
  have "havoc_stack w arr cap n (Some r) (sel @ [r]) b' s1 = Some (res, s')"
    using Suc.prems(1,8) by (simp add: st r)
  from Suc.IH [OF this Suc.prems(2,3) _ fr Suc.prems(6) r(3)] r(2) Suc.prems(8,9)
  show ?case by auto
qed

section \<open>What is learnt\<close>

text \<open>Every pair of neighbours is counted once, and nothing else changes.\<close>

lemma note_bigrams_counts:
  assumes "matrix_ok t" and "\<forall>r\<in>set rs. r < 32"
  shows "\<exists>t'. note_bigrams rs t = Some t' \<and> matrix_ok t' \<and>
    (\<forall>p<32. \<forall>r<32. t' ! p ! r = t ! p ! r + of_nat (count_list (zip rs (tl rs)) (p, r)))"
  using assms
proof (induction rs t rule: note_bigrams.induct)
  case (1 p r rs t)
  define t1 where "t1 = t[p := (t ! p)[r := t ! p ! r + 1]]"
  have pr: "p < length t" "r < length (t ! p)" using 1(2,3) by (simp_all add: matrix_ok_def)
  have "\<And>row. row \<in> set t1 \<Longrightarrow> length row = 32"
    using 1(2,3) by (auto simp: t1_def matrix_ok_def in_set_conv_nth nth_list_update_if) (metis nth_mem)
  then have "matrix_ok t1" using 1(2) by (simp add: matrix_ok_def t1_def)
  then obtain t' where t': "note_bigrams (r # rs) t1 = Some t'" "matrix_ok t'"
    "\<forall>p<32. \<forall>r'<32. t' ! p ! r' = t1 ! p ! r' + of_nat (count_list (zip (r # rs) rs) (p, r'))"
    using 1(1) [OF conjI [OF pr]] 1(3) by (auto simp: t1_def)
  have "t1 ! q ! r' = t ! q ! r' + (if (q, r') = (p, r) then 1 else 0)" if "q < 32" "r' < 32" for q r'
    using that pr 1(2) by (auto simp: t1_def nth_list_update_if matrix_ok_def)
  then show ?case using t' pr by (auto simp: t1_def)
qed (auto simp: matrix_ok_def)

lemma better_stack_max:
  assumes "unat b < length finds" and "m \<le> length finds" and "length finds \<le> 2 ^ 32" and "2 \<le> unat b" and "2 \<le> k"
  shows "(let b' = fold (better_stack finds) [k..<m] b in unat b' < length finds \<and> 2 \<le> unat b' \<and>
    finds ! unat b \<le> finds ! unat b' \<and> (\<forall>i. k \<le> i \<and> i < m \<longrightarrow> finds ! i \<le> finds ! unat b'))"
  using assms
proof (induction "m - k" arbitrary: k b)
  case 0
  then show ?case by auto
next
  case (Suc d)
  then have k: "k < m" "[k..<m] = k # [Suc k..<m]" by (simp_all add: upt_conv_Cons)
  define b1 where "b1 = better_stack finds k b"
  have un: "unat (of_nat k :: u32) = k" by (rule unat_of_nat_small) (use k Suc in simp)
  have b1: "unat b1 < length finds" "2 \<le> unat b1" "finds ! unat b \<le> finds ! unat b1" "finds ! k \<le> finds ! unat b1"
    using un k Suc by (auto simp: b1_def better_stack_def)
  define b' where "b' = fold (better_stack finds) [Suc k..<m] b1"
  have IH: "unat b' < length finds \<and> 2 \<le> unat b' \<and> finds ! unat b1 \<le> finds ! unat b' \<and>
    (\<forall>i. Suc k \<le> i \<and> i < m \<longrightarrow> finds ! i \<le> finds ! unat b')"
    using Suc(1) [of "Suc k" b1] Suc.hyps(2) Suc.prems b1 by (simp add: Let_def b'_def)
  have "finds ! i \<le> finds ! unat b'" if "k \<le> i" "i < m" for i
  proof (cases "i = k")
    case True
    then show ?thesis using IH b1 by (metis order_trans)
  next
    case False
    then show ?thesis using IH that by simp
  qed
  moreover have "finds ! unat b \<le> finds ! unat b'" using IH b1 by (metis order_trans)
  moreover have "fold (better_stack finds) [k..<m] b = b'" by (simp add: k b1_def b'_def)
  ultimately show ?case using IH by simp
qed

lemma note_stack_result:
  assumes ok: "bandit_ok s" and n: "n < 2 ^ havoc_stack_pow2 s"
  shows "\<exists>s'. note_stack n s = Some s' \<and> bandit_ok s' \<and>
    s' = s\<lparr>finds_per_stack := (finds_per_stack s)[n := finds_per_stack s ! n + 1],
      stack_with_most_finds := stack_with_most_finds s'\<rparr> \<and>
    (\<forall>i. 2 \<le> i \<and> i < 2 ^ havoc_stack_pow2 s \<longrightarrow>
      finds_per_stack s' ! i \<le> finds_per_stack s' ! unat (stack_with_most_finds s'))"
proof -
  define finds where "finds = (finds_per_stack s)[n := finds_per_stack s ! n + 1]"
  have len: "length finds = 2 ^ havoc_stack_pow2 s" using ok by (simp add: finds_def bandit_ok_def)
  have le: "(2 :: nat) ^ havoc_stack_pow2 s \<le> 2 ^ 32"
    by (rule power_increasing) (use ok in \<open>simp_all add: bandit_ok_def\<close>)
  have best: "unat (stack_with_most_finds s) < length finds" "2 \<le> unat (stack_with_most_finds s)"
    using ok len by (simp_all add: bandit_ok_def word_le_nat_alt)
  note m = better_stack_max [OF best(1) order_refl _ best(2) order_refl, unfolded Let_def]
  show ?thesis
    using m ok le len n best unat_num_of_available_stacks [OF ok]
    by (auto simp: note_stack_def Let_def finds_def [symmetric] bandit_ok_def word_le_nat_alt)
qed

lemma select_stack_result:
  assumes sel: "select_stack w s = (n, s')" and ok: "bandit_ok s" and fr: "havoc_frame s0 s"
  shows "havoc_frame s0 s' \<and> 2 \<le> unat n \<and> unat n < 2 ^ havoc_stack_pow2 s"
proof -
  define a where "a = libc_rand w (libc_draws s)"
  define num where "num = num_of_available_stacks s"
  have num: "unat num = 2 ^ havoc_stack_pow2 s" using unat_num_of_available_stacks [OF ok] by (simp add: num_def)
  have "(2 :: nat) ^ 2 \<le> 2 ^ havoc_stack_pow2 s"
    by (rule power_increasing) (use ok in \<open>simp_all add: bandit_ok_def\<close>)
  then have four: "4 \<le> unat num" using num by simp
  then have sub: "unat (num - 2) = unat num - 2" by (subst unat_sub) (simp_all add: word_le_nat_alt)
  have r: "unat (x mod (num - 2)) < unat num - 2" for x :: u32
    using sub four by (simp add: unat_mod)
  have "unat (x mod (num - 2) + 2) = unat (x mod (num - 2)) + 2" for x :: u32
  proof -
    have "unat (x mod (num - 2)) + 2 < 2 ^ 32" using r [of x] unsigned_less [of num, where ?'a = nat] by simp
    then show ?thesis by (simp add: unat_word_ariths)
  qed
  then have "2 \<le> unat (x mod (num - 2) + 2) \<and> unat (x mod (num - 2) + 2) < unat num" for x :: u32
    using r [of x] by simp
  then show ?thesis
    using sel fr ok num
    by (auto simp: select_stack_def rand_c_def Let_def havoc_frame_draws num_of_available_stacks_def num_def
        bandit_ok_def word_le_nat_alt split: if_splits)
qed

section \<open>The stage keeps to its bounds\<close>

text \<open>The stage draws random numbers until they fit, so it need not end.\<close>

locale havoc_runner = fuzz_runner cfs True for cfs
begin

lemma cfs_queue_ok:
  assumes run: "cfs b n s = Some (v, s')" and q: "queue_ok s" and n: "n \<le> MAX_FILE" "n \<le> length b" "length_ok n s"
  shows "queue_ok s'"
proof -
  have "queue_inv s" using q by (simp add: queue_ok_def queue_inv_def sources_ok_def)
  then have "queue_inv s'" by (rule cfs_queue [OF run n(3,1,2)])
  then show ?thesis using q cfs_frame [OF run]
    by (auto simp: queue_ok_def queue_inv_def sources_ok_def stage_frame_def dicts_ok_def dict_ok_def)
qed

end

text \<open>
  \<open>D\<close> holds what had been delivered before (everything else is of a permitted size) and
  the length of the current queue entry.
\<close>

type_synonym before = "buf set \<times> u32"

definition settled :: "before \<Rightarrow> afl \<Rightarrow> bool" where
  "settled D s \<longleftrightarrow> queue_ok s \<and> bandit_ok s \<and> \<not> keep_timeouts s \<and> min_length s \<le> 1 \<and> MAX_FILE \<le> max_length s \<and>
     havoc_max_mult s = HAVOC_MAX_MULT \<and> fst D \<subseteq> set (delivered s) \<and> set (delivered s) \<subseteq> fst D \<union> Collect mutable \<and>
     queue_cur s < length (queue_buf s) \<and> q_len (entry s (queue_cur s)) = snd D"

definition havoc_inv :: "before \<Rightarrow> nat \<Rightarrow> fstate \<Rightarrow> bool" where
  "havoc_inv D cap st \<longleftrightarrow> (let (s, l) = st in
     settled D s \<and> mutable (in_buf l) \<and> l_len l = length (in_buf l) \<and> mutable (out_buf l) \<and> selected_cap s = cap \<and>
     (in_training s \<longrightarrow> use_stacking l = 2))"

text \<open>
  The rounds: the limit and the score double together, the score at most to twice its
  maximum, so the limit stays within a bound fixed at the start. An entry whose score is 0
  (it was not computed yet) has no such bound.
\<close>

definition budget :: "nat \<Rightarrow> nat \<Rightarrow> nat \<Rightarrow> fstate \<Rightarrow> bool" where
  "budget M p0 m0 st \<longleftrightarrow> (let (s, l) = st in
     unat (havoc_max_mult s * 100) = M \<and> (0 < p0 \<longrightarrow> unat (stage_max s) * p0 = m0 * unat (l_perf_score l) \<and>
     unat (l_perf_score l) \<le> 2 * M \<and> m0 * (2 * M) < 2 ^ 32 * p0 \<and> 2 * M < 2 ^ 32))"

lemma settled_frame:
  assumes "havoc_frame s s'" and "settled D s"
  shows "settled D s'"
proof -
  have fr: "stage_frame s s'" "delivered s' = delivered s" using assms(1) by (simp_all add: havoc_frame_def)
  have "queue_ok s'" using queue_ok_frame [OF assms(1)] assms(2) by (simp add: settled_def)
  moreover have "bandit_ok s'" using bandit_ok_frame [OF fr(1)] assms(2) by (simp add: settled_def)
  moreover have st: "keep_timeouts s' = keep_timeouts s" "min_length s' = min_length s" "max_length s' = max_length s"
    "queue_cur s' = queue_cur s" "havoc_max_mult s' = havoc_max_mult s"
    using fr(1) by (simp_all add: stage_frame_def)
  moreover have "queue_cur s < length (queue_buf s') \<and> q_len (entry s' (queue_cur s)) = q_len (entry s (queue_cur s))"
    if "queue_cur s < length (queue_buf s)"
  proof -
    obtain c where c: "cache_frame (s\<lparr>libc_draws := c\<rparr>) s'" using assms(1) by (auto simp: havoc_frame_def)
    show ?thesis using cache_frameD(1) [OF c] cache_frameD(3) [OF c, of "queue_cur s"] that by (simp add: entry_def)
  qed
  ultimately show ?thesis using assms(2) fr(2) by (simp add: settled_def)
qed

lemma selected_cap_frame: "stage_frame s s' \<Longrightarrow> selected_cap s' = selected_cap s"
  by (simp add: selected_cap_def num_of_available_stacks_def stage_frame_def)

lemma queue_ok_upd [simp]:
  "queue_ok (s\<lparr>stage_cur_val := x1\<rparr>) = queue_ok s" "queue_ok (s\<lparr>stage_max := x2\<rparr>) = queue_ok s"
  "queue_ok (s\<lparr>stage_cur := x3\<rparr>) = queue_ok s" "queue_ok (s\<lparr>finds_per_mutator := x4\<rparr>) = queue_ok s"
  "queue_ok (s\<lparr>finds_per_stack := x5\<rparr>) = queue_ok s" "queue_ok (s\<lparr>stack_with_most_finds := x6\<rparr>) = queue_ok s"
  "queue_ok (s\<lparr>stage_cur_byte := x7\<rparr>) = queue_ok s" "queue_ok (s\<lparr>stage_name := x8\<rparr>) = queue_ok s"
  "queue_ok (s\<lparr>stage_short := x9\<rparr>) = queue_ok s" "queue_ok (s\<lparr>splicing_with := x10\<rparr>) = queue_ok s"
  "queue_ok (s\<lparr>stage_finds := x11\<rparr>) = queue_ok s" "queue_ok (s\<lparr>stage_cycles := x12\<rparr>) = queue_ok s"
  by (simp_all add: queue_ok_def sources_ok_def sizes_ok_def entries_ok_def dicts_ok_def dict_ok_def)

lemma bandit_ok_upd [simp]:
  "bandit_ok (s\<lparr>stage_cur_val := x1\<rparr>) = bandit_ok s" "bandit_ok (s\<lparr>stage_max := x2\<rparr>) = bandit_ok s"
  "bandit_ok (s\<lparr>stage_cur := x3\<rparr>) = bandit_ok s" "bandit_ok (s\<lparr>stage_cur_byte := x4\<rparr>) = bandit_ok s"
  "bandit_ok (s\<lparr>stage_name := x5\<rparr>) = bandit_ok s" "bandit_ok (s\<lparr>stage_short := x6\<rparr>) = bandit_ok s"
  "bandit_ok (s\<lparr>splicing_with := x7\<rparr>) = bandit_ok s" "bandit_ok (s\<lparr>stage_finds := x8\<rparr>) = bandit_ok s"
  "bandit_ok (s\<lparr>stage_cycles := x9\<rparr>) = bandit_ok s"
  by (simp_all add: bandit_ok_def)

lemma settled_upd [simp]:
  "settled D (s\<lparr>stage_cur_val := x1\<rparr>) = settled D s" "settled D (s\<lparr>stage_max := x2\<rparr>) = settled D s"
  "settled D (s\<lparr>stage_cur := x3\<rparr>) = settled D s" "settled D (s\<lparr>stage_cur_byte := x4\<rparr>) = settled D s"
  "settled D (s\<lparr>stage_name := x5\<rparr>) = settled D s" "settled D (s\<lparr>stage_short := x6\<rparr>) = settled D s"
  "settled D (s\<lparr>splicing_with := x7\<rparr>) = settled D s" "settled D (s\<lparr>stage_finds := x8\<rparr>) = settled D s"
  "settled D (s\<lparr>stage_cycles := x9\<rparr>) = settled D s"
  by (simp_all add: settled_def entry_def)

lemma selected_cap_upd [simp]:
  "selected_cap (s\<lparr>stage_cur_val := x1\<rparr>) = selected_cap s" "selected_cap (s\<lparr>stage_max := x2\<rparr>) = selected_cap s"
  "selected_cap (s\<lparr>stage_cur := x3\<rparr>) = selected_cap s" "selected_cap (s\<lparr>finds_per_mutator := x4\<rparr>) = selected_cap s"
  "selected_cap (s\<lparr>finds_per_stack := x5\<rparr>) = selected_cap s"
  "selected_cap (s\<lparr>stack_with_most_finds := x6\<rparr>) = selected_cap s"
  by (simp_all add: selected_cap_def num_of_available_stacks_def)

lemma settled_training:
  "settled D s \<Longrightarrow> in_training s \<Longrightarrow> matrix_ok t \<Longrightarrow> settled D (s\<lparr>finds_per_mutator := t\<rparr>)"
  by (simp add: settled_def bandit_ok_def entry_def)

lemma run_longer_budget:
  assumes "budget M p0 m0 (s, l)" and "l_perf_score l \<le> havoc_max_mult s * 100"
  shows "budget M p0 m0 (s\<lparr>stage_max := stage_max s * 2\<rparr>, l\<lparr>l_perf_score := l_perf_score l * 2\<rparr>)"
proof (cases "p0 = 0")
  case True
  then show ?thesis using assms(1) by (simp add: budget_def)
next
  case False
  define p where "p = unat (l_perf_score l)"
  have b: "unat (havoc_max_mult s * 100) = M" "unat (stage_max s) * p0 = m0 * p" "m0 * (2 * M) < 2 ^ 32 * p0"
    "2 * M < 2 ^ 32" "0 < p0" "p \<le> M"
    using assms False by (simp_all add: budget_def p_def word_le_nat_alt)
  have double: "unat (x * 2) = 2 * unat x" if "2 * unat x < 2 ^ 32" for x :: u32
    using that by (simp add: unat_word_ariths)
  have "2 * unat (stage_max s) * p0 = m0 * (2 * p)" using b(2) by simp
  also have "\<dots> \<le> m0 * (2 * M)" using b(6) by simp
  also have "\<dots> < 2 ^ 32 * p0" by (rule b(3))
  finally have "2 * unat (stage_max s) < 2 ^ 32" by simp
  then have sm: "unat (stage_max s * 2) = 2 * unat (stage_max s)" by (rule double)
  have "unat (l_perf_score l * 2) = 2 * p" unfolding p_def by (rule double) (use b p_def in simp)
  then show ?thesis using sm b by (simp add: budget_def)
qed

lemma budget_upd [simp]:
  "budget M p0 m0 (s\<lparr>stage_cur_val := x1\<rparr>, l) = budget M p0 m0 (s, l)"
  "budget M p0 m0 (s\<lparr>stage_cur := x2\<rparr>, l) = budget M p0 m0 (s, l)"
  "budget M p0 m0 (s\<lparr>finds_per_mutator := x3\<rparr>, l) = budget M p0 m0 (s, l)"
  "budget M p0 m0 (s\<lparr>finds_per_stack := x4\<rparr>, l) = budget M p0 m0 (s, l)"
  "budget M p0 m0 (s\<lparr>finds_per_stack := x4, stack_with_most_finds := x5\<rparr>, l) = budget M p0 m0 (s, l)"
  "budget M p0 m0 (s, l\<lparr>use_stacking := x6\<rparr>) = budget M p0 m0 (s, l)"
  "budget M p0 m0 (s, l\<lparr>out_buf := x7\<rparr>) = budget M p0 m0 (s, l)"
  "budget M p0 m0 (s, l\<lparr>selected_mutators := x8\<rparr>) = budget M p0 m0 (s, l)"
  "budget M p0 m0 (s, l\<lparr>havoc_queued := x9\<rparr>) = budget M p0 m0 (s, l)"
  by (simp_all add: budget_def)

lemma budget_frame: "stage_frame s s' \<Longrightarrow> budget M p0 m0 (s', l) = budget M p0 m0 (s, l)"
  by (simp add: budget_def stage_frame_def)

lemma wp_mutate_stack:
  assumes inv: "havoc_inv D cap (s, l)" and cap: "unat (use_stacking l) \<le> cap" and arr: "array_ok arr"
    and Q: "\<And>s' b' sel. havoc_frame s s' \<Longrightarrow> mutable b' \<Longrightarrow> length sel = unat (use_stacking l) \<Longrightarrow>
      \<forall>r\<in>set sel. r < 32 \<Longrightarrow> Q Next (s', l\<lparr>out_buf := b', selected_mutators := sel\<rparr>)"
  shows "wp True (mutate_stack w arr cap) Q (s, l)"
proof (cases "havoc_stack w arr cap (unat (use_stacking l)) None [] (out_buf l) s")
  case None
  then show ?thesis by (simp add: wp_def mutate_stack_def)
next
  case (Some r)
  obtain res s' where r: "r = (res, s')" by (cases r)
  have "bandit_ok s" "queue_ok s" "mutable (out_buf l)" using inv by (simp_all add: havoc_inv_def settled_def)
  then have "havoc_frame s s' \<and> (\<exists>b' sel'. res = Some (b', sel') \<and> mutable b' \<and>
      length sel' = unat (use_stacking l) \<and> (\<forall>r\<in>set sel'. r < 32))"
    using havoc_stack_result [of w arr cap "unat (use_stacking l)" None "[]" "out_buf l" s res s' s]
      Some r arr cap by simp
  then show ?thesis using Some r Q by (auto simp: wp_def mutate_stack_def)
qed

lemma wp_learn:
  assumes s: "settled D s" and sel: "\<forall>r\<in>set (selected_mutators l). r < 32"
    and n: "\<not> in_training s \<Longrightarrow> unat (use_stacking l) < 2 ^ havoc_stack_pow2 s"
    and Q1: "\<And>t. settled D (s\<lparr>finds_per_mutator := t\<rparr>) \<Longrightarrow> Q Next (s\<lparr>finds_per_mutator := t\<rparr>, l)"
    and Q2: "\<And>f m. settled D (s\<lparr>finds_per_stack := f, stack_with_most_finds := m\<rparr>) \<Longrightarrow>
      Q Next (s\<lparr>finds_per_stack := f, stack_with_most_finds := m\<rparr>, l)"
  shows "wp True learn Q (s, l)"
proof (cases "in_training s")
  case True
  have "matrix_ok (finds_per_mutator s)" using s by (simp add: settled_def bandit_ok_def)
  then obtain t where t: "note_bigrams (selected_mutators l) (finds_per_mutator s) = Some t" "matrix_ok t"
    using note_bigrams_counts sel by blast
  from Q1 [OF settled_training [OF s True t(2)]] show ?thesis using True t(1) by (simp add: wp_def learn_def)
next
  case False
  have ok: "bandit_ok s" using s by (simp add: settled_def)
  obtain s' where s': "note_stack (unat (use_stacking l)) s = Some s'" "bandit_ok s'"
    and eq: "s' = s\<lparr>finds_per_stack := (finds_per_stack s)[unat (use_stacking l) := finds_per_stack s ! unat (use_stacking l) + 1],
      stack_with_most_finds := stack_with_most_finds s'\<rparr>"
    using note_stack_result [OF ok n [OF False]] by blast
  obtain f m where sf: "s' = s\<lparr>finds_per_stack := f, stack_with_most_finds := m\<rparr>" using eq by blast
  have "settled D s'" using s s'(2) by (simp add: settled_def sf entry_def)
  then show ?thesis using False s'(1) Q2 [where f = f and m = m] by (simp add: wp_def learn_def sf)
qed

context havoc_runner
begin

text \<open>Running an input of a permitted size keeps the fuzzer settled.\<close>

lemma cfs_settled:
  assumes run: "cfs b (length b) s = Some (v, s')" and s: "settled D s" and b: "mutable b"
  shows "settled D s' \<and> stage_frame s s' \<and> q_kept (entry s' (queue_cur s)) = q_kept (entry s (queue_cur s)) \<and>
    set (delivered s') = insert b (set (delivered s))"
proof -
  have len: "0 < length b" "length b \<le> MAX_FILE" using b by (simp_all add: mutable_def)
  have "1 \<le> length b" using len by (simp add: Suc_le_eq)
  moreover have "min_length s \<le> 1" using s by (simp add: settled_def)
  ultimately have "min_length s \<le> length b" by (rule order_trans [rotated])
  then have ok: "length_ok (length b) s"
    using s len by (simp add: length_ok_def settled_def MAX_FILE_def)
  have fr: "stage_frame s s'" by (rule cfs_frame [OF run])
  have "queue_ok s'" using cfs_queue_ok [OF run _ len(2) _ ok] s by (simp add: settled_def)
  moreover have "bandit_ok s'" using bandit_ok_frame [OF fr] s by (simp add: settled_def)
  moreover have dl: "set (delivered s') = insert b (set (delivered s))" using cfs_delivers [OF run ok] by simp
  moreover have "keep_timeouts s' = keep_timeouts s" "min_length s' = min_length s" "max_length s' = max_length s"
    "queue_cur s' = queue_cur s" "havoc_max_mult s' = havoc_max_mult s"
    using fr by (simp_all add: stage_frame_def)
  moreover have kept: "queue_cur s < length (queue_buf s') \<and> q_kept (entry s' (queue_cur s)) = q_kept (entry s (queue_cur s))"
    using cfs_kept [OF run ok len(2), of "queue_cur s"] s by (simp add: settled_def)
  moreover from kept have "q_len (entry s' (queue_cur s)) = q_len (entry s (queue_cur s))" by (simp add: q_kept_def)
  ultimately have "settled D s'" using s b by (auto simp: settled_def)
  then show ?thesis using fr kept dl by blast
qed

lemma wp_fuzz_mutant:
  assumes inv: "havoc_inv D cap (s, l)"
    and Q: "\<And>v s'. stage_frame s s' \<Longrightarrow> havoc_inv D cap (s', l) \<Longrightarrow>
      Q (case v of Ret0 \<Rightarrow> Next | Ret1 \<Rightarrow> Abandon_entry | Died \<Rightarrow> Fatal) (s', l)"
  shows "wp True (fuzz_with cfs out_buf (\<lambda>l. length (out_buf l))) Q (s, l)"
proof (cases "cfs (out_buf l) (length (out_buf l)) s")
  case None
  then show ?thesis by (simp add: wp_def fuzz_with_def)
next
  case (Some r)
  obtain v s' where r: "r = (v, s')" by (cases r)
  note run = Some [unfolded r]
  have fr: "stage_frame s s'" and "settled D s'"
    using cfs_settled [OF run, of D] inv by (auto simp: havoc_inv_def)
  then have "havoc_inv D cap (s', l)" using inv selected_cap_frame [OF fr] fr
    by (simp add: havoc_inv_def stage_frame_def)
  then show ?thesis using Q [OF fr, of v] run by (simp add: wp_def fuzz_with_def)
qed

end

lemma wp_run_longer:
  assumes "budget M p0 m0 (s, l)"
    and "\<And>x y. budget M p0 m0 (s\<lparr>stage_max := x\<rparr>, l\<lparr>l_perf_score := y\<rparr>) \<Longrightarrow>
      Q Next (s\<lparr>stage_max := x\<rparr>, l\<lparr>l_perf_score := y\<rparr>)"
  shows "wp True run_longer Q (s, l)"
proof (cases "l_perf_score l \<le> havoc_max_mult s * 100")
  case True
  then show ?thesis using run_longer_budget [OF assms(1) True]
      assms(2) [of "stage_max s * 2" "l_perf_score l * 2"] by (simp add: run_longer_def)
next
  case False
  have "budget M p0 m0 (s\<lparr>stage_max := stage_max s\<rparr>, l\<lparr>l_perf_score := l_perf_score l\<rparr>)" using assms(1) by simp
  from assms(2) [OF this] show ?thesis using False by (simp add: run_longer_def)
qed

lemma havoc_inv_frame:
  assumes "havoc_inv D cap (s, l)" and "havoc_frame s s'"
  shows "havoc_inv D cap (s', l)"
proof -
  have "stage_frame s s'" using assms(2) by (simp add: havoc_frame_def)
  then show ?thesis using assms(1) settled_frame [OF assms(2)] selected_cap_frame [of s s']
    by (simp add: havoc_inv_def) (simp add: stage_frame_def)
qed

text \<open>The local variables a round leaves alone.\<close>

definition given :: "fuzz_locals \<Rightarrow> buf \<times> buf \<times> u32 \<times> u32" where
  "given l = (in_buf l, orig_in l, orig_perf l, splice_cycle l)"

lemma given_upd [simp]:
  "given (l\<lparr>use_stacking := x1\<rparr>) = given l" "given (l\<lparr>out_buf := x2\<rparr>) = given l"
  "given (l\<lparr>selected_mutators := x3\<rparr>) = given l" "given (l\<lparr>havoc_queued := x4\<rparr>) = given l"
  "given (l\<lparr>l_perf_score := x5\<rparr>) = given l" "given (l\<lparr>orig_hit_cnt := x6\<rparr>) = given l"
  by (simp_all add: given_def)

text \<open>How a round leaves: by \<^verbatim>\<open>goto abandon_entry\<close> or the end of the process, in a sound state.\<close>

definition left_early :: "before \<Rightarrow> flow \<Rightarrow> fstate \<Rightarrow> bool" where
  "left_early D f st \<longleftrightarrow> (f = Abandon_entry \<or> f = Fatal) \<and> settled D (fst st)"

definition round_inv :: "before \<Rightarrow> nat \<Rightarrow> nat \<Rightarrow> nat \<Rightarrow> nat \<Rightarrow> buf \<times> buf \<times> u32 \<times> u32 \<Rightarrow> fstate \<Rightarrow> bool" where
  "round_inv D cap M p0 m0 g st \<longleftrightarrow>
     havoc_inv D cap st \<and> budget M p0 m0 st \<and> given (snd st) = g \<and> out_buf (snd st) = in_buf (snd st)"

text \<open>Between choosing the size of the stack and running the mutant.\<close>

definition stack_inv :: "before \<Rightarrow> nat \<Rightarrow> nat \<Rightarrow> nat \<Rightarrow> nat \<Rightarrow> buf \<times> buf \<times> u32 \<times> u32 \<Rightarrow> afl \<Rightarrow> fstate \<Rightarrow> bool" where
  "stack_inv D cap M p0 m0 g s st \<longleftrightarrow> (let (s', l') = st in
     havoc_inv D cap (s', l') \<and> budget M p0 m0 (s', l') \<and> given l' = g \<and>
     stage_cur s' = stage_cur s \<and> stage_max s' = stage_max s \<and> unat (use_stacking l') \<le> cap \<and>
     (\<not> in_training s' \<longrightarrow> unat (use_stacking l') < 2 ^ havoc_stack_pow2 s'))"

definition round_done :: "before \<Rightarrow> nat \<Rightarrow> nat \<Rightarrow> nat \<Rightarrow> nat \<Rightarrow> buf \<times> buf \<times> u32 \<times> u32 \<Rightarrow> afl \<Rightarrow> fstate \<Rightarrow> bool" where
  "round_done D cap M p0 m0 g s st \<longleftrightarrow> (let (s', l') = st in
     round_inv D cap M p0 m0 g (s', l') \<and> stage_cur s' = stage_cur s)"

lemma wp_choose_stack:
  assumes inv: "round_inv D cap M p0 m0 g (s, l)"
  shows "wp True (cond (\<lambda>(s, l). \<not> in_training s)
       (upd (\<lambda>(s, l). let (n, s) = select_stack w s in (s, l\<lparr>use_stacking := n\<rparr>))) skip)
     (andthen (stack_inv D cap M p0 m0 g s) Q) (s, l)"
proof -
  have h: "havoc_inv D cap (s, l)" "budget M p0 m0 (s, l)" "given l = g" "out_buf l = in_buf l"
    using inv by (simp_all add: round_inv_def)
  have ok: "bandit_ok s" using h by (simp add: havoc_inv_def settled_def)
  have cap: "cap = (if in_training s then 2 else 2 ^ havoc_stack_pow2 s)"
    using h unat_num_of_available_stacks [OF ok] by (auto simp: havoc_inv_def selected_cap_def)
  show ?thesis
proof (cases "in_training s")
  case True
  then show ?thesis using h cap by (simp add: stack_inv_def havoc_inv_def)
next
  case False
  obtain n s1 where sel: "select_stack w s = (n, s1)" by (cases "select_stack w s")
  note r = select_stack_result [OF sel ok havoc_frame_refl]
  have fr: "stage_frame s s1" using r by (simp add: havoc_frame_def)
  have "havoc_inv D cap (s1, l\<lparr>use_stacking := n\<rparr>)" using havoc_inv_frame [OF h(1), of s1] r False fr
    by (simp add: havoc_inv_def stage_frame_def)
  moreover have "budget M p0 m0 (s1, l\<lparr>use_stacking := n\<rparr>)" using h(2) budget_frame [OF fr] by simp
  moreover have "stage_cur s1 = stage_cur s" "stage_max s1 = stage_max s" "havoc_stack_pow2 s1 = havoc_stack_pow2 s"
    using fr by (simp_all add: stage_frame_def)
  ultimately show ?thesis using False sel r cap h(3) by (simp add: stack_inv_def)
qed
qed

lemma wp_learn_from_finds:
  assumes "round_inv D cap M p0 m0 g (s1, l1)" "\<forall>r\<in>set (selected_mutators l1). r < 32"
    "\<not> in_training s1 \<Longrightarrow> unat (use_stacking l1) < 2 ^ havoc_stack_pow2 s1"
  shows "wp True (cond found_something (steps [run_longer, learn,
       upd (\<lambda>(s, l). (s, l\<lparr>havoc_queued := ucast (queued_items s)\<rparr>))]) skip)
     (andthen (round_done D cap M p0 m0 g s1) Q) (s1, l1)"
proof -
  let ?post = "andthen (round_done D cap M p0 m0 g s1) Q"
  let ?R = "\<lambda>(s2, l2). \<exists>x y. s2 = s1\<lparr>stage_max := x\<rparr> \<and> l2 = l1\<lparr>l_perf_score := y\<rparr> \<and>
    budget M p0 m0 (s2, l2)"
  have "wp True (steps [run_longer, learn, upd (\<lambda>(s, l). (s, l\<lparr>havoc_queued := ucast (queued_items s)\<rparr>))])
    (?post) (s1, l1)"
  proof (rule wp_seq [where R = ?R])
    show "wp True run_longer (andthen ?R (?post)) (s1, l1)"
      by (rule wp_run_longer [of M p0 m0]) (use assms in \<open>auto simp: round_inv_def\<close>)
    fix st
    assume R: "?R st"
    then obtain x y where st: "st = (s1\<lparr>stage_max := x\<rparr>, l1\<lparr>l_perf_score := y\<rparr>)"
      and bud: "budget M p0 m0 (s1\<lparr>stage_max := x\<rparr>, l1\<lparr>l_perf_score := y\<rparr>)"
      by auto
    have inv1: "havoc_inv D cap (s1, l1)" "given l1 = g" "out_buf l1 = in_buf l1" using assms by (simp_all add: round_inv_def)
    have s1: "settled D (s1\<lparr>stage_max := x\<rparr>)" using inv1 by (simp add: havoc_inv_def)
    show "wp True (steps [learn, upd (\<lambda>(s, l). (s, l\<lparr>havoc_queued := ucast (queued_items s)\<rparr>))]) (?post) st"
      unfolding st wp_Cons wp_single
    proof (rule wp_learn [OF s1])
      show "\<forall>r\<in>set (selected_mutators (l1\<lparr>l_perf_score := y\<rparr>)). r < 32" using assms by simp
      show "unat (use_stacking (l1\<lparr>l_perf_score := y\<rparr>)) < 2 ^ havoc_stack_pow2 (s1\<lparr>stage_max := x\<rparr>)"
        if "\<not> in_training (s1\<lparr>stage_max := x\<rparr>)" using that assms(3) by simp
    qed (use bud inv1 in \<open>simp_all add: round_done_def round_inv_def havoc_inv_def\<close>)
  qed
  then show ?thesis using assms by (simp add: round_done_def)
qed

lemma havoc_inv_mutant:
  assumes "havoc_inv D cap (s, l)" and "havoc_frame s s'" and "mutable b'"
  shows "havoc_inv D cap (s', l\<lparr>out_buf := b', selected_mutators := sel\<rparr>)"
  using havoc_inv_frame [OF assms(1,2)] assms(3) by (simp add: havoc_inv_def)

lemma stack_inv_frame:
  assumes "stack_inv D cap M p0 m0 g s (s1, l1)" and "stage_frame s1 s2" and "havoc_inv D cap (s2, l2)"
    and "given l2 = given l1" "use_stacking l2 = use_stacking l1" "l_perf_score l2 = l_perf_score l1"
  shows "stack_inv D cap M p0 m0 g s (s2, l2)"
proof -
  have "stage_cur s2 = stage_cur s1" "stage_max s2 = stage_max s1" "in_training s2 = in_training s1"
    "havoc_stack_pow2 s2 = havoc_stack_pow2 s1"
    using assms(2) by (simp_all add: stage_frame_def)
  moreover have "havoc_max_mult s2 = havoc_max_mult s1" using assms(2) by (simp add: stage_frame_def)
  then have "budget M p0 m0 (s2, l2)" using assms(1,6) \<open>stage_max s2 = _\<close> by (auto simp: stack_inv_def budget_def)
  ultimately show ?thesis using assms by (simp add: stack_inv_def)
qed

context havoc_runner
begin

lemma wp_havoc_round:
  assumes inv: "round_inv D cap M p0 m0 g (s, l)" and arr: "array_ok arr"
    and Q: "\<And>f st. left_early D f st \<Longrightarrow> Q f st"
  shows "wp True (havoc_round w cfs arr cap) (andthen (round_done D cap M p0 m0 g s) Q) (s, l)"
  unfolding havoc_round_def
proof (rule wp_seq [OF wp_choose_stack [OF inv]])
  let ?post = "andthen (round_done D cap M p0 m0 g s) Q"
  let ?S = "stack_inv D cap M p0 m0 g s"
  let ?T = "\<lambda>(s', l'). ?S (s', l') \<and> (\<forall>r\<in>set (selected_mutators l'). r < 32)"
  let ?c5 = "on_loc (\<lambda>l. l\<lparr>out_buf := take (l_len l) (in_buf l)\<rparr>)"
  let ?c6 = "cond found_something (steps [run_longer, learn,
       upd (\<lambda>(s, l). (s, l\<lparr>havoc_queued := ucast (queued_items s)\<rparr>))]) skip"
  have last: "wp True (steps [?c5, ?c6]) ?post st" if "?T st" for st
  proof -
    obtain s4 l4 where st: "st = (s4, l4)" by (cases st)
    let ?l = "l4\<lparr>out_buf := take (l_len l4) (in_buf l4)\<rparr>"
    have r: "round_inv D cap M p0 m0 g (s4, ?l)"
      using that by (auto simp: st stack_inv_def round_inv_def havoc_inv_def)
    have same: "round_done D cap M p0 m0 g s4 = round_done D cap M p0 m0 g s"
      using that by (auto simp: st stack_inv_def round_done_def fun_eq_iff)
    have "wp True ?c6 (andthen (round_done D cap M p0 m0 g s4) Q) (s4, ?l)"
      by (rule wp_learn_from_finds [OF r]) (use that in \<open>simp_all add: st stack_inv_def\<close>)
    then show ?thesis by (simp only: st wp_Cons wp_single wp_helpers andthen_simps same)
  qed
  have fuzz: "wp True (fuzz_with cfs out_buf (\<lambda>l. length (out_buf l))) (andthen ?T ?post) st" if T: "?T st" for st
  proof -
    obtain s3 l3 where st: "st = (s3, l3)" by (cases st)
    have i3: "havoc_inv D cap (s3, l3)" using T by (simp add: st stack_inv_def)
    show ?thesis unfolding st
    proof (rule wp_fuzz_mutant [OF i3])
      fix v s4
      assume sf: "stage_frame s3 s4" and i4: "havoc_inv D cap (s4, l3)"
      have "?T (s4, l3)" using T stack_inv_frame [OF _ sf i4, of M p0 m0 g s l3] by (simp add: st)
      moreover have "left_early D f (s4, l3)" if "f = Abandon_entry \<or> f = Fatal" for f
        using that i4 by (simp add: left_early_def havoc_inv_def)
      ultimately show "andthen ?T ?post (case v of Ret0 \<Rightarrow> Next | Ret1 \<Rightarrow> Abandon_entry | Died \<Rightarrow> Fatal) (s4, l3)"
        using Q by (cases v) simp_all
    qed
  qed
  have mutate: "wp True (mutate_stack w arr cap) (andthen ?T ?post) st" if S: "?S st" for st
  proof -
    obtain s2 l2 where st: "st = (s2, l2)" by (cases st)
    have i2: "havoc_inv D cap (s2, l2)" "unat (use_stacking l2) \<le> cap" using S by (simp_all add: st stack_inv_def)
    show ?thesis unfolding st
      by (rule wp_mutate_stack [OF i2 arr], unfold andthen_simps)
        (use S stack_inv_frame havoc_inv_mutant [OF i2(1)] in \<open>auto simp: st havoc_frame_def\<close>)
  qed
  fix st1
  assume S1: "?S st1"
  show "wp True (steps [upd (\<lambda>(s, l). (s\<lparr>stage_cur_val := use_stacking l\<rparr>, l)), mutate_stack w arr cap,
       fuzz_with cfs out_buf (\<lambda>l. length (out_buf l)), ?c5, ?c6]) ?post st1"
  proof (rule wp_seq [where R = ?S])
    show "wp True (upd (\<lambda>(s, l). (s\<lparr>stage_cur_val := use_stacking l\<rparr>, l))) (andthen ?S ?post) st1"
      using S1 by (cases st1) (auto simp: stack_inv_def havoc_inv_def)
  next
    fix st assume "?S st"
    then show "wp True (steps [mutate_stack w arr cap, fuzz_with cfs out_buf (\<lambda>l. length (out_buf l)), ?c5, ?c6]) ?post st"
      by (rule wp_seq [OF mutate wp_seq [OF fuzz last]])
  qed
qed

end

section \<open>The whole stage\<close>

text \<open>The scores the queue hands out: at most a hundred times the multiplier.\<close>

definition score_ok :: "afl \<Rightarrow> u32 \<Rightarrow> bool" where
  "score_ok s p \<longleftrightarrow> p \<le> havoc_max_mult s * 100 \<and> havoc_max_mult s * 100 < 2 ^ 22"

lemma budget_rounds:
  assumes "budget M p0 m0 (s, l)" and "m0 \<le> 12 * p0" and "0 < p0"
  shows "unat (stage_max s) \<le> 24 * M"
proof -
  have "unat (stage_max s) * p0 \<le> m0 * (2 * M)" using assms(1,3) by (simp add: budget_def)
  also have "\<dots> \<le> 12 * p0 * (2 * M)" using assms(2) by simp
  finally have "unat (stage_max s) * p0 \<le> 24 * M * p0" by (simp add: ac_simps)
  then show ?thesis using assms(3) by simp
qed

lemma rounds_start:
  fixes c p q :: u32
  assumes "c \<le> 1024" and "0 < p" and "p < 2 ^ 22"
  shows "unat (max (drop_bit 8 (c * p div q)) HAVOC_MIN) \<le> 12 * unat p"
proof -
  have cp: "unat c * unat p \<le> 1024 * unat p" using assms(1) by (simp add: word_le_nat_alt)
  have p: "0 < unat p" "unat p < 2 ^ 22" using assms(2,3) by (simp_all add: word_less_nat_alt)
  have "1024 * unat p < 2 ^ 32" using p(2) by simp
  with cp have "unat c * unat p < 2 ^ 32" by (rule le_less_trans)
  then have "unat (c * p) = unat c * unat p" by (simp add: unat_word_ariths)
  then have "unat (c * p div q) \<le> 1024 * unat p" 
    unfolding unat_div by (metis cp div_le_dividend le_trans)
  then have "unat (c * p div q) div 256 \<le> 1024 * unat p div 256" by (rule div_le_mono)
  moreover have "unat (drop_bit 8 x) = unat x div 256" for x :: u32
    by (simp add: drop_bit_eq_div unat_div)
  ultimately have "unat (drop_bit 8 (c * p div q)) \<le> 12 * unat p" by simp
  then show ?thesis using p by (simp add: max_def HAVOC_MIN_def)
qed

definition ready :: "before \<Rightarrow> fstate \<Rightarrow> bool" where
  "ready D st \<longleftrightarrow> (let (s, l) = st in settled D s \<and> mutable (in_buf l) \<and> out_buf l = in_buf l \<and>
     l_len l = length (in_buf l))"

definition start_score :: "fuzz_locals \<Rightarrow> u32" where
  "start_score l = (if splice_cycle l = 0 then l_perf_score l else orig_perf l)"

lemma wp_havoc_begin:
  assumes r: "ready D (s, l)" and p: "score_ok s (start_score l)"
    and Q: "\<And>s' l' m0. round_inv D (selected_cap s') (unat (havoc_max_mult s * 100)) (unat (start_score l)) m0 (given l) (s', l') \<Longrightarrow>
      0 < start_score l \<longrightarrow> m0 \<le> 12 * unat (start_score l) \<Longrightarrow>  havoc_max_mult s' = havoc_max_mult s \<Longrightarrow> Q Next (s', l')"
  shows "wp True havoc_begin Q (s, l)"
proof -
  define c where "c = (if splice_cycle l = 0 then if doing_det l then HAVOC_CYCLES_INIT else HAVOC_CYCLES else SPLICE_HAVOC)"
  define mx where "mx = max (drop_bit 8 (c * start_score l div havoc_div s)) HAVOC_MIN"
  define M where "M = unat (havoc_max_mult s * 100)"
  have c: "c \<le> 1024" by (simp add: c_def HAVOC_CYCLES_INIT_def HAVOC_CYCLES_def SPLICE_HAVOC_def)
  have pM: "unat (start_score l) \<le> M" "M < 2 ^ 22"
    using p by (simp_all add: score_ok_def M_def word_le_nat_alt word_less_nat_alt)
  have "start_score l < 2 ^ 22" using p unfolding score_ok_def by (meson le_less_trans)
  then have mx: "unat mx \<le> 12 * unat (start_score l)" if "0 < start_score l"
    unfolding mx_def using p that by (intro rounds_start c) (simp_all add: score_ok_def)
  have bud: "unat mx * (2 * M) < 2 ^ 32 * unat (start_score l)" if "0 < start_score l"
  proof -
    have "unat mx * (2 * M) \<le> 12 * unat (start_score l) * (2 * M)" using mx [OF that] by simp
    also have "\<dots> < 2 ^ 32 * unat (start_score l)" using pM that by (simp add: word_less_nat_alt)
    finally show ?thesis .
  qed
  have pos: "0 < unat (start_score l) \<longleftrightarrow> 0 < start_score l" by (simp add: word_less_nat_alt)
  show ?thesis
    unfolding havoc_begin_def
    using r pM bud mx pos
    by (cases "splice_cycle l = 0")
      (auto intro!: Q [of _ "unat mx"] simp: c_def mx_def M_def start_score_def round_inv_def ready_def havoc_inv_def budget_def Let_def
        selected_cap_def num_of_available_stacks_def hits_def)
qed

context havoc_runner
begin

lemma wp_havoc_loop:
  assumes inv: "round_inv D cap M p0 m0 g (s, l)" and m0: "0 < p0 \<longrightarrow> m0 \<le> 12 * p0" and arr: "array_ok arr"
    and Q: "\<And>f st. left_early D f st \<Longrightarrow> Q f st"
    and Next: "\<And>s' l'. round_inv D cap M p0 m0 g (s', l') \<Longrightarrow> 0 < p0 \<longrightarrow> unat (stage_max s') \<le> 24 * M \<Longrightarrow> Q Next (s', l')"
  shows "wp True (for_stage_cur (havoc_round w cfs arr cap)) Q (s, l)"
proof -
  let ?I = "\<lambda>st. round_inv D cap M p0 m0 g st"
  have cur: "?I (s\<lparr>stage_cur := c\<rparr>, l)" if "?I (s, l)" for s l c
    using that by (auto simp: round_inv_def havoc_inv_def)
  have "wp True (while_cmd (\<lambda>(s, l). stage_cur s < stage_max s) (steps [havoc_round w cfs arr cap, inc_cur])) Q
      (s\<lparr>stage_cur := 0\<rparr>, l)"
  proof (rule wp_while_partial [where I = ?I])
    show "?I (s\<lparr>stage_cur := 0\<rparr>, l)" by (rule cur [OF inv])
  next
    fix st
    assume I: "?I st"
    obtain s l where st: "st = (s, l)" by (cases st)
    show "wp True (steps [havoc_round w cfs arr cap, inc_cur]) (andthen ?I Q) st"
      unfolding st
    proof (rule wp_seq [OF wp_havoc_round])
      show "?I (s, l)" using I by (simp add: st)
      fix st'
      assume "round_done D cap M p0 m0 g s st'"
      then show "wp True (steps [inc_cur]) (andthen ?I Q) st'" using cur by (cases st') (simp add: round_done_def)
    next
      fix f st'
      assume "left_early D f st'"
      then show "andthen ?I Q f st'" using Q [of f st'] by (auto simp: left_early_def)
    qed (rule arr)
  next
    fix st
    assume I: "?I st"
    obtain s l where st: "st = (s, l)" by (cases st)
    show "Q Next st" using Next [of s l] I m0 budget_rounds by (auto simp: st round_inv_def)
  qed
  then show ?thesis by (simp add: for_stage_cur_def)
qed

end

lemma settled_end_stage:
  "settled D (s\<lparr>stage_finds := f, stage_cycles := c\<rparr>) = settled D s"
  by simp

text \<open>What the tail of the function needs: a permitted input, and the entry's own bytes for splicing.\<close>

definition spliceable :: "before \<Rightarrow> fstate \<Rightarrow> bool" where
  "spliceable D st \<longleftrightarrow> (let (s, l) = st in
     settled D s \<and> score_ok s (orig_perf l) \<and> unat (snd D) \<le> length (orig_in l))"

definition tail_inv :: "before \<Rightarrow> fstate \<Rightarrow> bool" where
  "tail_inv D st \<longleftrightarrow> ready D st \<and> spliceable D st"

context havoc_runner
begin

lemma wp_havoc_stage:
  assumes inv: "tail_inv D (s, l)" and p: "score_ok s (start_score l)"
    and Q: "\<And>f st. left_early D f st \<Longrightarrow> Q f st"
    and Next: "\<And>s' l'. tail_inv D (s', l') \<Longrightarrow> splice_cycle l' = splice_cycle l \<Longrightarrow>
      0 < start_score l \<longrightarrow> unat (stage_max s') \<le> 24 * unat (havoc_max_mult s * 100) \<Longrightarrow> Q Next (s', l')"
  shows "wp True (havoc_stage w cfs) Q (s, l)"
  unfolding havoc_stage_def
proof (rule wp_seq)
  let ?M = "unat (havoc_max_mult s * 100)"
  let ?p = "unat (start_score l)"
  let ?R = "\<lambda>st. \<exists>m0. round_inv D (selected_cap (fst st)) ?M ?p m0 (given l) st \<and> (0 < ?p \<longrightarrow> m0 \<le> 12 * ?p)"
  have r: "ready D (s, l)" using inv by (simp add: tail_inv_def)
  have pos: "0 < start_score l \<longleftrightarrow> 0 < ?p" by (simp add: word_less_nat_alt)
  show "wp True havoc_begin (andthen ?R Q) (s, l)"
    by (rule wp_havoc_begin [OF r p, unfolded pos]) auto
  fix st1
  assume "?R st1"
  then have "\<exists>m0. round_inv D (selected_cap (fst st1)) ?M ?p m0 (given l) st1 \<and> (0 < ?p \<longrightarrow> m0 \<le> 12 * ?p)" .
  then obtain m0 where i: "round_inv D (selected_cap (fst st1)) ?M ?p m0 (given l) st1" and m0: "0 < ?p \<longrightarrow> m0 \<le> 12 * ?p"
    by (elim exE conjE) (rule that)
  obtain s1 l1 where st1: "st1 = (s1, l1)" by (cases st1)
  let ?T = "\<lambda>st. round_inv D (selected_cap s1) ?M ?p m0 (given l) st \<and> (0 < ?p \<longrightarrow> unat (stage_max (fst st)) \<le> 24 * ?M)"
  show "wp True (steps [reading (\<lambda>(s, l). (mutation_array s, selected_cap s)) (\<lambda>(arr, cap).
       for_stage_cur (havoc_round w cfs arr cap)),
     reading (\<lambda>(s, l). if splice_cycle l = 0 then STAGE_HAVOC else STAGE_SPLICE) end_stage]) Q st1"
    unfolding st1
  proof (rule wp_seq [where R = ?T])
    show "wp True (reading (\<lambda>(s, l). (mutation_array s, selected_cap s)) (\<lambda>(arr, cap).
       for_stage_cur (havoc_round w cfs arr cap))) (andthen ?T Q) (s1, l1)"
      unfolding wp_reading prod.case
    proof (rule wp_havoc_loop [where D = D])
      show "round_inv D (selected_cap s1) ?M ?p m0 (given l) (s1, l1)" using i by (simp add: st1)
      show "andthen ?T Q f st" if "left_early D f st" for f st
        using that Q [OF that] by (auto simp: left_early_def)
    qed (use m0 in auto)
    fix st2
    assume T: "?T st2"
    obtain s2 l2 where st2: "st2 = (s2, l2)" by (cases st2)
    have hm: "havoc_max_mult s2 * 100 = havoc_max_mult s * 100"
      using T by (simp add: st2 round_inv_def budget_def word_unat_eq_iff)
    have g: "in_buf l2 = in_buf l" "orig_in l2 = orig_in l" "orig_perf l2 = orig_perf l" "splice_cycle l2 = splice_cycle l"
      using T by (simp_all add: st2 round_inv_def given_def)
    have "settled D s2" "mutable (in_buf l2)" "l_len l2 = length (in_buf l2)" "out_buf l2 = in_buf l2"
      using T by (simp_all add: st2 round_inv_def havoc_inv_def)
    then show "wp True (steps [reading (\<lambda>(s, l). if splice_cycle l = 0 then STAGE_HAVOC else STAGE_SPLICE) end_stage]) Q st2"
      unfolding st2 wp_single wp_reading wp_helpers
      by (intro Next) (use inv T g hm in \<open>auto simp: st2 tail_inv_def spliceable_def ready_def score_ok_def pos\<close>)
  qed
qed

end

section \<open>Splicing\<close>

lemma splice_inputs_ok:
  assumes "split_at \<le> length a" and "split_at \<le> n" and "n \<le> length b"
  shows "\<exists>c. splice_inputs a b split_at n = Some c \<and> length c = n \<and> take split_at c = take split_at a \<and>
    drop split_at c = take (n - split_at) b"
  using assms by (auto simp: splice_inputs_def min_def)

lemma wp_splice_onto:
  assumes s: "settled D s" and l: "l_len l \<le> length (in_buf l)" and n: "n \<le> length nb" "n \<le> MAX_FILE"
    and Retry: "Q Retry_splicing (s, l)"
    and Spliced: "\<And>s' c. havoc_frame s s' \<Longrightarrow> length c = n \<Longrightarrow>
      Q Custom_mutator_stage (s', l\<lparr>in_buf := c, out_buf := c, l_len := n\<rparr>)"
  shows "wp True (splice_onto w nb n) Q (s, l)"
proof -
  obtain fd ld where fl: "locate_diffs (in_buf l) nb (min (l_len l) n) = (fd, ld)" by fastforce
  show ?thesis
  proof (cases "fd < 0 \<or> ld < 2 \<or> fd = ld")
    case True
    then show ?thesis using Retry by (auto simp: wp_def splice_onto_def fl)
  next
    case False
    define d :: u32 where "d = of_int (ld - fd)"
    have onto: "splice_onto w nb n (s, l) = Option.bind (rand_below w d s) (\<lambda>(r, s).
        Some (case splice_inputs (in_buf l) nb (nat fd + unat r) n of
             None \<Rightarrow> (Invalid_access, s, l)
           | Some b \<Rightarrow> (Custom_mutator_stage, s, l\<lparr>in_buf := b, out_buf := b, l_len := n\<rparr>)))"
      using False by (simp add: splice_onto_def fl d_def)
    have b: "0 \<le> fd" "fd < ld" "ld < int (min (l_len l) n)"
      using locate_diffs_bounds(1) [OF fl] False by auto
    have "ld - fd < 2 ^ 32" using b n by (simp add: MAX_FILE_def)
    then have un: "unat d = nat (ld - fd)"
      using b unat_of_nat_small [of "nat (ld - fd)", where 'a = 32] by (simp add: d_def)
    have "\<exists>c. splice_inputs (in_buf l) nb (nat fd + unat r) n = Some c \<and>
        Q Custom_mutator_stage (s', l\<lparr>in_buf := c, out_buf := c, l_len := n\<rparr>)"
      if r: "rand_below w d s = Some (r, s')" for r s'
    proof -
      have "0 < d" using un b by (subst word_less_nat_alt) simp
      then have "unat r < nat (ld - fd)" using rand_below_less [OF r] un by (simp add: word_less_nat_alt)
      then have sp: "nat fd + unat r \<le> length (in_buf l)" "nat fd + unat r \<le> n"
        using b l by simp_all
      have fr: "havoc_frame s s'" using havoc_frame_rng [OF havoc_frame_refl] rand_below_result [OF r] by blast
      show ?thesis using splice_inputs_ok [OF sp n(1)] Spliced [OF fr] by auto
    qed
    then show ?thesis unfolding wp_def onto
      by (cases "rand_below w d s") fastforce+
  qed
qed

lemma wp_splice_attempt:
  assumes inv: "spliceable D (s, l)"
    and Retry: "\<And>s'. settled D s' \<Longrightarrow> havoc_max_mult s' = havoc_max_mult s \<Longrightarrow>
      Q Retry_splicing (s', l\<lparr>in_buf := orig_in l, l_len := unat (snd D)\<rparr>)"
    and Spliced: "\<And>s' b n. tail_inv D (s', l\<lparr>in_buf := b, out_buf := b, l_len := n\<rparr>) \<Longrightarrow>
      havoc_max_mult s' = havoc_max_mult s \<Longrightarrow>
      Q Custom_mutator_stage (s', l\<lparr>in_buf := b, out_buf := b, l_len := n\<rparr>)"
  shows "wp True (splice_attempt w) Q (s, l)"
proof -
  let ?l = "l\<lparr>in_buf := orig_in l, l_len := unat (snd D)\<rparr>"
  have s: "settled D s" and orig: "unat (snd D) \<le> length (orig_in l)"
    using inv by (simp_all add: spliceable_def)
  have cur: "q_len (entry s (queue_cur s)) = snd D" using s by (simp add: settled_def)
  have q: "queue_ok s" using s by (simp add: settled_def)
  have onto: "wp True (splice_onto w nb (unat (q_len (entry s tid)))) Q (s2, ?l)"
    if t: "splice_target w s = Some (tid, s1)" and g: "queue_testcase_get w tid (s1\<lparr>splicing_with := int tid\<rparr>) = Some (nb, s2)"
    for tid s1 nb s2
  proof -
    let ?s1 = "s1\<lparr>splicing_with := int tid\<rparr>"
    have tr: "tid < length (queue_buf s) \<and> 4 \<le> unat (q_len (entry s tid)) \<and> rng_only s s1"
      using splice_target_result [OF t] q by (simp add: queue_ok_def sources_ok_def)
    then have fr1: "havoc_frame s s1" by (blast intro: havoc_frame_rng)
    have same: "queue_buf s1 = queue_buf s" using tr by (auto simp: rng_only_def)
    then have e1: "entry ?s1 = entry s" by (simp add: entry_def fun_eq_iff)
    have q1: "settled D ?s1" using settled_frame [OF fr1 s] by simp
    have gr: "cache_frame ?s1 s2 \<and> (entries_ok ?s1 \<longrightarrow> unat (q_len (entry ?s1 tid)) \<le> length nb)"
      by (rule queue_testcase_get_result [OF g]) (use tr same in simp)
    have fr2: "havoc_frame ?s1 s2" using gr havoc_frame_cache [OF havoc_frame_refl] by blast
    have s2: "settled D s2" by (rule settled_frame [OF fr2 q1])
    have hm2: "havoc_max_mult s2 = havoc_max_mult s"
      using fr1 fr2 by (simp add: havoc_frame_def stage_frame_def)
    have n: "unat (q_len (entry s tid)) \<le> length nb"
      using gr q1 e1 by (simp add: settled_def queue_ok_def sources_ok_def)
    have m: "unat (q_len (entry s tid)) \<le> MAX_FILE"
      using tr q by (simp add: queue_ok_def sizes_ok_def entry_def)
    show ?thesis
    proof (rule wp_splice_onto [OF s2 _ n m])
      show "Q Retry_splicing (s2, ?l)" by (rule Retry [OF s2 hm2])
      fix s3 and c :: buf
      assume fr3: "havoc_frame s2 s3" and c: "length c = unat (q_len (entry s tid))"
      have hm3: "havoc_max_mult s3 = havoc_max_mult s" using fr3 hm2 by (simp add: havoc_frame_def stage_frame_def)
      have "tail_inv D (s3, l\<lparr>in_buf := c, out_buf := c, l_len := unat (q_len (entry s tid))\<rparr>)"
        using inv settled_frame [OF fr3 s2] c m tr hm3 by (auto simp: tail_inv_def spliceable_def ready_def mutable_def score_ok_def)
      from Spliced [OF this hm3]
      show "Q Custom_mutator_stage (s3, ?l\<lparr>in_buf := c, out_buf := c, l_len := unat (q_len (entry s tid))\<rparr>)" by simp
    qed (use orig in simp)
  qed
  have "Q f st" if run: "splice_attempt w (s, l) = Some (f, st)" for f st
  proof -
    obtain tid s1 where t: "splice_target w s = Some (tid, s1)"
      using run by (auto simp: splice_attempt_def Let_def Option.bind_eq_Some_conv)
    obtain nb s2 where g: "queue_testcase_get w tid (s1\<lparr>splicing_with := int tid\<rparr>) = Some (nb, s2)"
      using run by (auto simp: splice_attempt_def Let_def t Option.bind_eq_Some_conv)
    have o: "splice_onto w nb (unat (q_len (entry (s1\<lparr>splicing_with := int tid\<rparr>) tid))) (s2, ?l) = Some (f, st)"
      using run cur by (simp add: splice_attempt_def Let_def t g)
    have "entry (s1\<lparr>splicing_with := int tid\<rparr>) = entry s"
      using splice_target_result [OF t] q by (auto simp: queue_ok_def sources_ok_def rng_only_def entry_def fun_eq_iff)
    then show ?thesis using wp_result [OF onto [OF t g], of f st] o by simp
  qed
  then show ?thesis by (cases "splice_attempt w (s, l)") (auto simp: wp_def)
qed

lemma wp_retry_splicing:
  assumes inv: "spliceable D (s, l)" and c: "splice_cycle l \<le> SPLICE_CYCLES"
    and Next: "\<And>s' l'. settled D s' \<Longrightarrow> Q Next (s', l')"
    and Spliced: "\<And>s' l'. tail_inv D (s', l') \<Longrightarrow> splice_cycle l < splice_cycle l' \<Longrightarrow>
      splice_cycle l' \<le> SPLICE_CYCLES \<Longrightarrow> Q Custom_mutator_stage (s', l')"
  shows "wp True (retry_splicing w) Q (s, l)"
  unfolding retry_splicing_def
proof (rule wp_loop_on [where I = "\<lambda>(s', l'). spliceable D (s', l') \<and> splice_cycle l \<le> splice_cycle l' \<and>
    splice_cycle l' \<le> SPLICE_CYCLES" and m = "\<lambda>st. 15 - unat (splice_cycle (snd st))"])
  show "case (s, l) of (s', l') \<Rightarrow> spliceable D (s', l') \<and> splice_cycle l \<le> splice_cycle l' \<and>
    splice_cycle l' \<le> SPLICE_CYCLES"
    using inv c by simp
  fix st
  assume I: "case st of (s', l') \<Rightarrow> spliceable D (s', l') \<and> splice_cycle l \<le> splice_cycle l' \<and>
    splice_cycle l' \<le> SPLICE_CYCLES"
  obtain s1 l1 where st: "st = (s1, l1)" by (cases st)
  let ?l = "l1\<lparr>splice_cycle := splice_cycle l1 + 1\<rparr>"
  let ?Q = "\<lambda>f s'. if f = Retry_splicing
       then (case s' of (s', l') \<Rightarrow> spliceable D (s', l') \<and> splice_cycle l \<le> splice_cycle l' \<and>
           splice_cycle l' \<le> SPLICE_CYCLES) \<and> 15 - unat (splice_cycle (snd s')) < 15 - unat (splice_cycle (snd (s1, l1)))
       else Q f s'"
  have sp: "spliceable D (s1, ?l)" "settled D s1" using I by (simp_all add: st spliceable_def)
  have up: "unat (splice_cycle l1 + 1) = Suc (unat (splice_cycle l1))" "unat (splice_cycle l) \<le> unat (splice_cycle l1)"
    using I by (simp_all add: st SPLICE_CYCLES_def word_le_nat_alt unat_word_ariths)
  have "wp True (cond may_splice (splice_attempt w) skip) ?Q (s1, ?l)"
  proof (cases "may_splice (s1, ?l)")
    case True
    then have le: "splice_cycle l1 + 1 \<le> SPLICE_CYCLES" by (simp add: may_splice_def)
    then have m: "15 - unat (splice_cycle l1 + 1) < 15 - unat (splice_cycle l1)"
      using up by (simp add: SPLICE_CYCLES_def word_le_nat_alt)
    have lt: "splice_cycle l < splice_cycle l1 + 1" using up by (simp add: word_less_nat_alt)
    have "wp True (splice_attempt w) ?Q (s1, ?l)"
    proof (rule wp_splice_attempt [OF sp(1)])
      fix s' assume "settled D s'" "havoc_max_mult s' = havoc_max_mult s1"
      then show "?Q Retry_splicing (s', ?l\<lparr>in_buf := orig_in ?l, l_len := unat (snd D)\<rparr>)"
        using sp lt le m by (simp add: spliceable_def score_ok_def)
    next
      fix s' b n
      assume "tail_inv D (s', ?l\<lparr>in_buf := b, out_buf := b, l_len := n\<rparr>)"
      from Spliced [OF this] show "?Q Custom_mutator_stage (s', ?l\<lparr>in_buf := b, out_buf := b, l_len := n\<rparr>)"
        using lt le by simp
    qed
    then show ?thesis using True by simp
  next
    case False
    then show ?thesis using Next [OF sp(2)] by simp
  qed
  then have loop: "wp True (steps [on_loc (\<lambda>l. l\<lparr>splice_cycle := splice_cycle l + 1\<rparr>), cond may_splice (splice_attempt w) skip]) ?Q (s1, l1)"
    by (simp only: wp_Cons wp_helpers andthen_simps wp_single)
  show "wp True (cond (\<lambda>(s, l). use_splicing s)
       (steps [on_loc (\<lambda>l. l\<lparr>splice_cycle := splice_cycle l + 1\<rparr>), cond may_splice (splice_attempt w) skip]) skip)
     (\<lambda>f s'. if f = Retry_splicing
       then (case s' of (s', l') \<Rightarrow> spliceable D (s', l') \<and> splice_cycle l \<le> splice_cycle l' \<and>
           splice_cycle l' \<le> SPLICE_CYCLES) \<and> 15 - unat (splice_cycle (snd s')) < 15 - unat (splice_cycle (snd st))
       else Q f s') st"
  proof (cases "use_splicing s1")
    case True
    show ?thesis using loop by (simp only: st wp_cond prod.case True if_True)
  next
    case False
    then show ?thesis using Next [OF sp(2)] by (simp add: st)
  qed
qed

context havoc_runner
begin

lemma wp_havoc_and_splice:
  assumes inv: "tail_inv D (s, l)" and p: "score_ok s (start_score l)" and c: "splice_cycle l \<le> SPLICE_CYCLES"
    and Q: "\<And>f st. left_early D f st \<Longrightarrow> Q f st"
    and Next: "\<And>s' l'. settled D s' \<Longrightarrow> Q Next (s', l')"
  shows "wp True (havoc_and_splice w cfs) Q (s, l)"
  unfolding havoc_and_splice_def
proof (rule wp_loop_on [where I = "\<lambda>(s, l). tail_inv D (s, l) \<and> score_ok s (start_score l) \<and>
      splice_cycle l \<le> SPLICE_CYCLES" and m = "\<lambda>st. 15 - unat (splice_cycle (snd st))"])
  show "case (s, l) of (s, l) \<Rightarrow> tail_inv D (s, l) \<and> score_ok s (start_score l) \<and> splice_cycle l \<le> SPLICE_CYCLES"
    using inv p c by simp
  fix st
  assume I: "case st of (s, l) \<Rightarrow> tail_inv D (s, l) \<and> score_ok s (start_score l) \<and> splice_cycle l \<le> SPLICE_CYCLES"
  obtain s0 l0 where st: "st = (s0, l0)" by (cases st)
  let ?Q = "\<lambda>f st'. if f = Custom_mutator_stage
      then (case st' of (s, l) \<Rightarrow> tail_inv D (s, l) \<and> score_ok s (start_score l) \<and> splice_cycle l \<le> SPLICE_CYCLES) \<and>
        15 - unat (splice_cycle (snd st')) < 15 - unat (splice_cycle (snd st))
      else Q f st'"
  show "wp True (steps [havoc_stage w cfs, retry_splicing w]) ?Q st"
    unfolding st
  proof (rule wp_seq [where R = "\<lambda>st'. tail_inv D st' \<and> splice_cycle (snd st') = splice_cycle l0"])
    show "wp True (havoc_stage w cfs)
       (andthen (\<lambda>st'. tail_inv D st' \<and> splice_cycle (snd st') = splice_cycle l0)
         (\<lambda>f st'. if f = Custom_mutator_stage
      then (case st' of (s, l) \<Rightarrow> tail_inv D (s, l) \<and> score_ok s (start_score l) \<and> splice_cycle l \<le> SPLICE_CYCLES) \<and>
        15 - unat (splice_cycle (snd st')) < 15 - unat (splice_cycle (snd (s0, l0)))
      else Q f st')) (s0, l0)"
      by (rule wp_havoc_stage [where D = D]) (use I Q in \<open>auto simp: st left_early_def\<close>)
    fix st1
    assume T: "tail_inv D st1 \<and> splice_cycle (snd st1) = splice_cycle l0"
    obtain s1 l1 where st1: "st1 = (s1, l1)" by (cases st1)
    have "wp True (retry_splicing w) ?Q (s1, l1)"
    proof (rule wp_retry_splicing [where D = D])
      fix s' l'
      assume t: "tail_inv D (s', l')" and lt: "splice_cycle l1 < splice_cycle l'" and le: "splice_cycle l' \<le> SPLICE_CYCLES"
      have "start_score l' = orig_perf l'" using lt by (auto simp: start_score_def)
      then have "score_ok s' (start_score l')" using t by (simp add: tail_inv_def spliceable_def)
      then show "?Q Custom_mutator_stage (s', l')" using t lt le T
        by (simp add: st st1 SPLICE_CYCLES_def word_le_nat_alt word_less_nat_alt)
    qed (use T I Next in \<open>auto simp: st st1 tail_inv_def\<close>)
    then show "wp True (steps [retry_splicing w]) (\<lambda>f st'. if f = Custom_mutator_stage
      then (case st' of (s, l) \<Rightarrow> tail_inv D (s, l) \<and> score_ok s (start_score l) \<and> splice_cycle l \<le> SPLICE_CYCLES) \<and>
        15 - unat (splice_cycle (snd st')) < 15 - unat (splice_cycle (snd (s0, l0)))
      else Q f st') st1" by (simp only: st st1 wp_single)
  qed
qed

end

end
