(* ===== verification/Campaign.thy ===== *)
theory Campaign
  imports Run Havoc
begin

text \<open>
  Running inputs keeps the queue sound: what \<^verbatim>\<open>common_fuzz_stuff\<close>
  (\<^verbatim>\<open>src/afl-fuzz-run.c\<close>) does to the queue, through calibration and
  \<^verbatim>\<open>save_if_interesting\<close>, and with it the interface the havoc stage needs.
\<close>

section \<open>Steps that leave the entries' inputs alone\<close>

lemma shape_classify_counts [simp]: "shape (classify_counts s) = shape s"
  by (simp add: classify_counts_def)

lemma shape_has_new_bits [simp]: "shape (snd (has_new_bits vm s)) = shape s"
  by (cases vm) (auto simp: has_new_bits_def Let_def split: prod.splits)

lemma shape_has_new_bits_unclassified [simp]: "shape (snd (has_new_bits_unclassified vm s)) = shape s"
  by (simp add: has_new_bits_unclassified_def)

lemma shape_write [simp]: "shape (snd (write_to_testcase m k fix s)) = shape s"
  by (simp add: write_to_testcase_def Let_def)

lemma shape_run [simp]: "shape (snd (fuzz_run_target w tm s)) = shape s"
  by (simp add: fuzz_run_target_def Let_def)

lemma shape_contest [simp]: "shape (contest q p2 fav i s) = shape s"
  by (simp add: contest_def win_byte_def drop_ref_def Let_def split: option.split)

lemma shape_update_bitmap_score [simp]: "shape (update_bitmap_score q s) = shape s"
proof -
  have "shape (fold (contest q p2 fav) is s) = shape s" for p2 fav "is" s
    by (induction "is" arbitrary: s) simp_all
  then show ?thesis by (simp add: update_bitmap_score_def)
qed

lemma shape_mark_as_variable [simp]: "shape (mark_as_variable q s) = shape s"
  by (simp add: mark_as_variable_def)

lemma shape_mark_variable_bytes [simp]: "shape (fold mark_variable_byte is s) = shape s"
  by (induction "is" arbitrary: s) (simp_all add: mark_variable_byte_def)

lemma shape_count_path [simp]: "shape (snd (count_path w s)) = shape s"
  by (simp add: count_path_def Let_def)

lemma shape_unique_in [simp]: "shape (fst (snd (unique_in vm (s, v)))) = shape s"
  by (simp add: unique_in_def Let_def split: prod.split)
     (metis shape_classify_counts shape_has_new_bits shape_simps(1) snd_conv)

section \<open>Calibration\<close>

abbreviation has_shape :: "nat \<times> u32 \<times> u32 \<times> u64 \<times> q_shape list \<Rightarrow> afl \<times> 'b \<Rightarrow> bool" where
  "has_shape X st \<equiv> shape (fst st) = X"

lemma keeps_shape_note_new_bits [simp]: "keeps_inv (has_shape X) note_new_bits"
  by (auto simp: note_new_bits_def Let_def split: prod.split) (metis shape_has_new_bits snd_conv)

lemma keeps_shape_cal_execute [simp]: "keeps_inv (has_shape X) (cal_execute w q m)"
proof -
  have "shape s' = shape s" if "fuzz_run_target w tm s = (f, s')" for tm s f s'
    using shape_run [of w tm s] that by simp
  then show ?thesis
    by (auto simp: cal_execute_def Let_def update_calibration_time_def get_cur_time_us_def split: prod.split)
qed

lemma keeps_shape_cal [simp]:
  "keeps_inv (has_shape X) cal_verdict" "keeps_inv (has_shape X) cal_unstable"
  "keeps_inv (has_shape X) (cal_first q ck)" "keeps_inv (has_shape X) skip"
  by (auto simp: cal_verdict_def cal_unstable_def cal_first_def skip_def Let_def)

lemma keeps_shape_cal_body [simp]: "keeps_inv (has_shape X) (cal_body w q m)"
  by (auto simp: cal_body_def cal_compare_def)

lemma keeps_shape_cal_finish [simp]: "keeps_inv (has_shape X) (cal_finish w q h b)"
  by (auto simp: cal_finish_def Let_def intro!: keeps_inv_Cons keeps_inv_reading keeps_inv_cond)

lemma keeps_shape_cal_loop [simp]: "keeps_inv (has_shape X) (cal_loop w q m)"
  by (auto simp: cal_loop_def Let_def get_cur_time_us_def)

lemma shape_cal_abort [simp]: "shape (fst (cal_abort w q (s, l))) = shape s"
  by (simp add: cal_abort_def Let_def)

lemma shape_calibrate_case:
  assumes "calibrate_case w q m h b s = Some (f, res, s')"
  shows "shape s' = shape s"
proof -
  let ?body = "steps [cond (\<lambda>(s, l). exec_cksum (entry s q) \<noteq> 0)
               (steps [upd (\<lambda>(s, l). (s\<lparr>first_trace := trace_bits s\<rparr>, l)), note_new_bits]) skip,
             cal_loop w q m, cal_finish w q h (exec_cksum (entry s q) = 0)]"
  have k: "keeps_inv (has_shape (shape s)) ?body" by auto
  have "shape (fst (cal_start w q b s)) = shape s"
    by (simp add: cal_start_def Let_def get_cur_time_us_def)
  then have st: "has_shape (shape s) (snd r)" if "?body (cal_start w q b s) = Some r" for r
    using keeps_inv_result [OF k, of "cal_start w q b s" "fst r" "snd r"] that by simp
  obtain r where r: "?body (cal_start w q b s) = Some r"
    using assms by (auto simp: calibrate_case_def Let_def)
  obtain f1 s1 l1 where r1: "r = (f1, s1, l1)" by (cases r)
  obtain s2 l2 where ab: "cal_abort w q (s1, l1) = (s2, l2)" by (cases "cal_abort w q (s1, l1)")
  have "shape s2 = shape s" using shape_cal_abort [of w q s1 l1] ab st [OF r] r1 by simp
  then show ?thesis
    using assms st [OF r]
    by (auto simp: calibrate_case_def Let_def r r1 ab update_calibration_time_def get_cur_time_us_def split: if_splits)
qed

section \<open>The queue only grows, and stays sound\<close>

definition grows :: "'a queue_state_scheme \<Rightarrow> 'a queue_state_scheme \<Rightarrow> bool" where
  "grows s s' \<longleftrightarrow> length (queue_buf s) \<le> length (queue_buf s') \<and>
     (\<forall>q < length (queue_buf s). q_kept (entry s' q) = q_kept (entry s q)) \<and> (queue_inv s \<longrightarrow> queue_inv s')"

lemma grows_refl [simp, intro]: "grows s s"
  by (simp add: grows_def)

lemma grows_trans [trans]: "grows a b \<Longrightarrow> grows b c \<Longrightarrow> grows a c"
  by (auto simp: grows_def)

lemma grows_shape:
  assumes "shape s' = shape s"
  shows "grows s s'"
proof -
  have m: "map q_shape (queue_buf s') = map q_shape (queue_buf s)" using assms by (simp add: shape_def)
  then have len: "length (queue_buf s') = length (queue_buf s)" by (metis length_map)
  have "q_shape (entry s' q) = q_shape (entry s q)" if "q < length (queue_buf s)" for q
    using that len m by (metis entry_def nth_map)
  then show ?thesis using len queue_inv_shape [OF assms] by (auto simp: grows_def q_shape_def)
qed

lemma grows_cache:
  assumes "cache_frame s s'"
  shows "grows s s'"
proof -
  note c = cache_frameD [OF assms]
  have kept: "q_kept (queue_buf s' ! i) = q_kept (queue_buf s ! i)" if "i < length (queue_buf s)" for i
    using cache_frame_kept [OF assms that] by (simp add: entry_def)
  then have len: "q_len (queue_buf s' ! i) = q_len (queue_buf s ! i)" if "i < length (queue_buf s)" for i
    using that by (auto simp: q_kept_def)
  have "sizes_ok s'" if "sizes_ok s"
    using that len c(1) by (auto simp: sizes_ok_def in_set_conv_nth) (metis nth_mem)+
  moreover have "queued_items s' = queued_items s" using assms by (cases s; cases s') (simp add: cache_frame_def)
  moreover have "queue_buf s' \<noteq> []" if "queue_buf s \<noteq> []" using that c(1) by (metis length_0_conv)
  ultimately show ?thesis using c kept by (auto simp: grows_def queue_inv_def entry_def)
qed

text \<open>A new entry is sound when its file holds the bytes its length promises.\<close>

lemma grows_add_to_queue:
  assumes "n \<le> length file" and "n \<le> MAX_FILE" and "0 < n"
  shows "grows s (add_to_queue w file n p s)"
proof -
  let ?s = "add_to_queue w file n p s"
  have un: "unat (of_nat n :: u32) = n" by (rule unat_of_nat_small) (use assms(2) in \<open>simp add: MAX_FILE_def\<close>)
  have pos: "0 < (of_nat n :: u32)" using un assms(3) by (metis unat_gt_0 word_gt_0 of_nat_0 unat_eq_zero neq0_conv)
  have q: "queued_items ?s = queued_items s + 1" by (simp add: add_to_queue_def Let_def get_cur_time_def)
  have c: "q_testcase_max_cache_size ?s = q_testcase_max_cache_size s" by (simp add: add_to_queue_def Let_def get_cur_time_def)
  have "unat (queued_items s + 1) \<le> Suc (unat (queued_items s))" by (simp add: unat_word_ariths)
  then show ?thesis using assms un pos
    by (auto simp: grows_def queue_inv_def entries_ok_def sizes_ok_def entry_ok_def new_entry_def entry_def q c nth_append)
qed

lemma shape_upd_top [simp]: "(\<And>e. q_shape (f e) = q_shape e) \<Longrightarrow> shape (upd_top f s) = shape s"
  by (simp add: upd_top_def)

lemma grows_enqueue:
  assumes "v_len v \<le> length mem" and "v_len v \<le> MAX_FILE" and "0 < v_len v"
  shows "grows s (fst (enqueue w mem (s, v)))"
proof -
  have "grows s (add_to_queue w (take (v_len v) mem) (v_len v) False s)"
    by (rule grows_add_to_queue) (use assms in simp_all)
  also have "grows (add_to_queue w (take (v_len v) mem) (v_len v) False s) (fst (enqueue w mem (s, v)))"
    by (rule grows_shape) (simp add: enqueue_def Let_def)
  finally show ?thesis .
qed

lemma grows_save_to_queue:
  assumes save: "save_to_queue w mem (s, v) = Some (a, s', v')" and len: "v_len v \<le> length mem" "v_len v \<le> MAX_FILE" "0 < v_len v"
  shows "grows s s' \<and> v_len v' = v_len v"
proof -
  obtain s1 v1 where en: "enqueue w mem (s, v) = (s1, v1)" by (cases "enqueue w mem (s, v)")
  have v1: "v_len v1 = v_len v" using enqueue_frame(2) [of w mem s v] by (simp add: en)
  obtain f res s2 where cal: "calibrate_case w (queue_top s1) mem (ucast (queue_cycle s1 - 1)) False s1 = Some (f, res, s2)"
    using save by (auto simp: save_to_queue_def en)
  have g1: "grows s s1" using grows_enqueue [OF len, of s w] by (simp add: en)
  have sh: "shape s2 = shape s1" by (rule shape_calibrate_case [OF cal])
  note g2 = grows_trans [OF g1 grows_shape [OF sh]]
  have top: "queue_top s2 = queue_top s1" "map q_shape (queue_buf s2) = map q_shape (queue_buf s1)"
    using sh by (simp_all add: shape_def)
  have "q_len (entry s1 (queue_top s1)) = of_nat (v_len v)"
    using enqueue_len [of w mem s v] by (simp add: en)
  then have "unat (q_len (entry s2 (queue_top s2))) \<le> length mem" if "queue_top s2 < length (queue_buf s2)"
  proof -
    have "q_shape (entry s2 (queue_top s2)) = q_shape (entry s1 (queue_top s1))"
      using that top by (metis entry_def length_map nth_map)
    then have "unat (q_len (entry s2 (queue_top s2))) = unat (of_nat (v_len v) :: u32)"
      using \<open>q_len (entry s1 _) = _\<close> by (simp add: q_shape_def q_kept_def)
    also have "\<dots> \<le> v_len v" by (simp add: unat_of_nat)
    finally show ?thesis using len(1) by simp
  qed
  then have "cache_frame s2 (queue_testcase_store_mem (queue_top s2) mem s2)" by (rule store_mem_frame)
  then have "grows s (queue_testcase_store_mem (queue_top s2) mem s2)" using g2 grows_cache grows_trans by blast
  then show ?thesis using save g2 v1 top(1) by (auto simp: save_to_queue_def en cal split: if_splits)
qed

section \<open>Running an input\<close>

definition save_sound :: "nat \<Rightarrow> buf \<Rightarrow> afl \<Rightarrow> vstate \<Rightarrow> bool" where
  "save_sound n mem s0 st \<longleftrightarrow> grows s0 (fst st) \<and> v_len (snd st) = n \<and> length_ok n (fst st)"

lemma save_sound_shape:
  assumes "save_sound n mem s0 (s, v)" and "shape s' = shape s" and "stage_frame s s'" and "v_len v' = v_len v"
  shows "save_sound n mem s0 (s', v')"
  using assms grows_trans [OF _ grows_shape [OF assms(2)]] length_ok_frame [OF assms(3)]
  by (auto simp: save_sound_def)

lemma save_sound_unique_in:
  assumes "save_sound n mem s0 (s, v)"
  shows "save_sound n mem s0 (snd (unique_in vm (s, v)))"
proof -
  have "v_len (snd (snd (unique_in vm (s, v)))) = v_len v"
    by (simp add: unique_in_def Let_def split: prod.split)
  moreover have "stage_frame s (fst (snd (unique_in vm (s, v))))"
    using quiet_unique_in [of s vm s v] by (simp add: quiet_def)
  ultimately show ?thesis
    using save_sound_shape [OF assms] shape_unique_in [of vm s v] by (metis prod.collapse)
qed

lemma save_sound_rerun_hang:
  assumes ok: "save_sound n mem s0 (s, v)"
  shows "save_sound n mem s0 (snd (rerun_hang w mem (s, v)))"
proof -
  have l: "length_ok n s" "v_len v = n" using ok by (simp_all add: save_sound_def)
  obtain s1 where w1: "write_to_testcase mem (v_len v) False s = (n, s1)"
    using fst_write [OF l(1), of mem False] l(2) by (metis prod.collapse)
  have n: "n \<noteq> 0" using l by (simp add: length_ok_def)
  obtain f s2 where run: "fuzz_run_target w (hang_tmout s1) s1 = (f, s2)"
    by (cases "fuzz_run_target w (hang_tmout s1) s1")
  have sh: "shape s1 = shape s" "shape s2 = shape s1"
    using shape_write [of mem "v_len v" False s] shape_run [of w "hang_tmout s1" s1] by (simp_all add: w1 run)
  have fr: "stage_frame s s2"
    using w1 run by (auto simp: write_to_testcase_def fuzz_run_target_def Let_def stage_frame_def)
  have q: "save_sound n mem s0 (s', v\<lparr>v_len := n\<rparr>)" if "shape s' = shape s2" "stage_frame s2 s'" for s'
    by (rule save_sound_shape [OF ok]) (use sh that l stage_frame_trans [OF fr] in simp_all)
  have c: "stage_frame s2 (classify_counts s2)" by (simp add: classify_counts_def stage_frame_def)
  then have "stage_frame s2 ((classify_counts s2)\<lparr>saved_tmouts := x\<rparr>)" for x by (simp add: stage_frame_def)
  then show ?thesis using n q c by (simp add: rerun_hang_def w1 run Let_def)
qed

lemma save_sound_case_crash:
  assumes "save_sound n mem s0 st"
  shows "save_sound n mem s0 (snd (case_crash st))"
proof -
  obtain s v where st: "st = (s, v)" by (cases st)
  let ?s = "s\<lparr>total_crashes := total_crashes s + 1\<rparr>"
  have ok: "save_sound n mem s0 (?s, v)"
    by (rule save_sound_shape [OF assms [unfolded st]]) (simp_all add: stage_frame_def)
  obtain b s1 v1 where u: "unique_in Virgin_crash (?s, v) = (b, s1, v1)"
    by (cases "unique_in Virgin_crash (?s, v)")
  show ?thesis
    using ok save_sound_unique_in [OF ok, of Virgin_crash] by (simp add: st case_crash_def u Let_def)
qed

lemma save_sound_switch_fault:
  assumes "save_sound n mem s0 st"
  shows "save_sound n mem s0 (snd (switch_fault w mem fault st))"
proof -
  obtain s v where st: "st = (s, v)" by (cases st)
  let ?s = "s\<lparr>total_tmouts := total_tmouts s + 1\<rparr>"
  have ok: "save_sound n mem s0 (?s, v)"
    by (rule save_sound_shape [OF assms [unfolded st]]) (simp_all add: stage_frame_def)
  obtain b s1 v1 where u: "unique_in Virgin_tmout (?s, v) = (b, s1, v1)"
    by (cases "unique_in Virgin_tmout (?s, v)")
  have ok1: "save_sound n mem s0 (s1, v1)" using save_sound_unique_in [OF ok, of Virgin_tmout] by (simp add: u)
  have "save_sound n mem s0 (snd (case_tmout w mem st))"
    using ok ok1 save_sound_rerun_hang [OF ok1, of w] by (simp add: st case_tmout_def u Let_def)
  moreover obtain x st1 where "case_tmout w mem st = (x, st1)" by (cases "case_tmout w mem st")
  ultimately show ?thesis
    using assms save_sound_case_crash by (cases fault) (simp_all add: switch_fault_def)
qed

lemma grows_save_end:
  assumes "save_sound n mem s0 st"
  shows "grows s0 (if x = Save_hang then save_hang w mem st
             else if x = Save_crash then save_crash w mem st else fst st)"
proof -
  obtain s v where st: "st = (s, v)" by (cases st)
  have "shape (save_hang w mem (s, v)) = shape s" "shape (save_crash w mem (s, v)) = shape s"
    by (simp_all add: save_hang_def save_crash_def get_cur_time_def Let_def)
  from this [THEN grows_shape] have "grows s (save_hang w mem (s, v))" "grows s (save_crash w mem (s, v))" .
  then show ?thesis using assms grows_trans [of s0 s] by (simp add: st save_sound_def)
qed

lemma save_sound_save_to_queue:
  assumes ok: "save_sound n mem s0 st" and save: "save_to_queue w mem st = Some (a, st')"
    and n: "n \<le> length mem" "n \<le> MAX_FILE"
  shows "save_sound n mem s0 st'"
proof -
  obtain s v where st: "st = (s, v)" by (cases st)
  obtain s' v' where st': "st' = (s', v')" by (cases st')
  have v: "v_len v = n" using ok by (simp add: st save_sound_def)
  have "0 < n" using ok by (simp add: save_sound_def length_ok_def)
  note g = grows_save_to_queue [OF save [unfolded st st'], unfolded v, OF n this]
  have "save_ok n mem s (s, v)" by (simp add: save_ok_def v)
  then obtain a' st2 where "save_to_queue w mem (s, v) = Some (a', st2)" "save_ok n mem s st2"
    using save_to_queue_returns by blast
  then have "stage_frame s s'" using save by (simp add: st st' save_ok_def run_frame_def)
  then show ?thesis using ok g grows_trans length_ok_frame by (auto simp: st st' save_sound_def)
qed

lemma switch_loop_grows:
  assumes res: "switch_loop w mem fault st = Some r" and ok: "save_sound n mem s0 st"
    and n: "n \<le> length mem" "n \<le> MAX_FILE"
  shows "grows s0 (snd (snd r))"
proof -
  have "mem = mem \<and> save_sound n mem s0 st \<longrightarrow> grows s0 (snd (snd r))"
  proof (rule switch_loop.raw_induct
      [where P = "\<lambda>w' mem' fault' st r. mem' = mem \<and> save_sound n mem s0 st \<longrightarrow> grows s0 (snd (snd r))", OF _ res],
      intro impI, elim conjE)
    fix loop w' mem' fault' st r
    assume IH: "\<And>w' mem' fault' st r. loop w' mem' fault' st = Some r \<Longrightarrow>
        mem' = mem \<and> save_sound n mem s0 st \<longrightarrow> grows s0 (snd (snd r))"
      and run: "(let (x, st) = switch_fault w' mem' fault' st in
        if x = Goto_save_to_queue
        then Option.bind (save_to_queue w' mem' st) (\<lambda>(alive, st).
               if alive then loop w' mem' fault' st else Some (False, 0, fst st))
        else Some (x \<noteq> Die, v_keeping (snd st),
               if x = Save_hang then save_hang w' mem' st
               else if x = Save_crash then save_crash w' mem' st else fst st)) = Some r"
      and m: "mem' = mem" and ok: "save_sound n mem s0 st"
    obtain x st1 where sf: "switch_fault w' mem fault' st = (x, st1)" by (cases "switch_fault w' mem fault' st")
    have ok1: "save_sound n mem s0 st1" using save_sound_switch_fault [OF ok, of w' fault'] sf by simp
    show "grows s0 (snd (snd r))"
    proof (cases "x = Goto_save_to_queue")
      case True
      then obtain b st2 where sq: "save_to_queue w' mem st1 = Some (b, st2)"
        using run sf m by (auto simp: Option.bind_eq_Some_conv)
      have ok2: "save_sound n mem s0 st2" by (rule save_sound_save_to_queue [OF ok1 sq n])
      have "r = (False, 0, fst st2) \<or> loop w' mem fault' st2 = Some r" using run True sf sq m by (cases b) simp_all
      then show ?thesis
      proof
        assume "loop w' mem fault' st2 = Some r"
        from IH [OF this] ok2 show ?thesis by simp
      qed (use ok2 in \<open>simp add: save_sound_def\<close>)
    next
      case False
      then have "r = (x \<noteq> Die, v_keeping (snd st1), if x = Save_hang then save_hang w' mem st1
             else if x = Save_crash then save_crash w' mem st1 else fst st1)"
        using run sf m by auto
      then show ?thesis using grows_save_end [OF ok1] by simp
    qed
  qed
  then show ?thesis using ok by blast
qed

text \<open>So does \<open>save_if_interesting\<close>, and with it the whole run.\<close>

lemma save_if_interesting_grows:
  assumes res: "save_if_interesting w mem n fault s = Some r" and ok: "length_ok n s" and n: "n \<le> length mem" "n \<le> MAX_FILE"
  shows "grows s (snd (snd r))"
proof -
  define v where "v = \<lparr>v_len = n, v_new_bits = 0, v_keeping = 0, v_classified = counts_paths s,
                    v_need_hash = \<not> counts_paths s, v_cksum = 0\<rparr>"
  obtain ck s1 where c: "(if counts_paths s then count_path w s else (0, s)) = (ck, s1)"
    by (cases "if counts_paths s then count_path w s else (0, s)")
  obtain nb s2 where h: "(if counts_paths s then has_new_bits Virgin_bits s1
      else has_new_bits_unclassified Virgin_bits s1) = (nb, s2)"
    by (cases "if counts_paths s then has_new_bits Virgin_bits s1 else has_new_bits_unclassified Virgin_bits s1")
  have "shape (snd (if counts_paths s then count_path w s else (0, s))) = shape s"
    "quiet s (snd (if counts_paths s then count_path w s else (0, s)))" by simp_all
  then have q1: "shape s1 = shape s" "stage_frame s s1" by (simp_all add: c quiet_def)
  have "shape (snd (if counts_paths s then has_new_bits Virgin_bits s1 else has_new_bits_unclassified Virgin_bits s1)) = shape s1"
    "quiet s1 (snd (if counts_paths s then has_new_bits Virgin_bits s1 else has_new_bits_unclassified Virgin_bits s1))"
    by simp_all
  then have q2: "shape s2 = shape s" "stage_frame s s2" using q1 stage_frame_trans by (auto simp: h quiet_def)
  let ?v = "v\<lparr>v_cksum := ck\<rparr>"
  have eq: "save_if_interesting w mem n fault s =
     (if n = 0 then Some (True, 0, s)
      else if fault = FSRV_RUN_TMOUT \<and> ignore_timeouts s
      then Some (True, 0, if counts_paths s then snd (count_path w s) else s)
      else if fault = crash_mode s1
      then if nb = 0 then Some (True, 0, if crash_mode s2 \<noteq> FSRV_RUN_OK
                                          then s2\<lparr>total_crashes := total_crashes s2 + 1\<rparr> else s2)
           else Option.bind (save_to_queue w mem (s2, ?v\<lparr>v_new_bits := nb, v_classified := True\<rparr>))
                             (\<lambda>(alive, st). if alive then switch_loop w mem fault st else Some (False, 0, fst st))
      else switch_loop w mem fault (s1, ?v))"
    by (simp only: save_if_interesting_def Let_def c prod.case h v_def save_locals.update_convs)
  have start: "save_sound n mem s (s', v')" if "shape s' = shape s" "stage_frame s s'" "v_len v' = n" for s' v'
    by (rule save_sound_shape [where s = s and v = v]) (use ok that in \<open>simp_all add: save_sound_def v_def\<close>)
  consider (quietly) "shape (snd (snd r)) = shape s"
    | (queued) a st where "save_to_queue w mem (s2, ?v\<lparr>v_new_bits := nb, v_classified := True\<rparr>) = Some (a, st)"
        "r = (False, 0, fst st) \<or> switch_loop w mem fault st = Some r"
    | (rest) "switch_loop w mem fault (s1, ?v) = Some r"
    using res q2(1) unfolding eq by (auto simp: Option.bind_eq_Some_conv split: if_splits)
  then show ?thesis
  proof cases
    case quietly
    then show ?thesis by (rule grows_shape)
  next
    case queued
    have ok: "save_sound n mem s st"
      by (rule save_sound_save_to_queue [OF start [OF q2] queued(1) n]) (simp add: v_def)
    show ?thesis using queued(2)
    proof
      assume "switch_loop w mem fault st = Some r"
      from switch_loop_grows [OF this ok n] show ?thesis .
    qed (use ok in \<open>simp add: save_sound_def\<close>)
  next
    case rest
    show ?thesis by (rule switch_loop_grows [OF rest start [OF q1] n]) (simp add: v_def)
  qed
qed

lemma common_fuzz_stuff_grows:
  assumes run: "common_fuzz_stuff w b n s = Some (v, s')" and ok: "length_ok n s" and n: "n \<le> length b" "n \<le> MAX_FILE"
  shows "grows s s'"
proof -
  obtain s1 where w1: "write_to_testcase b n False s = (n, s1)"
    using fst_write [OF ok, of b False] by (metis prod.collapse)
  obtain f s2 where r: "fuzz_run_target w (exec_tmout s1) s1 = (f, s2)"
    by (cases "fuzz_run_target w (exec_tmout s1) s1")
  have sh: "shape s2 = shape s"
    using shape_write [of b n False s] shape_run [of w "exec_tmout s1" s1] by (simp add: w1 r)
  have fr: "stage_frame s s2"
    using w1 r by (auto simp: write_to_testcase_def fuzz_run_target_def Let_def stage_frame_def)
  let ?s3 = "s2\<lparr>subseq_tmouts := if f = FSRV_RUN_TMOUT then subseq_tmouts s2 + 1 else 0\<rparr>"
  have "stage_frame s ?s3" by (rule stage_frame_trans [OF fr]) (simp add: stage_frame_def)
  then have ok3: "length_ok n ?s3" using ok by (simp add: length_ok_frame)
  have n0: "n \<noteq> 0" using ok by (simp add: length_ok_def)
  consider (quietly) "shape s' = shape s"
    | (saved) a k s4 where "save_if_interesting w b n f ?s3 = Some (a, k, s4)" "shape s' = shape s4"
    using run n0 sh unfolding common_fuzz_stuff_def Let_def w1 prod.case r
    by (cases "save_if_interesting w b n f ?s3") (auto split: if_splits)
  then show ?thesis
  proof cases
    case quietly
    then show ?thesis by (rule grows_shape)
  next
    case saved
    have "grows s ?s3" by (rule grows_shape) (simp add: sh)
    also have "grows ?s3 s4" using save_if_interesting_grows [OF saved(1) ok3 n] by simp
    also have "grows s4 s'" by (rule grows_shape [OF saved(2)])
    finally show ?thesis .
  qed
qed

section \<open>The interface of the stages\<close>

lemma common_fuzz_stuff_cut:
  assumes "min_length s \<le> max_length s" and "max_length s < n"
  shows "common_fuzz_stuff w b n s = common_fuzz_stuff w b (max_length s) s"
proof -
  have "write_to_testcase b n False s = write_to_testcase b (max_length s) False s"
    using assms by (simp add: write_to_testcase_def Let_def)
  then show ?thesis by (simp only: common_fuzz_stuff_def)
qed

interpretation runner: fuzz_runner "common_fuzz_stuff w" False for w
proof
  fix b n s v s' and q :: nat
  show "common_fuzz_stuff w b n s = None \<Longrightarrow> \<not> keep_timeouts s \<Longrightarrow> False"
    using common_fuzz_stuff_result(2) by blast
  show "min_length s \<le> max_length s \<Longrightarrow> max_length s < n \<Longrightarrow> common_fuzz_stuff w b n s = common_fuzz_stuff w b (max_length s) s"
    by (rule common_fuzz_stuff_cut)
  assume res: "common_fuzz_stuff w b n s = Some (v, s')"
  note r = common_fuzz_stuff_result(1) [OF res]
  show "stage_frame s s'" using r by (simp add: run_frame_def)
  show "set (delivered s) \<subseteq> set (delivered s')" using r by (simp add: run_frame_def)
  show "length_ok n s \<Longrightarrow> set (delivered s') = insert (take n b) (set (delivered s))"
    using r by (auto simp: run_frame_def)
  assume "length_ok n s" "n \<le> MAX_FILE" "n \<le> length b"
  then have g: "grows s s'" using common_fuzz_stuff_grows [OF res] by blast
  show "queue_inv s \<Longrightarrow> queue_inv s'" using g by (simp add: grows_def)
  show "q < length (queue_buf s) \<Longrightarrow> q < length (queue_buf s') \<and> q_kept (entry s' q) = q_kept (entry s q)"
    using g by (auto simp: grows_def)
qed

interpretation runner_rng: fuzz_runner "common_fuzz_stuff w" True for w
  by unfold_locales (auto dest: runner.cfs_frame runner.cfs_monotone runner.cfs_delivers runner.cfs_queue
      runner.cfs_kept runner.cfs_truncates)

interpretation havoc: havoc_runner "common_fuzz_stuff w" for w
  by unfold_locales

end
