(* ===== verification/Trim.thy ===== *)
theory Trim
  imports Campaign "HOL-Library.Sublist"
begin

text \<open>
  Trimming (\<^verbatim>\<open>trim_case\<close> in \<^verbatim>\<open>src/afl-fuzz-run.c\<close>): parts of an input are cut out
  as long as the trace of the target stays the same. The caller's buffer is the entry's cached
  copy if it has one, so every cut shows in the cache at once. Creating and writing files
  succeeds, in one go.
\<close>

section \<open>Numbers in the status line\<close>

definition digits_of :: "nat \<Rightarrow> string" where
  "digits_of n = map (\<lambda>b. char_of (unat b)) (decimal n)"

text \<open>\<^verbatim>\<open>%0.01f\<close> and \<^verbatim>\<open>%0.02f\<close>\<close>

definition one_place :: "rat \<Rightarrow> string" where
  "one_place x = (let n = nat \<lfloor>x * 10 + 1 / 2\<rfloor> in digits_of (n div 10) @ ''.'' @ digits_of (n mod 10))"

definition two_places_of :: "rat \<Rightarrow> string" where
  "two_places_of x = (let n = nat \<lfloor>x * 100 + 1 / 2\<rfloor> in
     digits_of (n div 100) @ ''.'' @ digits_of (n div 10 mod 10) @ digits_of (n mod 10))"

definition scaled_int :: "nat \<Rightarrow> nat \<Rightarrow> char \<Rightarrow> string" where
  "scaled_int k n c =
     (let x = of_nat n / of_nat k :: rat
      in if x < 9995 / 1000 then two_places_of x @ [c] else if x < 9995 / 100 then one_place x @ [c]
      else digits_of (n div k) @ [c])"

definition u_stringify_int :: "u64 \<Rightarrow> string" where
  "u_stringify_int val =
     (let n = unat val
      in if n < 10000 then digits_of n
         else if n < 1000 * 1000 then scaled_int 1000 n CHR ''k''
         else if n < 1000 ^ 3 then scaled_int (1000 ^ 2) n CHR ''M''
         else if n < 1000 ^ 4 then scaled_int (1000 ^ 3) n CHR ''G''
         else if (of_nat n :: rat) < 9995 * 1000 ^ 4 / 100 then scaled_int (1000 ^ 4) n CHR ''T''
         else ''infty'')"

section \<open>Cutting\<close>

definition TRIM_MIN_BYTES :: u32 where "TRIM_MIN_BYTES = 4"
definition TRIM_START_STEPS :: u32 where "TRIM_START_STEPS = 16"
definition TRIM_END_STEPS :: u32 where "TRIM_END_STEPS = 1024"

definition write_with_gap :: "buf \<Rightarrow> nat \<Rightarrow> nat \<Rightarrow> nat \<Rightarrow> afl \<Rightarrow> afl" where
  "write_with_gap mem len skip_at skip_len s =
     s\<lparr>testcase := take skip_at mem @ slice mem (skip_at + skip_len) (len - skip_at - skip_len)\<rparr>"

record trim_locals =
  t_in :: buf
  needs_write :: bool
  t_fault :: fault
  trim_start_us :: u64
  remove_len :: u32
  remove_pos :: u32
  len_p2 :: u32

type_synonym tstate = "afl \<times> trim_locals"

definition update_trim_time :: "world \<Rightarrow> tstate \<Rightarrow> tstate" where
  "update_trim_time w = (\<lambda>(s, l).
     let (cur, s) = get_cur_time_us w s
     in (s\<lparr>trim_time_us := trim_time_us s + (cur - trim_start_us l)\<rparr>, l\<lparr>trim_start_us := cur\<rparr>))"

text \<open>The part is taken out of the buffer, and with it out of the cached copy.\<close>

definition cut_out :: "nat \<Rightarrow> nat \<Rightarrow> nat \<Rightarrow> buf \<Rightarrow> buf" where
  "cut_out len pos avail mem = copy_at mem pos (slice mem (pos + avail) (len - pos - avail))"

definition keep_cut :: "nat \<Rightarrow> u32 \<Rightarrow> u32 \<Rightarrow> tstate \<Rightarrow> tstate" where
  "keep_cut q pos avail = (\<lambda>(s, l).
     let len = q_len (entry s q);
         mem = cut_out (unat len) (unat pos) (unat avail) (t_in l);
         s = upd_entry q (\<lambda>e. e\<lparr>q_len := len - avail, testcase_buf := map_option (\<lambda>_. mem) (testcase_buf e)\<rparr>) s;
         l = l\<lparr>len_p2 := ucast (next_pow2 (ucast (len - avail))), t_in := mem\<rparr>
     in if needs_write l then (s, l) else (s\<lparr>clean_trace := trace_bits s\<rparr>, l\<lparr>needs_write := True\<rparr>))"

definition trim_step :: "world \<Rightarrow> nat \<Rightarrow> tstate cmd" where
  "trim_step w q = reading (\<lambda>(s, l). (q_len (entry s q), remove_pos l, min (remove_len l) (q_len (entry s q) - remove_pos l)))
     (\<lambda>(len, pos, avail). steps
       [upd (\<lambda>(s, l). (write_with_gap (t_in l) (unat len) (unat pos) (unat avail) s, l)),
        upd (\<lambda>(s, l). let (fault, s) = fuzz_run_target w (exec_tmout s) s in (s, l\<lparr>t_fault := fault\<rparr>)),
        upd (update_trim_time w),
        cond (\<lambda>(s, l). stop_soon s \<or> t_fault l = FSRV_RUN_ERROR) (goto Abort_trimming) skip,
        upd (\<lambda>(s, l). (classify_counts (s\<lparr>trim_execs := trim_execs s + 1\<rparr>), l)),
        reading (\<lambda>(s, l). hash64 w (trace_bits s)) (\<lambda>cksum.
          cond (\<lambda>(s, l). cksum = exec_cksum (entry s q)) (upd (keep_cut q pos avail))
            (upd (\<lambda>(s, l). (s, l\<lparr>remove_pos := remove_pos l + remove_len l\<rparr>)))),
        upd (\<lambda>(s, l). (s\<lparr>stage_cur := stage_cur s + 1\<rparr>, l))])"

definition trim_pass :: "world \<Rightarrow> nat \<Rightarrow> tstate cmd" where
  "trim_pass w q = steps
     [upd (\<lambda>(s, l). (s\<lparr>stage_name := ''trim '' @ u_stringify_int (ucast (remove_len l)) @ ''/'' @
            u_stringify_int (ucast (remove_len l)),
          stage_cur := 0, stage_max := q_len (entry s q) div remove_len l\<rparr>, l\<lparr>remove_pos := remove_len l\<rparr>)),
      while_cmd (\<lambda>(s, l). remove_pos l < q_len (entry s q)) (trim_step w q),
      upd (\<lambda>(s, l). (s, l\<lparr>remove_len := drop_bit 1 (remove_len l)\<rparr>))]"

definition trim_write :: "nat \<Rightarrow> nat \<Rightarrow> tstate \<Rightarrow> tstate" where
  "trim_write q orig_len = (\<lambda>(s, l).
     let len = unat (q_len (entry s q));
         s = upd_entry q (\<lambda>e. e\<lparr>q_file := take len (t_in l)\<rparr>) s;
         s = queue_testcase_retake_mem q (t_in l) len orig_len s;
         s = s\<lparr>trace_bits := clean_trace s\<rparr>
     in (update_bitmap_score q s, l))"

definition trim_body :: "world \<Rightarrow> nat \<Rightarrow> nat \<Rightarrow> tstate cmd" where
  "trim_body w q orig_len = steps
     [cond (\<lambda>(s, l). q_len (entry s q) < 5) (goto Abort_trimming) skip,
      upd (\<lambda>(s, l). let p2 = ucast (next_pow2 (ucast (q_len (entry s q)))) in
        (s\<lparr>bytes_trim_in := bytes_trim_in s + ucast (q_len (entry s q))\<rparr>,
         l\<lparr>len_p2 := p2, remove_len := max (p2 div TRIM_START_STEPS) TRIM_MIN_BYTES\<rparr>)),
      while_cmd (\<lambda>(s, l). remove_len l \<ge> max (len_p2 l div TRIM_END_STEPS) TRIM_MIN_BYTES) (trim_pass w q),
      cond (\<lambda>(s, l). needs_write l) (upd (trim_write q orig_len)) skip]"

definition trim_case :: "world \<Rightarrow> nat \<Rightarrow> buf \<Rightarrow> afl \<Rightarrow> (fault \<times> afl) option" where
  "trim_case w q in_b s =
     (let orig_len = unat (q_len (entry s q));
          (now, s) = get_cur_time_us w s;
          l = \<lparr>t_in = in_b, needs_write = False, t_fault = FSRV_RUN_OK, trim_start_us = now,
               remove_len = 0, remove_pos = 0, len_p2 = 0\<rparr>
      in map_option (\<lambda>(f, s, l).
           let s = s\<lparr>bytes_trim_out := bytes_trim_out s + ucast (q_len (entry s q))\<rparr>;
               (s, l) = update_trim_time w (s, l)
           in (t_fault l, s))
         (trim_body w q orig_len (s, l)))"

section \<open>Cutting a list\<close>

lemma subseq_without_middle: "subseq (xs @ zs) (xs @ ys @ zs)"
proof (induction xs)
  case Nil
  show ?case using list_emb_append2 [of "(=)" zs zs ys] by simp
qed simp

lemma take_cut_out:
  assumes "pos + avail \<le> n" and "n \<le> length mem"
  shows "take (n - avail) (cut_out n pos avail mem) = take pos mem @ slice mem (pos + avail) (n - pos - avail)"
    "length (cut_out n pos avail mem) = length mem"
    "subseq (take (n - avail) (cut_out n pos avail mem)) (take n mem)"
    "k \<le> pos \<Longrightarrow> take k (cut_out n pos avail mem) = take k mem"
proof -
  let ?tail = "slice mem (pos + avail) (n - pos - avail)"
  have len: "length ?tail = n - pos - avail" using assms by (simp add: slice_def)
  show eq: "take (n - avail) (cut_out n pos avail mem) = take pos mem @ ?tail"
  proof -
    have "length (take pos mem) = pos" using assms by simp
    moreover have "n - avail = pos + length ?tail" using assms len by simp
    ultimately show ?thesis unfolding cut_out_def copy_at_def by simp
  qed
  show "length (cut_out n pos avail mem) = length mem"
    unfolding cut_out_def using assms len by (intro length_copy_at) simp
  have "take n mem = take pos mem @ slice mem pos avail @ ?tail"
  proof -
    have "take n mem = take (pos + (avail + (n - pos - avail))) mem" using assms by simp
    then show ?thesis by (simp add: take_add slice_def drop_drop add.commute)
  qed
  then show "subseq (take (n - avail) (cut_out n pos avail mem)) (take n mem)"
    unfolding eq by (simp only: subseq_without_middle)
  show "k \<le> pos \<Longrightarrow> take k (cut_out n pos avail mem) = take k mem"
    using assms by (simp add: cut_out_def copy_at_def min_def)
qed

section \<open>What trimming leaves alone\<close>

text \<open>
  The settings and dictionaries, the other entries' inputs, and the size of what is given to the
  target.
\<close>

definition trim_frame :: "nat \<Rightarrow> afl \<Rightarrow> afl \<Rightarrow> bool" where
  "trim_frame q s0 s \<longleftrightarrow>
     stage_frame s0 (s\<lparr>stage_name := stage_name s0, stage_cur := stage_cur s0, stage_max := stage_max s0\<rparr>) \<and>
     queued_items s = queued_items s0 \<and> active_items s = active_items s0 \<and>
     q_testcase_max_cache_size s = q_testcase_max_cache_size s0 \<and> map_size s = map_size s0 \<and> length (queue_buf s) = length (queue_buf s0) \<and>
     (\<forall>i. i \<noteq> q \<longrightarrow> i < length (queue_buf s0) \<longrightarrow> q_shape (entry s i) = q_shape (entry s0 i)) \<and>
     prefix (delivered s0) (delivered s) \<and> set (delivered s) \<subseteq> set (delivered s0) \<union> Collect mutable"

lemma trim_frame_refl [simp, intro]: "trim_frame q s s"
  by (simp add: trim_frame_def)

lemma stage_frame_named:
  assumes "stage_frame s0 (s\<lparr>stage_name := n, stage_cur := c, stage_max := m\<rparr>)" and "stage_frame s s'"
  shows "stage_frame s0 (s'\<lparr>stage_name := n, stage_cur := c, stage_max := m\<rparr>)"
  using assms by (simp add: stage_frame_def)

lemma trim_frame_quiet:
  assumes "trim_frame q s0 s" and "shape s' = shape s" and "quiet s s'" and "map_size s' = map_size s"
  shows "trim_frame q s0 s'"
proof -
  have m: "map q_shape (queue_buf s') = map q_shape (queue_buf s)" "queued_items s' = queued_items s"
    "active_items s' = active_items s" "q_testcase_max_cache_size s' = q_testcase_max_cache_size s"
    using assms(2) by (simp_all add: shape_def)
  then have len: "length (queue_buf s') = length (queue_buf s)" by (metis length_map)
  have "q_shape (entry s' i) = q_shape (entry s i)" if "i < length (queue_buf s)" for i
    using that len m(1) by (metis entry_def nth_map)
  then show ?thesis
    using assms(1,3,4) m(2-4) len stage_frame_named [where ?s0.0 = s0 and s = s and s' = s']
    by (simp add: trim_frame_def quiet_def)
qed

text \<open>One run of the target on the input \<open>c\<close>.\<close>

definition tried :: "afl \<Rightarrow> buf \<Rightarrow> afl \<Rightarrow> bool" where
  "tried s c s' \<longleftrightarrow> queue_buf s' = queue_buf s \<and> delivered s' = delivered s @ [c] \<and> map_size s' = map_size s \<and>
     queued_items s' = queued_items s \<and> active_items s' = active_items s \<and> q_testcase_max_cache_size s' = q_testcase_max_cache_size s \<and>
     stage_frame s s' \<and> clean_trace s' = clean_trace s"

lemma triedD:
  assumes "tried s c s'"
  shows "queue_buf s' = queue_buf s" "entry s' = entry s" "delivered s' = delivered s @ [c]"
    "map_size s' = map_size s" "queued_items s' = queued_items s" "stage_frame s s'" "active_items s' = active_items s" "clean_trace s' = clean_trace s"
    "q_testcase_max_cache_size s' = q_testcase_max_cache_size s"
  using assms by (auto simp: tried_def entry_def fun_eq_iff)

lemma trim_frame_tried:
  assumes "trim_frame q s0 s" and "tried s c s'" and "mutable c"
  shows "trim_frame q s0 s'"
  using assms(1,3) triedD [OF assms(2)] stage_frame_named [where ?s0.0 = s0 and s = s and s' = s']
  by (auto simp: trim_frame_def)

section \<open>The loops\<close>

text \<open>
  What is known of the buffer at any time: it was cut down from the input \<open>b\<close>, the first
  bytes are still there, and if something was cut then what is left was run, and its trace had
  the entry's checksum.
\<close>

definition path_sum :: "world \<Rightarrow> afl \<Rightarrow> buf list \<Rightarrow> buf \<Rightarrow> u64" where
  "path_sum w s h b = hash64 w (fold classify_counts_word [0..<drop_bit 3 (map_size s)]
     (shared_map (map_size s) (out_trace (target w h b (exec_tmout s)))))"

definition same_path :: "world \<Rightarrow> nat \<Rightarrow> afl \<Rightarrow> buf list \<Rightarrow> buf \<Rightarrow> bool" where
  "same_path w q s ds b \<longleftrightarrow> (\<exists>h. prefix (h @ [b]) ds \<and> path_sum w s h b = exec_cksum (entry s q))"

definition cut_ok :: "world \<Rightarrow> nat \<Rightarrow> afl \<Rightarrow> buf \<Rightarrow> tstate \<Rightarrow> bool" where
  "cut_ok w q s0 b st \<longleftrightarrow> (let (s, l) = st; n = unat (q_len (entry s q)); n0 = unat (q_len (entry s0 q)) in
     min 4 n0 \<le> n \<and> n \<le> n0 \<and> length (t_in l) = length b \<and>
     subseq (take n (t_in l)) (take n0 b) \<and> take 4 (t_in l) = take 4 b \<and>
     (\<not> needs_write l \<longrightarrow> n = n0 \<and> t_in l = b) \<and>
     (needs_write l \<longrightarrow> n < n0 \<and> same_path w q s0 (delivered s) (take n (t_in l)) \<and>
        hash64 w (clean_trace s) = exec_cksum (entry s0 q)))"

definition trim_inv :: "world \<Rightarrow> nat \<Rightarrow> afl \<Rightarrow> buf \<Rightarrow> tstate \<Rightarrow> bool" where
  "trim_inv w q s0 b st \<longleftrightarrow> (let (s, l) = st in
     trim_frame q s0 s \<and> cut_ok w q s0 b (s, l) \<and> q < length (queue_buf s0) \<and>
     unat (q_len (entry s0 q)) \<le> length b \<and> unat (q_len (entry s0 q)) \<le> MAX_FILE \<and>
     entry s q = (entry s0 q)\<lparr>q_len := q_len (entry s q),
       testcase_buf := map_option (\<lambda>_. t_in l) (testcase_buf (entry s0 q))\<rparr>)"

lemma same_path_prefix: "same_path w q s ds b \<Longrightarrow> prefix ds ds' \<Longrightarrow> same_path w q s ds' b"
  unfolding same_path_def by (meson prefix_order.trans)

lemma trim_inv_tried:
  assumes inv: "trim_inv w q s0 b (s, l)" and t: "tried s c s'" "mutable c"
  shows "trim_inv w q s0 b (s', l\<lparr>t_fault := f, trim_start_us := u\<rparr>)"
proof -
  note d = triedD [OF t(1)]
  have "trim_frame q s0 s'" by (rule trim_frame_tried [OF _ t]) (use inv in \<open>simp add: trim_inv_def\<close>)
  moreover have "cut_ok w q s0 b (s', l\<lparr>t_fault := f, trim_start_us := u\<rparr>)"
    using inv d same_path_prefix [of w q s0 "delivered s" _ "delivered s @ [c]"]
    by (auto simp: trim_inv_def cut_ok_def Let_def)
  ultimately show ?thesis using inv d by (simp add: trim_inv_def)
qed

lemma trim_frame_upd [simp]:
  "trim_frame q s0 (s\<lparr>stage_cur := c\<rparr>) = trim_frame q s0 s"
  "trim_frame q s0 (s\<lparr>stage_max := m\<rparr>) = trim_frame q s0 s"
  "trim_frame q s0 (s\<lparr>stage_name := n\<rparr>) = trim_frame q s0 s"
  "trim_frame q s0 (s\<lparr>clean_trace := t\<rparr>) = trim_frame q s0 s"
  "trim_frame q s0 (s\<lparr>bytes_trim_in := bi\<rparr>) = trim_frame q s0 s"
  "trim_frame q s0 (s\<lparr>bytes_trim_out := bo\<rparr>) = trim_frame q s0 s"
  "trim_frame q s0 (s\<lparr>trace_bits := tb\<rparr>) = trim_frame q s0 s"
  "trim_frame q s0 (s\<lparr>ticks := tk\<rparr>) = trim_frame q s0 s"
  "trim_frame q s0 (s\<lparr>trim_time_us := tt\<rparr>) = trim_frame q s0 s"
  "trim_frame q s0 (s\<lparr>q_testcase_cache_size := cs\<rparr>) = trim_frame q s0 s"
  by (simp_all add: trim_frame_def stage_frame_def entry_def)

lemma trim_frame_upd_entry:
  assumes "trim_frame q s0 s" and "q < length (queue_buf s0)"
  shows "trim_frame q s0 (upd_entry q f s)"
proof -
  have "entry (upd_entry q f s) i = entry s i" if "i \<noteq> q" for i
    using that by (simp add: upd_entry_def entry_def)
  then show ?thesis using assms by (simp add: trim_frame_def) (simp add: upd_entry_def stage_frame_def)
qed

lemma trim_inv_upd [simp]:
  "trim_inv w q s0 b (s\<lparr>stage_cur := c\<rparr>, l) = trim_inv w q s0 b (s, l)"
  "trim_inv w q s0 b (s\<lparr>stage_max := m\<rparr>, l) = trim_inv w q s0 b (s, l)"
  "trim_inv w q s0 b (s\<lparr>stage_name := n\<rparr>, l) = trim_inv w q s0 b (s, l)"
  "trim_inv w q s0 b (s\<lparr>bytes_trim_in := bi\<rparr>, l) = trim_inv w q s0 b (s, l)"
  "trim_inv w q s0 b (s, l\<lparr>remove_pos := rp\<rparr>) = trim_inv w q s0 b (s, l)"
  "trim_inv w q s0 b (s, l\<lparr>remove_len := rl\<rparr>) = trim_inv w q s0 b (s, l)"
  "trim_inv w q s0 b (s, l\<lparr>len_p2 := p2\<rparr>) = trim_inv w q s0 b (s, l)"
  by (simp_all add: trim_inv_def cut_ok_def Let_def) (simp_all add: entry_def)

lemma trim_inv_keep_cut:
  assumes inv: "trim_inv w q s0 b (s, l)"
    and pos: "4 \<le> unat pos" "unat pos < unat (q_len (entry s q))" and avail: "avail = min rl (q_len (entry s q) - pos)" "0 < rl"
    and ran: "same_path w q s0 (delivered s) (take (unat pos) (t_in l) @ slice (t_in l) (unat pos + unat avail)
      (unat (q_len (entry s q)) - unat pos - unat avail))"
      "hash64 w (trace_bits s) = exec_cksum (entry s0 q)"
  shows "trim_inv w q s0 b (keep_cut q pos avail (s, l)) \<and>
    unat (q_len (entry (fst (keep_cut q pos avail (s, l))) q)) < unat (q_len (entry s q)) \<and>
    remove_len (snd (keep_cut q pos avail (s, l))) = remove_len l \<and> remove_pos (snd (keep_cut q pos avail (s, l))) = remove_pos l"
proof -
  let ?n = "unat (q_len (entry s q))" and ?p = "unat pos" and ?a = "unat avail"
  have a: "?a = min (unat rl) (?n - ?p)"
    using pos(2) avail(1) by (simp add: min_def word_le_nat_alt unat_sub_if' word_less_nat_alt)
  then have a1: "0 < ?a" "?p + ?a \<le> ?n" using pos(2) avail(2) by (auto simp: word_less_nat_alt min_def)
  have q: "q < length (queue_buf s0)" "length (queue_buf s) = length (queue_buf s0)"
    using inv by (simp_all add: trim_inv_def trim_frame_def)
  have I: "?n \<le> unat (q_len (entry s0 q))" "length (t_in l) = length b" "unat (q_len (entry s0 q)) \<le> length b"
    "subseq (take ?n (t_in l)) (take (unat (q_len (entry s0 q))) b)" "take 4 (t_in l) = take 4 b"
    using inv by (simp_all add: trim_inv_def cut_ok_def Let_def)
  have n: "?n \<le> length (t_in l)" using I by simp
  note cut = take_cut_out [OF a1(2) n]
  define mem where "mem = cut_out ?n ?p ?a (t_in l)"
  have new: "unat (q_len (entry s q) - avail) = ?n - ?a" using a1 by (simp add: unat_sub word_le_nat_alt)
  define s1 where "s1 = upd_entry q (\<lambda>e. e\<lparr>q_len := q_len (entry s q) - avail,
    testcase_buf := map_option (\<lambda>_. mem) (testcase_buf e)\<rparr>) s"
  define s2 where "s2 = (if needs_write l then s1 else s1\<lparr>clean_trace := trace_bits s1\<rparr>)"
  define l2 where "l2 = l\<lparr>len_p2 := ucast (next_pow2 (ucast (q_len (entry s q) - avail))), t_in := mem, needs_write := True\<rparr>"
  have kc: "keep_cut q pos avail (s, l) = (s2, l2)"
    by (cases l) (simp add: keep_cut_def Let_def s2_def s1_def l2_def mem_def)
  have e1: "entry s1 q = (entry s q)\<lparr>q_len := q_len (entry s q) - avail, testcase_buf := map_option (\<lambda>_. mem) (testcase_buf (entry s q))\<rparr>"
    using q by (simp add: s1_def)
  have e2: "entry s2 q = entry s1 q" by (simp add: s2_def entry_def)
  have d: "delivered s2 = delivered s" by (simp add: s2_def s1_def upd_entry_def)
  have h: "hash64 w (clean_trace s2) = exec_cksum (entry s0 q)"
    using ran(2) inv by (auto simp: s2_def s1_def upd_entry_def trim_inv_def cut_ok_def Let_def)
  have "trim_frame q s0 s1"
    unfolding s1_def by (rule trim_frame_upd_entry) (use inv in \<open>simp_all add: trim_inv_def\<close>)
  then have fr: "trim_frame q s0 s2" by (simp add: s2_def)
  have same: "same_path w q s0 (delivered s2) (take (?n - ?a) mem)"
    using ran(1) cut(1) d by (simp add: mem_def)
  have sub: "subseq (take (?n - ?a) mem) (take (unat (q_len (entry s0 q))) b)"
    using subseq_order.trans [OF cut(3) I(4)] by (simp add: mem_def)
  have l4: "take 4 mem = take 4 b" using cut(4) [of 4] pos(1) I(5) by (simp add: mem_def)
  have "cut_ok w q s0 b (s2, l2)"
    unfolding cut_ok_def Let_def prod.case e2
    using same sub l4 h new a1 pos I cut(2) by (auto simp: e1 l2_def mem_def)
  moreover have "entry s2 q = (entry s0 q)\<lparr>q_len := q_len (entry s2 q), testcase_buf := map_option (\<lambda>_. t_in l2) (testcase_buf (entry s0 q))\<rparr>"
  proof -
    obtain x y where e: "entry s q = (entry s0 q)\<lparr>q_len := x, testcase_buf := map_option (\<lambda>_. y) (testcase_buf (entry s0 q))\<rparr>"
      using inv by (auto simp: trim_inv_def)
    show ?thesis unfolding e2 e1 by (simp add: e l2_def option.map_comp comp_def)
  qed
  ultimately have "trim_inv w q s0 b (s2, l2)" using fr inv by (simp add: trim_inv_def)
  moreover have "unat (q_len (entry s2 q)) < ?n" using new a1 by (simp add: e2 e1)
  ultimately show ?thesis unfolding kc by (simp add: l2_def)
qed

lemma trim_invD:
  assumes "trim_inv w q s0 b (s, l)"
  shows "unat (q_len (entry s q)) \<le> unat (q_len (entry s0 q))" "unat (q_len (entry s0 q)) \<le> MAX_FILE"
    "unat (q_len (entry s q)) \<le> length (t_in l)" "map_size s = map_size s0" "exec_tmout s = exec_tmout s0"
    "exec_cksum (entry s q) = exec_cksum (entry s0 q)" "q_file (entry s q) = q_file (entry s0 q)"
proof -
  obtain x y where "entry s q = (entry s0 q)\<lparr>q_len := x, testcase_buf := y\<rparr>"
    using assms by (auto simp: trim_inv_def)
  then show "exec_cksum (entry s q) = exec_cksum (entry s0 q)" "q_file (entry s q) = q_file (entry s0 q)" by simp_all
qed (use assms in \<open>simp_all add: trim_inv_def cut_ok_def trim_frame_def stage_frame_def Let_def\<close>)

definition stopped :: "tstate \<Rightarrow> bool" where
  "stopped st \<longleftrightarrow> stop_soon (fst st) \<or> t_fault (snd st) = FSRV_RUN_ERROR"

lemma classify_counts_only: "classify_counts s = s\<lparr>trace_bits := trace_bits (classify_counts s)\<rparr>"
  by (simp add: classify_counts_def)

lemma stopped_keep_cut: "keep_cut q pos avail (s, l) = (s', l') \<Longrightarrow> stopped (s', l') = stopped (s, l)"
  by (auto simp: keep_cut_def Let_def stopped_def upd_entry_def split: if_splits)

lemma wp_trim_step:
  assumes inv: "trim_inv w q s0 b (s, l)"
    and pos: "4 \<le> unat (remove_pos l)" "unat (remove_pos l) < unat (q_len (entry s q))"
    and rl: "0 < unat (remove_len l)" "unat (remove_len l) \<le> 2 ^ 28"
    and Q: "\<And>st. trim_inv w q s0 b st \<Longrightarrow> stopped st \<Longrightarrow> Q Abort_trimming st"
    and Next: "\<And>s' l'. trim_inv w q s0 b (s', l') \<Longrightarrow> \<not> stopped (s', l') \<Longrightarrow> remove_len l' = remove_len l \<Longrightarrow> 4 \<le> unat (remove_pos l') \<Longrightarrow>
      unat (q_len (entry s' q)) < unat (q_len (entry s q)) \<and> remove_pos l' = remove_pos l \<or>
      q_len (entry s' q) = q_len (entry s q) \<and> unat (remove_pos l') = unat (remove_pos l) + unat (remove_len l) \<Longrightarrow>
      Q Next (s', l')"
  shows "wp False (trim_step w q) Q (s, l)"
proof -
  define len where "len = q_len (entry s q)"
  define p where "p = remove_pos l"
  define avail where "avail = min (remove_len l) (len - p)"
  define c where "c = take (unat p) (t_in l) @ slice (t_in l) (unat p + unat avail) (unat len - unat p - unat avail)"
  have small: "unat len \<le> unat (q_len (entry s0 q))" "unat (q_len (entry s0 q)) \<le> MAX_FILE" "unat len \<le> length (t_in l)"
    and fr: "map_size s = map_size s0" "exec_tmout s = exec_tmout s0"
    and ck: "exec_cksum (entry s q) = exec_cksum (entry s0 q)"
    using trim_invD [OF inv] by (simp_all add: len_def)
  obtain f s2 where run: "fuzz_run_target w (exec_tmout (write_with_gap (t_in l) (unat len) (unat p) (unat avail) s))
      (write_with_gap (t_in l) (unat len) (unat p) (unat avail) s) = (f, s2)" by fastforce
  obtain s3 l3 where time: "update_trim_time w (s2, l\<lparr>t_fault := f\<rparr>) = (s3, l3)" by fastforce
  define s4 where "s4 = classify_counts (s3\<lparr>trim_execs := trim_execs s3 + 1\<rparr>)"
  have l3: "\<exists>u. l3 = l\<lparr>t_fault := f, trim_start_us := u\<rparr>"
    using time by (auto simp: update_trim_time_def get_cur_time_us_def)
  have t3: "tried s c s3"
    using time run unfolding tried_def
    by (auto simp: update_trim_time_def get_cur_time_us_def fuzz_run_target_def Let_def write_with_gap_def c_def stage_frame_def)
  have t4: "tried s c s4"
    using t3 by (auto simp: s4_def tried_def classify_counts_def stage_frame_def)
  have pl: "p < len" using pos(2) by (simp add: p_def len_def word_less_nat_alt)
  have av: "unat avail = min (unat (remove_len l)) (unat len - unat p)"
    using pl by (simp add: avail_def min_def word_le_nat_alt unat_sub_if' word_less_nat_alt)
  have len_c: "length c = unat len - unat avail" "unat p \<le> length c"
    using small(3) pl av by (simp_all add: c_def slice_def word_less_nat_alt)
  have "4 \<le> length c" "length c \<le> MAX_FILE" using len_c small(1,2) pos(1) [folded p_def] by linarith+
  then have mut: "mutable c" by (auto simp: mutable_def)
  note I3 = trim_inv_tried [OF inv t3 mut] and I4 = trim_inv_tried [OF inv t4 mut]
  have sum: "path_sum w s0 (delivered s) c = hash64 w (trace_bits s4)"
    using time run fr by (auto simp: s4_def path_sum_def update_trim_time_def get_cur_time_us_def fuzz_run_target_def Let_def
        write_with_gap_def c_def classify_counts_def)
  have e4: "entry s4 = entry s" using triedD(2) [OF t4] .
  have ns4: "stop_soon s4 = stop_soon s3" by (simp add: s4_def classify_counts_def)
  have same: "same_path w q s0 (delivered s4) c" if "hash64 w (trace_bits s4) = exec_cksum (entry s4 q)"
    unfolding same_path_def using that sum triedD(3) [OF t4] e4 ck by (intro exI [of _ "delivered s"]) simp
  have wpeq: "wp False (trim_step w q) Q (s, l) =
     (if stop_soon s3 \<or> t_fault l3 = FSRV_RUN_ERROR then Q Abort_trimming (s3, l3)
      else if hash64 w (trace_bits s4) = exec_cksum (entry s4 q)
      then Q Next (case keep_cut q p avail (s4, l3) of (s, l) \<Rightarrow> (s\<lparr>stage_cur := stage_cur s + 1\<rparr>, l))
      else Q Next (s4\<lparr>stage_cur := stage_cur s4 + 1\<rparr>, l3\<lparr>remove_pos := remove_pos l3 + remove_len l3\<rparr>))"
    unfolding trim_step_def wp_reading prod.case len_def [symmetric] p_def [symmetric] avail_def [symmetric]
    by (simp add: run time Let_def s4_def)
  show ?thesis
  proof (cases "stop_soon s3 \<or> t_fault l3 = FSRV_RUN_ERROR")
    case True
    then have "Q Abort_trimming (s3, l3)" using Q I3 l3 by (auto simp: stopped_def)
    then show ?thesis unfolding wpeq using True by simp
  next
    case F: False
    show ?thesis
    proof (cases "hash64 w (trace_bits s4) = exec_cksum (entry s4 q)")
      case True
      obtain u where u: "l3 = l\<lparr>t_fault := f, trim_start_us := u\<rparr>" using l3 by blast
      obtain s5 l5 where k: "keep_cut q p avail (s4, l3) = (s5, l5)" by fastforce
      have "trim_inv w q s0 b (s5, l5) \<and> unat (q_len (entry s5 q)) < unat (q_len (entry s4 q)) \<and>
          remove_len l5 = remove_len l3 \<and> remove_pos l5 = remove_pos l3 \<and> \<not> stopped (s5, l5)"
        using trim_inv_keep_cut [OF I4 [of u f, folded u], of p avail "remove_len l"] same [OF True] True pos rl ck
        stopped_keep_cut [OF k] ns4 F
        by (simp add: stopped_def k [unfolded avail_def u] e4 len_def [symmetric] p_def [symmetric] avail_def c_def u word_less_nat_alt)
      then have "Q Next (s5\<lparr>stage_cur := stage_cur s5 + 1\<rparr>, l5)"
        by (intro Next) (use pos in \<open>simp_all add: u e4 p_def entry_def stopped_def\<close>)
      then show ?thesis unfolding wpeq using F True k by simp
    next
      case False
      obtain u where u: "l3 = l\<lparr>t_fault := f, trim_start_us := u\<rparr>" using l3 by blast
      have "unat (remove_pos l + remove_len l) = unat (remove_pos l) + unat (remove_len l)"
        using pos(2) small rl by (simp add: unat_word_ariths len_def MAX_FILE_def)
      then have "Q Next (s4\<lparr>stage_cur := stage_cur s4 + 1\<rparr>, l3\<lparr>remove_pos := remove_pos l3 + remove_len l3\<rparr>)"
        by (intro Next) (use I4 [of u f] pos e4 F ns4 in \<open>simp_all add: u fun_eq_iff entry_def stopped_def\<close>)
      then show ?thesis unfolding wpeq using F False by simp
    qed
  qed
qed


section \<open>The whole function\<close>

lemma wp_trim_pass:
  assumes inv: "trim_inv w q s0 b (s, l)" and rl: "4 \<le> unat (remove_len l)" "unat (remove_len l) \<le> 2 ^ 28"
    and run: "needs_write l \<longrightarrow> \<not> stopped (s, l)"
    and Q: "\<And>st. trim_inv w q s0 b st \<Longrightarrow> stopped st \<Longrightarrow> Q Abort_trimming st"
    and Next: "\<And>s' l'. trim_inv w q s0 b (s', l') \<Longrightarrow> needs_write l' \<longrightarrow> \<not> stopped (s', l') \<Longrightarrow>
      remove_len l' = drop_bit 1 (remove_len l) \<Longrightarrow> Q Next (s', l')"
  shows "wp False (trim_pass w q) Q (s, l)"
proof -
  define I :: "tstate \<Rightarrow> bool" where "I = (\<lambda>(s, l'). trim_inv w q s0 b (s, l') \<and> remove_len l' = remove_len l \<and>
    4 \<le> unat (remove_pos l') \<and> (needs_write l' \<longrightarrow> \<not> stopped (s, l')))"
  define m :: "tstate \<Rightarrow> nat" where "m = (\<lambda>(s, l'). unat (q_len (entry s q)) + (MAX_FILE - unat (remove_pos l')))"
  have step: "wp False (trim_step w q) (andthen (\<lambda>st'. I st' \<and> m st' < m st) Q) st"
    if I: "I st" and less: "case st of (s, l) \<Rightarrow> remove_pos l < q_len (entry s q)" for st
  proof -
    obtain s1 l1 where st: "st = (s1, l1)" by (cases st)
    have i: "trim_inv w q s0 b (s1, l1)" "remove_len l1 = remove_len l" "4 \<le> unat (remove_pos l1)"
      and lt: "unat (remove_pos l1) < unat (q_len (entry s1 q))"
      using I less by (simp_all add: st I_def word_less_nat_alt)
    have small: "unat (q_len (entry s1 q)) \<le> MAX_FILE" using trim_invD(1,2) [OF i(1)] by linarith
    show ?thesis unfolding st
    proof (rule wp_trim_step [OF i(1,3) lt])
      fix s2 l2
      assume "trim_inv w q s0 b (s2, l2)" "\<not> stopped (s2, l2)" "remove_len l2 = remove_len l1" "4 \<le> unat (remove_pos l2)"
        "unat (q_len (entry s2 q)) < unat (q_len (entry s1 q)) \<and> remove_pos l2 = remove_pos l1 \<or>
         q_len (entry s2 q) = q_len (entry s1 q) \<and> unat (remove_pos l2) = unat (remove_pos l1) + unat (remove_len l1)"
      then show "andthen (\<lambda>st'. I st' \<and> m st' < m (s1, l1)) Q Next (s2, l2)"
        using i lt small rl by (auto simp: I_def m_def)
    qed (use rl i(2) Q in \<open>auto simp: stopped_def\<close>)
  qed
  have loop: "wp False (while_cmd (\<lambda>(s, l). remove_pos l < q_len (entry s q)) (trim_step w q))
      (andthen (\<lambda>st. I st) Q) st" if "I st" for st
    by (rule wp_while [where I = I and m = m]) (use that step in auto)
  show ?thesis
    unfolding trim_pass_def
  proof (rule wp_seq [where R = I])
    show "wp False (steps [while_cmd (\<lambda>(s, l). remove_pos l < q_len (entry s q)) (trim_step w q),
        upd (\<lambda>(s, l). (s, l\<lparr>remove_len := drop_bit 1 (remove_len l)\<rparr>))]) Q st" if "I st" for st
      by (rule wp_seq [OF loop [OF that]]) (auto simp: I_def stopped_def intro!: Next)
  qed (use inv rl run in \<open>simp add: I_def stopped_def\<close>)
qed

text \<open>What the caller gets.\<close>

definition trimmed :: "world \<Rightarrow> nat \<Rightarrow> afl \<Rightarrow> buf \<Rightarrow> tstate \<Rightarrow> bool" where
  "trimmed w q s0 b st \<longleftrightarrow> (let (s, l) = st; n = unat (q_len (entry s q)); n0 = unat (q_len (entry s0 q)) in
     trim_frame q s0 s \<and> min 4 n0 \<le> n \<and> n \<le> n0 \<and> subseq (take n (t_in l)) (take n0 b) \<and> take 4 (t_in l) = take 4 b \<and>
     length (t_in l) = length b \<and> q_kept (entry s q) = q_kept ((entry s0 q)\<lparr>q_len := q_len (entry s q)\<rparr>) \<and>
     (n < n0 \<longrightarrow> same_path w q s0 (delivered s) (take n (t_in l))) \<and>
     (if stopped (s, l) then q_file (entry s q) = q_file (entry s0 q) \<and>
        testcase_buf (entry s q) = map_option (\<lambda>_. t_in l) (testcase_buf (entry s0 q))
      else (n < n0 \<longrightarrow> q_file (entry s q) = take n (t_in l) \<and>
              testcase_buf (entry s q) = map_option (\<lambda>_. take n (t_in l)) (testcase_buf (entry s0 q))) \<and>
           (n = n0 \<longrightarrow> t_in l = b \<and> q_file (entry s q) = q_file (entry s0 q) \<and>
              testcase_buf (entry s q) = map_option (\<lambda>_. b) (testcase_buf (entry s0 q)))))"

lemma trim_inv_done:
  assumes "trim_inv w q s0 b (s, l)" and "stopped (s, l) \<or> \<not> needs_write l"
  shows "trimmed w q s0 b (s, l)"
proof -
  obtain x y where e: "entry s q = (entry s0 q)\<lparr>q_len := x, testcase_buf := y\<rparr>"
    and y: "y = map_option (\<lambda>_. t_in l) (testcase_buf (entry s0 q))"
    using assms(1) by (auto simp: trim_inv_def)
  show ?thesis
    using assms unfolding trimmed_def trim_inv_def cut_ok_def Let_def prod.case by (auto simp: e y q_kept_def)
qed

lemma trim_frame_retake_mem:
  assumes "trim_frame q s0 s" and "q < length (queue_buf s0)"
  shows "trim_frame q s0 (queue_testcase_retake_mem q mem len old s)"
  using assms by (auto simp: queue_testcase_retake_mem_def Let_def trim_frame_upd_entry split: option.splits)

lemma contest_frame_keeps:
  fixes s s' :: afl
  assumes "contest_frame s s'"
  shows "map_size s' = map_size s" "stop_soon s' = stop_soon s"
proof -
  obtain x y z where "s' = s\<lparr>queue_buf := x, top_rated := y, score_changed := z\<rparr>"
    using assms unfolding contest_frame_def by blast
  then show "map_size s' = map_size s" "stop_soon s' = stop_soon s" by simp_all
qed

lemma trim_inv_write:
  assumes inv: "trim_inv w q s0 b (s, l)" and w: "needs_write l" and run: "\<not> stopped (s, l)"
  shows "trimmed w q s0 b (trim_write q n (s, l))"
proof -
  let ?n = "unat (q_len (entry s q))"
  define s1 where "s1 = upd_entry q (\<lambda>e. e\<lparr>q_file := take ?n (t_in l)\<rparr>) s"
  define s2 where "s2 = queue_testcase_retake_mem q (t_in l) ?n n s1"
  define s3 where "s3 = s2\<lparr>trace_bits := clean_trace s2\<rparr>"
  define s4 where "s4 = update_bitmap_score q s3"
  have out: "trim_write q n (s, l) = (s4, l)"
    by (simp add: trim_write_def Let_def s4_def s3_def s2_def s1_def)
  have q: "q < length (queue_buf s0)" and fr: "trim_frame q s0 s" using inv by (simp_all add: trim_inv_def)
  then have qs: "q < length (queue_buf s)" by (simp add: trim_frame_def)
  have f3: "trim_frame q s0 s3"
    unfolding s3_def s2_def s1_def by (simp add: trim_frame_retake_mem trim_frame_upd_entry fr q)
  note ub = contest_frame_keeps [OF update_bitmap_score_frame [of s3 q]]
  have f4: "trim_frame q s0 s4"
    unfolding s4_def by (rule trim_frame_quiet [OF f3]) (simp_all add: ub)
  obtain x y where es: "entry s q = (entry s0 q)\<lparr>q_len := x, testcase_buf := y\<rparr>"
    and y: "y = map_option (\<lambda>_. t_in l) (testcase_buf (entry s0 q))" using inv by (auto simp: trim_inv_def)
  have cached: "testcase_buf (entry s q) = map_option (\<lambda>_. t_in l) (testcase_buf (entry s0 q))" using es y by simp
  have kept: "q_kept (entry s q) = q_kept ((entry s0 q)\<lparr>q_len := q_len (entry s q)\<rparr>)" using es by (simp add: q_kept_def)
  have "q_shape (entry s3 q) = (q_kept (entry s q), take ?n (t_in l), map_option (\<lambda>_. take ?n (t_in l)) (testcase_buf (entry s0 q)))"
    using qs cached by (cases "testcase_buf (entry s0 q)")
      (auto simp: q_shape_def q_kept_def s3_def s2_def s1_def queue_testcase_retake_mem_def Let_def upd_entry_def entry_def)
  moreover have "q_shape (entry s4 q) = q_shape (entry s3 q)"
  proof -
    have "map q_shape (queue_buf s4) = map q_shape (queue_buf s3)"
      using shape_update_bitmap_score [of q s3] by (simp add: s4_def shape_def)
    moreover have "length (queue_buf s3) = length (queue_buf s0)" "length (queue_buf s4) = length (queue_buf s0)"
      using f3 f4 by (simp_all add: trim_frame_def)
    ultimately show ?thesis using q by (metis entry_def nth_map)
  qed
  ultimately have "q_shape (entry s4 q) = (q_kept (entry s q), take ?n (t_in l), map_option (\<lambda>_. take ?n (t_in l)) (testcase_buf (entry s0 q)))"
    by (simp only:)
  then have e4: "q_kept (entry s4 q) = q_kept (entry s q)" "q_file (entry s4 q) = take ?n (t_in l)"
      "testcase_buf (entry s4 q) = map_option (\<lambda>_. take ?n (t_in l)) (testcase_buf (entry s0 q))"
    by (simp_all add: q_shape_def)
  have e: "q_len (entry s4 q) = q_len (entry s q)" using e4(1) by (simp add: q_kept_def)
  have d: "delivered s4 = delivered s"
    using quiet_update_bitmap_score [of s3 s3 q]
    by (auto simp: s4_def quiet_def s3_def s2_def s1_def queue_testcase_retake_mem_def upd_entry_def Let_def split: option.splits)
  have "stop_soon s3 = stop_soon s"
    by (auto simp: s3_def s2_def s1_def queue_testcase_retake_mem_def upd_entry_def Let_def split: option.splits)
  moreover have "stop_soon s4 = stop_soon s3" by (simp add: s4_def ub(2))
  ultimately have ns: "\<not> stopped (s4, l)" using run by (simp add: stopped_def)
  show ?thesis unfolding out trimmed_def Let_def prod.case e e4 d
    using inv w ns f4 kept by (auto simp: trim_inv_def cut_ok_def Let_def)
qed


lemma wp_trim_body:
  assumes inv: "trim_inv w q s0 b (s, l)" and "\<not> needs_write l"
  shows "wp False (trim_body w q n) (\<lambda>f st. trimmed w q s0 b st) (s, l)"
proof -
  define I where "I = (\<lambda>(s, l). trim_inv w q s0 b (s, l) \<and> unat (remove_len l) \<le> 2 ^ 28 \<and>
    (needs_write l \<longrightarrow> \<not> stopped (s, l)))"
  define Q where "Q = (\<lambda>f :: flow. trimmed w q s0 b)"
  have loop: "wp False (while_cmd (\<lambda>(s, l). remove_len l \<ge> max (len_p2 l div TRIM_END_STEPS) TRIM_MIN_BYTES) (trim_pass w q))
      (andthen I Q) st" if "I st" for st
  proof (rule wp_while [where I = I and m = "\<lambda>(s, l). unat (remove_len l)"])
    fix st assume I: "I st" and more: "case st of (s, l) \<Rightarrow> remove_len l \<ge> max (len_p2 l div TRIM_END_STEPS) TRIM_MIN_BYTES"
    obtain s1 l1 where st: "st = (s1, l1)" by (cases st)
    have "4 \<le> remove_len l1" using more by (auto simp: st TRIM_MIN_BYTES_def)
    then have rl: "4 \<le> unat (remove_len l1)" "unat (remove_len l1) \<le> 2 ^ 28" "needs_write l1 \<longrightarrow> \<not> stopped (s1, l1)"
      and i: "trim_inv w q s0 b (s1, l1)"
      using I by (simp_all add: st I_def word_le_nat_alt)
    show "wp False (trim_pass w q) (andthen (\<lambda>st'. I st' \<and> (case st' of (s, l) \<Rightarrow> unat (remove_len l)) <
        (case st of (s, l) \<Rightarrow> unat (remove_len l))) (andthen I Q)) st"
      unfolding st
    proof (rule wp_trim_pass [OF i rl])
      fix s2 l2 assume "trim_inv w q s0 b (s2, l2)" and "needs_write l2 \<longrightarrow> \<not> stopped (s2, l2)" and "remove_len l2 = drop_bit 1 (remove_len l1)"
      then show "andthen (\<lambda>st'. I st' \<and> (case st' of (s, l) \<Rightarrow> unat (remove_len l)) <
          (case (s1, l1) of (s, l) \<Rightarrow> unat (remove_len l))) (andthen I Q) Next (s2, l2)"
        using rl by (simp add: I_def drop_bit_Suc unat_div)
    next
      fix st' assume "trim_inv w q s0 b st'" "stopped st'"
      then show "andthen (\<lambda>st'. I st' \<and> (case st' of (s, l) \<Rightarrow> unat (remove_len l)) <
          (case (s1, l1) of (s, l) \<Rightarrow> unat (remove_len l))) (andthen I Q) Abort_trimming st'"
        by (cases st') (simp add: Q_def trim_inv_done)
    qed
  qed (use that in simp_all)
  have after: "wp False (steps [cond (\<lambda>(s, l). needs_write l) (upd (trim_write q n)) skip]) Q st" if "I st" for st
  proof -
    obtain s1 l1 where st: "st = (s1, l1)" by (cases st)
    have i: "trim_inv w q s0 b (s1, l1)" "needs_write l1 \<longrightarrow> \<not> stopped (s1, l1)" using that by (simp_all add: st I_def)
    show ?thesis
      using trim_inv_done [OF i(1)] trim_inv_write [OF i(1)] i(2) by (auto simp: st Q_def skip_def)
  qed
  show ?thesis
    unfolding trim_body_def Q_def [symmetric]
  proof (rule wp_seq [where R = "\<lambda>st. st = (s, l)"])
    show "wp False (cond (\<lambda>(s, l). q_len (entry s q) < 5) (goto Abort_trimming) skip) (andthen (\<lambda>st. st = (s, l)) Q) (s, l)"
      using trim_inv_done [OF inv] assms(2) by (simp add: Q_def skip_def)
  next
    fix st assume "st = (s, l)"
    define p2 :: u32 where "p2 = ucast (next_pow2 (ucast (q_len (entry s q))))"
    define st2 where "st2 = (s\<lparr>bytes_trim_in := bytes_trim_in s + ucast (q_len (entry s q))\<rparr>,
      l\<lparr>len_p2 := p2, remove_len := max (p2 div TRIM_START_STEPS) TRIM_MIN_BYTES\<rparr>)"
    have "unat (p2 div TRIM_START_STEPS) \<le> 2 ^ 28"
      proof -
      have "unat p2 < 2 ^ LENGTH(32)" by (rule unsigned_less)
      then show ?thesis by (simp add: unat_div TRIM_START_STEPS_def)
    qed
    then have "I st2"
      using inv assms(2) by (simp add: st2_def I_def stopped_def max_def TRIM_MIN_BYTES_def)
    then have "wp False (steps [while_cmd (\<lambda>(s, l). remove_len l \<ge> max (len_p2 l div TRIM_END_STEPS) TRIM_MIN_BYTES) (trim_pass w q),
        cond (\<lambda>(s, l). needs_write l) (upd (trim_write q n)) skip]) Q st2"
      by (intro wp_seq [OF loop after])
    then show "wp False (steps [upd (\<lambda>(s, l). let p2 = ucast (next_pow2 (ucast (q_len (entry s q)))) in
        (s\<lparr>bytes_trim_in := bytes_trim_in s + ucast (q_len (entry s q))\<rparr>,
         l\<lparr>len_p2 := p2, remove_len := max (p2 div TRIM_START_STEPS) TRIM_MIN_BYTES\<rparr>)),
      while_cmd (\<lambda>(s, l). remove_len l \<ge> max (len_p2 l div TRIM_END_STEPS) TRIM_MIN_BYTES) (trim_pass w q),
      cond (\<lambda>(s, l). needs_write l) (upd (trim_write q n)) skip]) Q st"
      using \<open>st = (s, l)\<close> by (simp only: wp_Cons [of False "upd _"] wp_upd andthen_simps prod.case Let_def st2_def p2_def)
  qed
qed

text \<open>Trimming returns, and what is left was cut from the input and takes the same path.\<close>

lemma trim_case_result:
  assumes q: "q < length (queue_buf s)" and n0: "n0 = unat (q_len (entry s q))" "n0 \<le> MAX_FILE" "n0 \<le> length b"
    and cached: "testcase_buf (entry s q) = None \<or> testcase_buf (entry s q) = Some b"
  shows "\<exists>f s' c. trim_case w q b s = Some (f, s') \<and> trim_frame q s s' \<and>
    unat (q_len (entry s' q)) = length c \<and> q_kept (entry s' q) = q_kept ((entry s q)\<lparr>q_len := q_len (entry s' q)\<rparr>) \<and> min 4 n0 \<le> length c \<and> length c \<le> n0 \<and>
    subseq c (take n0 b) \<and> take 4 c = take 4 (take n0 b) \<and>
    (length c < n0 \<longrightarrow> same_path w q s (delivered s') c) \<and>
    (case testcase_buf (entry s' q) of None \<Rightarrow> testcase_buf (entry s q) = None | Some m \<Rightarrow> testcase_buf (entry s q) \<noteq> None \<and> take (length c) m = c) \<and>
    (if length c < n0 \<and> \<not> stop_soon s' \<and> f \<noteq> FSRV_RUN_ERROR then q_file (entry s' q) = c
     else q_file (entry s' q) = q_file (entry s q))"
proof -
  define s1 where "s1 = s\<lparr>ticks := Suc (ticks s)\<rparr>"
  define l where "l = \<lparr>t_in = b, needs_write = False, t_fault = FSRV_RUN_OK, trim_start_us = clock_us w (ticks s),
    remove_len = 0, remove_pos = 0, len_p2 = 0\<rparr>"
  have "entry s1 = entry s" by (simp add: s1_def entry_def fun_eq_iff)
  moreover have "map_option (\<lambda>_. b) (testcase_buf (entry s q)) = testcase_buf (entry s q)" using cached by auto
  ultimately have "trim_inv w q s b (s1, l)"
    using q n0 by (simp add: trim_inv_def cut_ok_def Let_def l_def) (simp add: s1_def)
  then obtain f0 s2 l2 where run: "trim_body w q n0 (s1, l) = Some (f0, s2, l2)" and d: "trimmed w q s b (s2, l2)"
    using wp_total [OF wp_trim_body [where n = n0]] by (fastforce simp: l_def)
  let ?c = "take (unat (q_len (entry s2 q))) (t_in l2)"
  define s3 where "s3 = s2\<lparr>bytes_trim_out := bytes_trim_out s2 + ucast (q_len (entry s2 q)), ticks := Suc (ticks s2),
    trim_time_us := trim_time_us s2 + (clock_us w (ticks s2) - trim_start_us l2)\<rparr>"
  have out: "trim_case w q b s = Some (t_fault l2, s3)"
    using run by (simp add: trim_case_def Let_def get_cur_time_us_def s1_def l_def n0 update_trim_time_def s3_def)
  have e: "entry s3 = entry s2" by (simp add: s3_def entry_def fun_eq_iff)
  have len: "length ?c = unat (q_len (entry s2 q))" using d n0 by (simp add: trimmed_def Let_def)
  have four: "take 4 ?c = take 4 (take n0 b)"
  proof -
    have t4: "take 4 (t_in l2) = take 4 b" "min 4 n0 \<le> unat (q_len (entry s2 q))"
      using d n0 by (simp_all add: trimmed_def Let_def)
    have "take k (t_in l2) = take k b" if "k \<le> 4" for k
    proof -
      have "take k (take 4 (t_in l2)) = take k (take 4 b)" using t4 by simp
      then show ?thesis using that by (simp add: min_absorb1)
    qed
    then show ?thesis using t4(2) d n0 by (auto simp: trimmed_def Let_def min_def)
  qed
  have K: "q_kept (entry s3 q) = q_kept ((entry s q)\<lparr>q_len := q_len (entry s3 q)\<rparr>)"
    using d by (simp add: trimmed_def Let_def e)
  have D: "trim_frame q s s2" "min 4 n0 \<le> unat (q_len (entry s2 q))" "unat (q_len (entry s2 q)) \<le> n0"
      "subseq ?c (take n0 b)" "unat (q_len (entry s2 q)) < n0 \<Longrightarrow> same_path w q s (delivered s2) ?c"
    using d n0 by (simp_all add: trimmed_def Let_def)
  have stop: "stopped (s2, l2) \<longleftrightarrow> stop_soon s3 \<or> t_fault l2 = FSRV_RUN_ERROR"
    by (simp add: stopped_def s3_def)
  have files: "if stopped (s2, l2)
      then q_file (entry s2 q) = q_file (entry s q) \<and> testcase_buf (entry s2 q) = map_option (\<lambda>_. t_in l2) (testcase_buf (entry s q))
      else (unat (q_len (entry s2 q)) < n0 \<longrightarrow> q_file (entry s2 q) = ?c \<and>
              testcase_buf (entry s2 q) = map_option (\<lambda>_. ?c) (testcase_buf (entry s q))) \<and>
           (unat (q_len (entry s2 q)) = n0 \<longrightarrow> t_in l2 = b \<and> q_file (entry s2 q) = q_file (entry s q) \<and>
              testcase_buf (entry s2 q) = map_option (\<lambda>_. b) (testcase_buf (entry s q)))"
    using d unfolding trimmed_def Let_def prod.case n0(1) by blast
  have cached': "case testcase_buf (entry s2 q) of None \<Rightarrow> testcase_buf (entry s q) = None | Some m \<Rightarrow> testcase_buf (entry s q) \<noteq> None \<and> take (length ?c) m = ?c"
    using files D(3) len by (cases "testcase_buf (entry s q)"; cases "unat (q_len (entry s2 q)) = n0") (auto split: if_splits)
  have on_disk: "if length ?c < n0 \<and> \<not> stop_soon s3 \<and> t_fault l2 \<noteq> FSRV_RUN_ERROR then q_file (entry s2 q) = ?c
     else q_file (entry s2 q) = q_file (entry s q)"
    using files D(3) stop unfolding len by (cases "unat (q_len (entry s2 q)) = n0") (auto split: if_splits)
  have fr: "trim_frame q s s3" and dl: "delivered s3 = delivered s2" using D(1) by (simp_all add: s3_def)
  have path: "length ?c < n0 \<longrightarrow> same_path w q s (delivered s3) ?c" unfolding len dl using D(5) by blast
  show ?thesis
    by (intro exI [of _ "t_fault l2"] exI [of _ s3] exI [of _ ?c] conjI out fr K D(4) four path)
      (use D cached' on_disk in \<open>simp_all only: e len\<close>)
qed

end
