(* ===== verification/Score.thy ===== *)
theory Score
  imports Queue Alias
begin

text \<open>
  How much an entry is fuzzed and how often it is chosen (\<^verbatim>\<open>src/afl-fuzz-queue.c\<close>):
  \<^verbatim>\<open>calculate_score\<close>, \<^verbatim>\<open>compute_weight\<close>, \<^verbatim>\<open>create_alias_table\<close> and
  \<^verbatim>\<open>select_next_queue_entry\<close>. A \<^verbatim>\<open>double\<close> is an exact rational.
\<close>

section \<open>The score\<close>

definition MAX_FACTOR :: rat where "MAX_FACTOR = 32"

text \<open>\<^verbatim>\<open>perf_score *= x\<close> for a \<^verbatim>\<open>double\<close>: the product is cut to an integer.\<close>

definition times :: "u32 \<Rightarrow> rat \<Rightarrow> u32" where
  "times p x = of_int \<lfloor>of_nat (unat p) * x\<rfloor>"

definition speed_score :: "u64 \<Rightarrow> u32 \<Rightarrow> u32" where
  "speed_score us avg =
     (let t = of_nat (unat us) :: rat; a = of_nat (unat avg)
      in if t / 10 > a then 10 else if t / 4 > a then 25 else if t / 2 > a then 50 else if t * 3 / 4 > a then 75
         else if us * 4 < ucast avg then 300 else if us * 3 < ucast avg then 200
         else if us * 2 < ucast avg then 150 else 100)"

definition size_score :: "u32 \<Rightarrow> u32 \<Rightarrow> u32 \<Rightarrow> u32" where
  "size_score sz avg p =
     (let b = of_nat (unat sz) :: rat; a = of_nat (unat avg)
      in if b * 3 / 10 > a then p * 3 else if b / 2 > a then p * 2 else if b * 3 / 4 > a then times p (3 / 2)
         else if sz * 3 < avg then times p (1 / 4) else if sz * 2 < avg then times p (1 / 2)
         else if b * 3 / 2 < a then times p (3 / 4) else p)"

text \<open>Latecomers run longer, for a while.\<close>

definition handicap_score :: "nat \<Rightarrow> u32 \<Rightarrow> 'a queue_state_scheme \<Rightarrow> u32 \<times> 'a queue_state_scheme" where
  "handicap_score q p s =
     (if handicap (entry s q) \<ge> 4 then (p * 4, upd_entry q (\<lambda>e. e\<lparr>handicap := handicap e - 4\<rparr>) s)
      else if handicap (entry s q) \<noteq> 0 then (p * 2, upd_entry q (\<lambda>e. e\<lparr>handicap := handicap e - 1\<rparr>) s)
      else (p, s))"

definition depth_score :: "u64 \<Rightarrow> u32 \<Rightarrow> u32" where
  "depth_score d p = (if d \<le> 3 then p else if d \<le> 7 then p * 2 else if d \<le> 13 then p * 3
     else if d \<le> 25 then p * 4 else p * 5)"

definition fuzz_count :: "'a queue_state_scheme \<Rightarrow> queue_entry \<Rightarrow> u32" where
  "fuzz_count s e = n_fuzz s ! unat (n_fuzz_entry e)"

definition fast_factor :: "world \<Rightarrow> 'a queue_state_scheme \<Rightarrow> queue_entry \<Rightarrow> rat" where
  "fast_factor w s e =
     (if fuzz_level e = 0 then 1
      else let k = nat \<lfloor>libm_log2 w (fuzz_count s e)\<rfloor>;
               factor = (if k \<le> 1 then 4 else if k \<le> 3 then 3 else if k = 4 then 2 else if k = 5 \<or> favored e then 1
                 else if k = 6 then 8 / 10 else if k = 7 then 6 / 10 else 4 / 10)
           in if favored e then factor * 115 / 100 else factor)"

definition active :: "'a queue_state_scheme \<Rightarrow> queue_entry list" where
  "active s = filter (\<lambda>e. \<not> disabled e) (take (unat (queued_items s)) (queue_buf s))"

text \<open>Schedule \<^verbatim>\<open>COE\<close>; \<^term>\<open>None\<close> is \<^verbatim>\<open>FATAL("Queue state corrupt")\<close>.\<close>

definition coe_factor :: "world \<Rightarrow> 'a queue_state_scheme \<Rightarrow> queue_entry \<Rightarrow> rat option" where
  "coe_factor w s e =
     (if fuzz_level e = 0 then Some 1
      else if active s = [] then None
      else let mu = sum_list (map (\<lambda>e. libm_log2 w (fuzz_count s e)) (active s)) / of_nat (length (active s))
           in if libm_log2 w (fuzz_count s e) > mu then Some (if favored e then 1 else 0)
              else Some (fast_factor w s e))"

definition power_factor :: "world \<Rightarrow> 'a queue_state_scheme \<Rightarrow> queue_entry \<Rightarrow> rat option" where
  "power_factor w s e =
     (case schedule s of
        EXPLOIT \<Rightarrow> Some MAX_FACTOR
      | COE \<Rightarrow> coe_factor w s e
      | FAST \<Rightarrow> Some (fast_factor w s e)
      | LIN \<Rightarrow> Some (if fuzz_level e = 0 then 1 else of_nat (unat (fuzz_level e div (fuzz_count s e + 1))))
      | QUAD \<Rightarrow> Some (if fuzz_level e = 0 then 1 else of_nat (unat (fuzz_level e * fuzz_level e div (fuzz_count s e + 1))))
      | _ \<Rightarrow> Some 1)"

definition schedule_score :: "'a queue_state_scheme \<Rightarrow> queue_entry \<Rightarrow> u32 \<Rightarrow> u32" where
  "schedule_score s e p =
     (case schedule s of
        MMOPT \<Rightarrow> if ucast (max_depth s) - depth e < 5 then p * 2 else p
      | RARE \<Rightarrow> times (p + tc_ref e * 10) (1 - of_nat (unat (fuzz_count s e)) / of_nat (unat (total_execs s)))
      | _ \<Rightarrow> p)"

definition calculate_score :: "world \<Rightarrow> nat \<Rightarrow> afl \<Rightarrow> (u32 \<times> afl) option" where
  "calculate_score w q s =
     (let e = entry s q;
          cal_cycles = max 1 (ucast (total_cal_cycles s) :: u32);
          bitmap_entries = max 1 (ucast (total_bitmap_entries s) :: u32);
          avg_exec_us = ucast (total_cal_us s div ucast cal_cycles);
          avg_bitmap_size = ucast (total_bitmap_size s div ucast bitmap_entries);
          p = (if schedule s < RARE \<and> \<not> fixed_seed s then speed_score (exec_us e) avg_exec_us else 100);
          p = size_score (bitmap_size e) avg_bitmap_size p;
          (p, s) = handicap_score q p s;
          p = depth_score (depth e) p
      in map_option (\<lambda>factor.
           let p = schedule_score s e p;
               p = (if schedule s \<ge> EXPLOIT \<and> schedule s \<le> QUAD then times p (min factor MAX_FACTOR) else p);
               p = (if limit_time_sig s \<noteq> 0 \<and> ucast (max_depth s) - depth e < 3 then p * 2
                    else if schedule s \<noteq> COE \<and> p < 1 then 1 else p)
           in (min p (havoc_max_mult s * 100), s))
         (power_factor w s e))"

section \<open>Weights\<close>

definition compute_weight :: "world \<Rightarrow> 'a queue_state_scheme \<Rightarrow> queue_entry \<Rightarrow> rat \<Rightarrow> rat \<Rightarrow> rat \<Rightarrow> rat" where
  "compute_weight w s e avg_exec_us avg_bitmap_size avg_top_size =
     (let weight = (if schedule s \<ge> FAST \<and> schedule s \<le> RARE \<and> fuzz_count s e \<noteq> 0
                    then 1 / (libm_log10 w (fuzz_count s e) + 1) else 1);
          weight = (if schedule s < RARE then weight * (avg_exec_us / of_nat (unat (exec_us e))) else weight);
          weight = weight * (libm_log w (bitmap_size e) / avg_bitmap_size);
          weight = weight * (1 + of_nat (unat (tc_ref e)) / avg_top_size);
          weight = max weight (1 / 10);
          weight = (if favored e then weight * 5 else weight);
          weight = (if was_fuzzed e then weight else weight * 2)
      in if fs_redundant e then weight * 8 / 10 else weight)"

definition average :: "(queue_entry \<Rightarrow> rat) \<Rightarrow> 'a queue_state_scheme \<Rightarrow> rat" where
  "average f s = sum_list (map f (active s)) / of_nat (length (active s))"

text \<open>The loop over the entries that are not disabled; \<open>f\<close> may die in \<open>calculate_score\<close>.\<close>

fun each_active :: "(nat \<Rightarrow> afl \<Rightarrow> afl option) \<Rightarrow> nat list \<Rightarrow> afl \<Rightarrow> afl option" where
  "each_active f [] s = Some s"
| "each_active f (i # is) s =
     (if disabled (entry s i) then each_active f is s else Option.bind (f i s) (each_active f is))"

definition score_entry :: "world \<Rightarrow> nat \<Rightarrow> afl \<Rightarrow> afl option" where
  "score_entry w i s = map_option (\<lambda>(p, s). upd_entry i (\<lambda>e. e\<lparr>perf_score := p\<rparr>) s) (calculate_score w i s)"

definition weigh_entry :: "world \<Rightarrow> rat \<times> rat \<times> rat \<Rightarrow> nat \<Rightarrow> afl \<Rightarrow> afl option" where
  "weigh_entry w avgs i s =
     (case avgs of (a, b, c) \<Rightarrow> score_entry w i (upd_entry i (\<lambda>e. e\<lparr>weight := compute_weight w s e a b c\<rparr>) s))"

text \<open>Schedule \<^verbatim>\<open>MMOPT\<close> doubles the weights of the newest entries, when their sum has been taken.\<close>

definition double_newest :: "afl \<Rightarrow> afl" where
  "double_newest s =
     (if schedule s = MMOPT \<and> queued_discovered s \<noteq> 0
      then fold (\<lambda>i s. if disabled (entry s i) then s else upd_entry i (\<lambda>e. e\<lparr>weight := weight e * 2\<rparr>) s)
        [unat (queued_items s - min 5 (queued_discovered s))..<unat (queued_items s)] s
      else s)"

definition scaled :: "(queue_entry \<Rightarrow> rat) \<Rightarrow> rat \<Rightarrow> afl \<Rightarrow> rat list" where
  "scaled f sm s = map (\<lambda>e. if disabled e then 0 else f e * of_nat (unat (queued_items s)) / sm)
     (take (unat (queued_items s)) (queue_buf s))"

definition table_weight :: "afl \<Rightarrow> queue_entry \<Rightarrow> rat" where
  "table_weight s e = (if schedule s < RARE then weight e else of_nat (unat (perf_score e)))"

definition set_table :: "rat list \<Rightarrow> afl \<Rightarrow> afl" where
  "set_table P s = (let t = alias_tables P in
     s\<lparr>alias_probability := t_prob t, alias_table := map of_nat (t_alias t), reinit_table := False\<rparr>)"

definition create_alias_table :: "world \<Rightarrow> afl \<Rightarrow> afl option" where
  "create_alias_table w s =
     (let is = [0..<unat (queued_items s)] in
      if schedule s < RARE
      then let avgs = (average (\<lambda>e. of_nat (unat (exec_us e))) s, average (\<lambda>e. libm_log w (bitmap_size e)) s,
                       average (\<lambda>e. of_nat (unat (tc_ref e))) s)
           in map_option (\<lambda>s. let sm = sum_list (map weight (active s)); s = double_newest s
                in set_table (scaled weight sm s) s) (each_active (weigh_entry w avgs) is s)
      else map_option (\<lambda>s. set_table (scaled (\<lambda>e. of_nat (unat (perf_score e)))
             (sum_list (map (\<lambda>e. of_nat (unat (perf_score e))) (active s))) s) s)
           (each_active (score_entry w) is s))"

section \<open>Selection\<close>

definition rand_next_percent :: "'a rng_state_scheme \<Rightarrow> rat \<times> 'a rng_state_scheme" where
  "rand_next_percent s = (let (r, s) = rand_next s in (of_nat (unat r) / of_nat (2 ^ 64 - 1), s))"

definition pick_slot :: "afl \<Rightarrow> nat \<Rightarrow> rat \<Rightarrow> u32" where
  "pick_slot s k p = (if p < alias_probability s ! k then of_nat k else alias_table s ! k)"

definition select_next_queue_entry :: "world \<Rightarrow> afl \<Rightarrow> (u32 \<times> afl) option" where
  "select_next_queue_entry w s =
     Option.bind (rand_below w (queued_items s) s) (\<lambda>(k, s).
       let (p, s) = rand_next_percent s in Some (pick_slot s (unat k) p, s))"

section \<open>Scores are bounded\<close>

lemma upd_entry_self: "f (entry s q) = entry s q \<Longrightarrow> upd_entry q f s = s"
  by (cases s) (simp add: upd_entry_def entry_def)

lemma handicap_score_result:
  assumes "handicap_score q p s = (p', s')"
  shows "\<exists>h. s' = upd_entry q (\<lambda>e. e\<lparr>handicap := h\<rparr>) s"
proof -
  define k where "k = (if handicap (entry s q) \<ge> 4 then handicap (entry s q) - 4
    else if handicap (entry s q) \<noteq> 0 then handicap (entry s q) - 1 else handicap (entry s q))"
  have "s' = upd_entry q (\<lambda>e. e\<lparr>handicap := k\<rparr>) s"
  proof (cases "handicap (entry s q) = 0")
    case True
    then show ?thesis
      using assms upd_entry_self [of "\<lambda>e. e\<lparr>handicap := k\<rparr>" s q] by (simp add: handicap_score_def k_def)
  next
    case False
    then show ?thesis using assms by (simp add: handicap_score_def k_def upd_entry_def entry_def split: if_splits)
  qed
  then show ?thesis by blast
qed

lemma active_empty:
  "active s = [] \<longleftrightarrow> (\<forall>i. i < unat (queued_items s) \<longrightarrow> i < length (queue_buf s) \<longrightarrow> disabled (entry s i))"
  unfolding active_def filter_empty_conv set_conv_nth by (auto simp: entry_def)

lemma disabled_upd_entry:
  "(\<And>e. disabled (f e) = disabled e) \<Longrightarrow> disabled (entry (upd_entry q f s) i) = disabled (entry s i)"
  by (cases "q < length (queue_buf s)") (auto simp: upd_entry_def entry_def nth_list_update_if list_update_beyond)

lemma active_empty_upd:
  assumes "\<And>e. disabled (f e) = disabled e"
  shows "active (upd_entry q f s) = [] \<longleftrightarrow> active s = []"
  unfolding active_empty disabled_upd_entry [of f, OF assms] by (simp add: upd_entry_def)

text \<open>A score within the limits the havoc stage relies on.\<close>

definition good_score :: "afl \<Rightarrow> u32 \<Rightarrow> bool" where
  "good_score s p \<longleftrightarrow> p \<le> havoc_max_mult s * 100 \<and>
     (schedule s \<noteq> COE \<and> limit_time_sig s = 0 \<and> havoc_max_mult s * 100 \<noteq> 0 \<longrightarrow> 1 \<le> p)"

text \<open>
  The score is capped, and at least one except in schedule \<^verbatim>\<open>COE\<close> and with MOpt; only the
  entry's handicap changes.
\<close>

lemma calculate_score_bounds:
  assumes "calculate_score w q s = Some (p, s')"
  shows "p \<le> havoc_max_mult s * 100 \<and>
    (schedule s \<noteq> COE \<and> limit_time_sig s = 0 \<and> havoc_max_mult s * 100 \<noteq> 0 \<longrightarrow> 1 \<le> p) \<and>
    (\<exists>h. s' = upd_entry q (\<lambda>e. e\<lparr>handicap := h\<rparr>) s)"
proof -
  obtain p0 s0 p1 p2 where hc: "handicap_score q p0 s = (p1, s0)" and s': "s' = s0"
    and p: "p = min (if limit_time_sig s0 \<noteq> 0 \<and> ucast (max_depth s0) - depth (entry s q) < 3 then p2 * 2
              else if schedule s0 \<noteq> COE \<and> p2 < 1 then 1 else p2) (havoc_max_mult s0 * 100)"
    using assms unfolding calculate_score_def Let_def by (auto split: prod.splits)
  obtain h where hs: "s0 = upd_entry q (\<lambda>e. e\<lparr>handicap := h\<rparr>) s" using handicap_score_result [OF hc] by blast
  have same: "limit_time_sig s0 = limit_time_sig s" "schedule s0 = schedule s" "havoc_max_mult s0 = havoc_max_mult s"
    by (simp_all add: hs upd_entry_def)
  have "1 \<le> x" if "x \<noteq> 0" for x :: u32 using that by (simp add: word_le_nat_alt unat_gt_0 Suc_leI)
  then have "1 \<le> p" if "limit_time_sig s = 0" "schedule s \<noteq> COE" "havoc_max_mult s * 100 \<noteq> 0"
    using that by (simp add: p same min_def not_less)
  moreover have "p \<le> havoc_max_mult s * 100" by (simp add: p same)
  ultimately show ?thesis using hs s' by blast
qed

text \<open>The program dies in the schedule's \<^verbatim>\<open>FATAL\<close> exactly when no entry is left that could be fuzzed.\<close>

lemma calculate_score_dies:
  "calculate_score w q s = None \<longleftrightarrow> schedule s = COE \<and> fuzz_level (entry s q) \<noteq> 0 \<and> active s = []"
proof -
  have "power_factor w s0 (entry s q) = None \<longleftrightarrow> schedule s = COE \<and> fuzz_level (entry s q) \<noteq> 0 \<and> active s = []"
    if hc: "handicap_score q p s = (p1, s0)" for p p1 s0
  proof -
    obtain h where "s0 = upd_entry q (\<lambda>e. e\<lparr>handicap := h\<rparr>) s" using handicap_score_result [OF hc] by blast
    then have "active s0 = [] \<longleftrightarrow> active s = []" "schedule s0 = schedule s"
      by (simp add: active_empty_upd, simp add: upd_entry_def)
    then show ?thesis by (auto simp: power_factor_def coe_factor_def Let_def split: schedule.split)
  qed
  then show ?thesis unfolding calculate_score_def Let_def by (auto split: prod.split)
qed

section \<open>Weights and the table\<close>

lemma max_tenth_pos [simp]: "0 < max x (1 / 10 :: rat)"
  by (simp add: less_max_iff_disj)

lemma compute_weight_pos: "0 < compute_weight w s e a b c"
  by (simp add: compute_weight_def Let_def)

text \<open>What scoring does to the queue.\<close>

definition rescored :: "queue_entry \<Rightarrow> queue_entry \<Rightarrow> bool" where
  "rescored e e' \<longleftrightarrow> e' = e\<lparr>weight := weight e', perf_score := perf_score e', handicap := handicap e'\<rparr>"

definition score_frame :: "afl \<Rightarrow> afl \<Rightarrow> bool" where
  "score_frame s s' \<longleftrightarrow> s' = s\<lparr>queue_buf := queue_buf s'\<rparr> \<and> list_all2 rescored (queue_buf s) (queue_buf s')"

lemma score_frame_refl [simp, intro]: "score_frame s s"
  by (simp add: score_frame_def rescored_def list_all2_refl)

lemma score_frame_trans [trans]:
  assumes "score_frame a b" and "score_frame b c"
  shows "score_frame a c"
proof -
  have t: "rescored x y \<Longrightarrow> rescored y z \<Longrightarrow> rescored x z" for x y z
    by (cases x; cases y; cases z) (simp add: rescored_def)
  have "list_all2 rescored (queue_buf a) (queue_buf c)"
    using list_all2_trans [where as = "queue_buf a" and bs = "queue_buf b" and cs = "queue_buf c", OF t] assms
    by (auto simp: score_frame_def)
  then show ?thesis using assms by (cases a; cases b; cases c) (simp add: score_frame_def)
qed

lemma score_frame_upd:
  assumes "score_frame s0 s" and "\<And>e. rescored e (f e)"
  shows "score_frame s0 (upd_entry q f s)"
proof -
  have "list_all2 rescored (queue_buf s) ((queue_buf s)[q := f (queue_buf s ! q)])"
    by (auto simp: list_all2_conv_all_nth nth_list_update_if assms(2)) (simp add: rescored_def)
  then have "score_frame s (upd_entry q f s)" by (simp add: score_frame_def upd_entry_def)
  then show ?thesis using assms(1) score_frame_trans by blast
qed

lemma score_frameD:
  assumes "score_frame s s'"
  shows "length (queue_buf s') = length (queue_buf s)" "queued_items s' = queued_items s" "schedule s' = schedule s"
    "i < length (queue_buf s) \<Longrightarrow> disabled (entry s' i) = disabled (entry s i)"
    "havoc_max_mult s' = havoc_max_mult s" "limit_time_sig s' = limit_time_sig s"
    "queued_discovered s' = queued_discovered s"
proof -
  obtain x where x: "s' = s\<lparr>queue_buf := x\<rparr>" and l: "list_all2 rescored (queue_buf s) x"
    using assms unfolding score_frame_def by (metis queue_state.select_convs(1))
  show "length (queue_buf s') = length (queue_buf s)" using x l by (simp add: list_all2_lengthD)
  show "queued_items s' = queued_items s" "schedule s' = schedule s" "havoc_max_mult s' = havoc_max_mult s"
    "limit_time_sig s' = limit_time_sig s" "queued_discovered s' = queued_discovered s" using x by simp_all
  show "i < length (queue_buf s) \<Longrightarrow> disabled (entry s' i) = disabled (entry s i)"
  proof -
    assume i: "i < length (queue_buf s)"
    have "rescored (entry s i) (entry s' i)" using list_all2_nthD [OF l i] x by (simp add: entry_def)
    then obtain u v h where "entry s' i = (entry s i)\<lparr>weight := u, perf_score := v, handicap := h\<rparr>"
      by (auto simp: rescored_def)
    then show ?thesis by simp
  qed
qed

lemma score_entry_result:
  assumes "score_entry w i s = Some s'" and "score_frame s0 s" and "i < length (queue_buf s)"
  shows "score_frame s0 s' \<and> (\<forall>j. j \<noteq> i \<longrightarrow> entry s' j = entry s j) \<and> weight (entry s' i) = weight (entry s i) \<and>
    good_score s (perf_score (entry s' i))"
proof -
  obtain p s1 where c: "calculate_score w i s = Some (p, s1)" and s': "s' = upd_entry i (\<lambda>e. e\<lparr>perf_score := p\<rparr>) s1"
    using assms(1) by (auto simp: score_entry_def)
  obtain h where s1: "s1 = upd_entry i (\<lambda>e. e\<lparr>handicap := h\<rparr>) s" using calculate_score_bounds [OF c] by blast
  have "score_frame s0 s'" unfolding s' s1 by (intro score_frame_upd assms(2)) (simp_all add: rescored_def)
  moreover have "entry s' j = (if j = i then (entry s i)\<lparr>handicap := h, perf_score := p\<rparr> else entry s j)" for j
    using assms(3) by (simp add: s' s1 upd_entry_def entry_def nth_list_update)
  ultimately show ?thesis using calculate_score_bounds [OF c] by (simp add: good_score_def)
qed

lemma weigh_entry_result:
  assumes "weigh_entry w avgs i s = Some s'" and "score_frame s0 s" and "i < length (queue_buf s)"
  shows "score_frame s0 s' \<and> (\<forall>j. j \<noteq> i \<longrightarrow> entry s' j = entry s j) \<and> 0 < weight (entry s' i) \<and>
    good_score s (perf_score (entry s' i))"
proof -
  obtain a b c where av: "avgs = (a, b, c)" by (cases avgs)
  define s1 where "s1 = upd_entry i (\<lambda>e. e\<lparr>weight := compute_weight w s e a b c\<rparr>) s"
  have run: "score_entry w i s1 = Some s'" using assms(1) by (simp add: weigh_entry_def av s1_def)
  have fr: "score_frame s0 s1" unfolding s1_def by (intro score_frame_upd assms(2)) (simp add: rescored_def)
  have i: "i < length (queue_buf s1)" using assms(3) by (simp add: s1_def upd_entry_def)
  have same: "havoc_max_mult s1 = havoc_max_mult s" "schedule s1 = schedule s" "limit_time_sig s1 = limit_time_sig s"
    by (simp_all add: s1_def upd_entry_def)
  have "0 < weight (entry s1 i)" using assms(3) by (simp add: s1_def upd_entry_def entry_def compute_weight_pos)
  moreover have "\<forall>j. j \<noteq> i \<longrightarrow> entry s1 j = entry s j" by (simp add: s1_def upd_entry_def entry_def)
  ultimately show ?thesis using score_entry_result [OF run fr i] by (simp add: good_score_def same)
qed

text \<open>The loops over the entries.\<close>

lemma good_score_frame: "score_frame s s' \<Longrightarrow> good_score s' p = good_score s p"
  by (simp add: good_score_def score_frameD)

lemma each_active_result:
  assumes "each_active f is s = Some s'" and "\<And>i. i \<in> set is \<Longrightarrow> i < length (queue_buf s)" and "distinct is"
    and f: "\<And>i s s'. f i s = Some s' \<Longrightarrow> i < length (queue_buf s) \<Longrightarrow> good_score s = g \<Longrightarrow>
      score_frame s s' \<and> (\<forall>j. j \<noteq> i \<longrightarrow> entry s' j = entry s j) \<and> P (entry s' i)" and g: "good_score s = g"
  shows "score_frame s s' \<and> (\<forall>j. j \<notin> set is \<longrightarrow> entry s' j = entry s j) \<and>
    (\<forall>i\<in>set is. \<not> disabled (entry s i) \<longrightarrow> P (entry s' i))"
  using assms(1-3) g
proof (induction "is" arbitrary: s)
  case (Cons i "is")
  show ?case
  proof (cases "disabled (entry s i)")
    case True
    then show ?thesis using Cons by auto
  next
    case False
    then obtain s1 where s1: "f i s = Some s1" and rest: "each_active f is s1 = Some s'"
      using Cons.prems(1) by (auto simp: Option.bind_eq_Some_conv)
    have i: "score_frame s s1" "\<And>j. j \<noteq> i \<Longrightarrow> entry s1 j = entry s j" "P (entry s1 i)"
      using f [OF s1] Cons.prems by auto
    have "good_score s1 = g" using good_score_frame [OF i(1)] Cons.prems(4) by (simp add: fun_eq_iff)
    then have IH: "score_frame s1 s' \<and> (\<forall>j. j \<notin> set is \<longrightarrow> entry s' j = entry s1 j) \<and>
        (\<forall>i\<in>set is. \<not> disabled (entry s1 i) \<longrightarrow> P (entry s' i))"
      using Cons.IH [OF rest] Cons.prems score_frameD(1) [OF i(1)] by simp
    have ni: "i \<notin> set is" using Cons.prems by simp
    have "P (entry s' i)" using IH ni i(3) by metis
    moreover have "entry s' j = entry s j" if "j \<notin> set (i # is)" for j using that IH i(2) [of j] by simp
    moreover have "P (entry s' j)" if "j \<in> set is" "\<not> disabled (entry s j)" for j
      using that IH i(2) [of j] ni by metis
    ultimately show ?thesis using IH score_frame_trans [OF i(1)] by auto
  qed
qed simp

lemma score_frame_double: "score_frame s (double_newest s)"
proof -
  have "score_frame s (fold (\<lambda>i s. if disabled (entry s i) then s else upd_entry i (\<lambda>e. e\<lparr>weight := weight e * 2\<rparr>) s) is s')"
    if "score_frame s s'" for s' "is"
    using that
  proof (induction "is" arbitrary: s')
    case (Cons i "is")
    have "score_frame s (upd_entry i (\<lambda>e. e\<lparr>weight := weight e * 2\<rparr>) s')"
      by (rule score_frame_upd [OF Cons.prems]) (simp add: rescored_def)
    then show ?case using Cons.IH Cons.prems by simp
  qed simp
  then show ?thesis by (auto simp: double_newest_def)
qed

lemma active_entries: "e \<in> set (active s) \<Longrightarrow> \<exists>i. i < unat (queued_items s) \<and> i < length (queue_buf s) \<and> e = entry s i \<and> \<not> disabled e"
  by (auto simp: active_def in_set_conv_nth entry_def)

text \<open>The scaled weights add up to the number of entries.\<close>

lemma sum_list_scaled_weights:
  assumes "sum_list (map f (active s)) = sm" and "sm \<noteq> 0"
  shows "sum_list (scaled f sm s) = of_nat (unat (queued_items s))"
proof -
  define n :: rat where "n = of_nat (unat (queued_items s))"
  have sums: "sum_list (map (\<lambda>e. if disabled e then 0 else f e * n / sm) es) =
      sum_list (map f (filter (\<lambda>e. \<not> disabled e) es)) * n / sm" for es
    by (induction es) (simp_all add: add_divide_distrib distrib_left distrib_right)
  show ?thesis using assms unfolding scaled_def n_def [symmetric] sums active_def by simp
qed

definition queue_table :: "afl \<Rightarrow> tables" where
  "queue_table s = \<lparr>t_prob = alias_probability s, t_alias = map unat (alias_table s)\<rparr>"

definition table_ready :: "afl \<Rightarrow> bool" where
  "table_ready s \<longleftrightarrow> unat (queued_items s) \<le> length (queue_buf s) \<and> active s \<noteq> [] \<and>
     \<not> (schedule s = MMOPT \<and> queued_discovered s \<noteq> 0) \<and>
     (schedule s < RARE \<or> limit_time_sig s = 0 \<and> havoc_max_mult s * 100 \<noteq> 0)"

lemma sum_active_pos:
  fixes f :: "queue_entry \<Rightarrow> rat"
  assumes f: "\<And>e. e \<in> set (active s) \<Longrightarrow> 0 < f e" and ne: "active s \<noteq> []"
  shows "0 < sum_list (map f (active s))"
proof -
  obtain e es where es: "active s = e # es" using ne by (cases "active s") auto
  have "0 < f e" using f es by simp
  moreover have "0 \<le> sum_list (map f es)" by (rule sum_list_nonneg) (use f es in \<open>auto intro: less_imp_le\<close>)
  ultimately have "0 < f e + sum_list (map f es)" by simp
  then show ?thesis by (simp add: es)
qed

lemma queue_table_for:
  assumes f: "\<And>e. e \<in> set (active s) \<Longrightarrow> 0 < f e" and ne: "active s \<noteq> []" and n: "unat (queued_items s) \<le> length (queue_buf s)"
  shows "table_for (scaled f (sum_list (map f (active s))) s) (queue_table (set_table (scaled f (sum_list (map f (active s))) s) s))"
proof -
  let ?sm = "sum_list (map f (active s))" let ?P = "scaled f ?sm s"
  have pos: "0 < ?sm" by (rule sum_active_pos [OF f ne])
  have P: "\<forall>p\<in>set ?P. 0 \<le> p"
  proof
    fix p assume "p \<in> set ?P"
    then obtain e where e: "e \<in> set (take (unat (queued_items s)) (queue_buf s))"
        and p: "p = (if disabled e then 0 else f e * of_nat (unat (queued_items s)) / ?sm)"
      by (auto simp: scaled_def)
    have "0 < f e" if "\<not> disabled e" using that e by (intro f) (simp add: active_def)
    then show "0 \<le> p" using pos by (cases "disabled e") (simp_all add: p less_imp_le del: of_nat_unat)
  qed
  have len: "length ?P = unat (queued_items s)" using n by (simp add: scaled_def)
  have "sum_list ?P = of_nat (length ?P)" unfolding len by (rule sum_list_scaled_weights) (use pos in simp_all)
  then have t: "table_for ?P (alias_tables ?P)" by (intro table_for_alias_tables P) simp
  have "map unat (map (of_nat :: nat \<Rightarrow> u32) (t_alias (alias_tables ?P))) = t_alias (alias_tables ?P)"
  proof (rule nth_equalityI)
    fix i assume "i < length (map unat (map (of_nat :: nat \<Rightarrow> u32) (t_alias (alias_tables ?P))))"
    then have i: "i < length ?P" and li: "i < length (t_alias (alias_tables ?P))" using t by (simp_all add: table_for_def)
    then have "t_alias (alias_tables ?P) ! i < length ?P" using t by (simp add: table_for_def)
    then have "t_alias (alias_tables ?P) ! i < 2 ^ LENGTH(32)" using len unsigned_less [of "queued_items s", where ?'a = nat] by simp
    then show "map unat (map (of_nat :: nat \<Rightarrow> u32) (t_alias (alias_tables ?P))) ! i = t_alias (alias_tables ?P) ! i"
      using li by (simp add: unat_of_nat_small)
  qed simp
  then have "queue_table (set_table ?P s) = alias_tables ?P"
    by (cases "alias_tables ?P") (simp add: queue_table_def set_table_def Let_def)
  then show ?thesis using t by simp
qed

text \<open>After \<open>create_alias_table\<close> every entry is drawn with its weight, and no disabled entry ever.\<close>

lemma create_alias_table_result:
  assumes run: "create_alias_table w s = Some s'" and ok: "table_ready s"
  shows "table_for (scaled (table_weight s') (sum_list (map (table_weight s') (active s'))) s') (queue_table s') \<and>
    0 < sum_list (map (table_weight s') (active s')) \<and> (\<exists>s1 P. score_frame s s1 \<and> s' = set_table P s1) \<and>
    (\<forall>i < unat (queued_items s). \<not> disabled (entry s i) \<longrightarrow> good_score s (perf_score (entry s' i)))"
proof -
  let ?is = "[0..<unat (queued_items s)]"
  have n: "unat (queued_items s) \<le> length (queue_buf s)" using ok by (simp add: table_ready_def)
  define f where "f = (if schedule s < RARE
    then weigh_entry w (average (\<lambda>e. of_nat (unat (exec_us e))) s, average (\<lambda>e. libm_log w (bitmap_size e)) s,
                       average (\<lambda>e. of_nat (unat (tc_ref e))) s) else score_entry w)"
  define P :: "queue_entry \<Rightarrow> bool" where "P = (\<lambda>e. (schedule s < RARE \<longrightarrow> 0 < weight e) \<and> good_score s (perf_score e))"
  have step: "score_frame t t' \<and> (\<forall>j. j \<noteq> i \<longrightarrow> entry t' j = entry t j) \<and> P (entry t' i)"
    if "f i t = Some t'" "i < length (queue_buf t)" "good_score t = good_score s" for i t t'
  proof -
    have "good_score t p = good_score s p" for p using that(3) by simp
    then show ?thesis
      using that weigh_entry_result [OF _ score_frame_refl that(2)] score_entry_result [OF _ score_frame_refl that(2)]
      by (auto simp: f_def P_def split: if_splits)
  qed
  obtain s1 where s1: "each_active f ?is s = Some s1"
      and s2: "s' = (if schedule s < RARE
        then let sm = sum_list (map weight (active s1)); s2 = double_newest s1 in set_table (scaled weight sm s2) s2
        else let g = \<lambda>e. of_nat (unat (perf_score e)) in set_table (scaled g (sum_list (map g (active s1))) s1) s1)"
    using run by (auto simp: create_alias_table_def f_def Let_def split: if_splits)
  have "score_frame s s1 \<and> (\<forall>j. j \<notin> set ?is \<longrightarrow> entry s1 j = entry s j) \<and>
      (\<forall>i\<in>set ?is. \<not> disabled (entry s i) \<longrightarrow> P (entry s1 i))"
  proof (rule each_active_result [where f = f and g = "good_score s", OF s1])
    show "i \<in> set ?is \<Longrightarrow> i < length (queue_buf s)" for i using n by simp
  qed (use step in simp_all)
  then have r: "score_frame s s1" "\<And>i. i < unat (queued_items s) \<Longrightarrow> \<not> disabled (entry s i) \<Longrightarrow> P (entry s1 i)"
    by simp_all
  note d = score_frameD [OF r(1)]
  have "queued_discovered s1 = queued_discovered s" using r(1) by (rule score_frameD)
  then have "double_newest s1 = s1" using ok d(3) by (auto simp: double_newest_def table_ready_def)
  then have s': "s' = (let g = table_weight s1; sm = sum_list (map g (active s1)) in set_table (scaled g sm s1) s1)"
    using s2 by (auto simp: table_weight_def [abs_def] d(3) Let_def)
  have pos: "0 < table_weight s1 e" if e: "e \<in> set (active s1)" for e
  proof -
    obtain i where i: "i < unat (queued_items s)" "i < length (queue_buf s)" "e = entry s1 i" "\<not> disabled e"
      using active_entries [OF e] d(1,2) by auto
    then have "P e" using r(2) d(4) by auto
    then show ?thesis using ok
      by (auto simp: P_def table_weight_def d(3) good_score_def table_ready_def word_le_nat_alt less_schedule_def simp del: of_nat_unat)
  qed
  have ne: "active s1 \<noteq> []" using ok d n unfolding table_ready_def active_empty by auto
  have n1: "unat (queued_items s1) \<le> length (queue_buf s1)" using n d by simp
  note t = queue_table_for [of s1 "table_weight s1", OF pos ne n1]
  have same: "table_weight (set_table P s1) = table_weight s1" "active (set_table P s1) = active s1"
    "scaled g sm (set_table P s1) = scaled g sm s1" "entry (set_table P s1) = entry s1" for P g sm
    by (simp_all add: set_table_def Let_def table_weight_def active_def scaled_def entry_def fun_eq_iff)
  have "\<exists>s1 P. score_frame s s1 \<and> s' = set_table P s1" using r(1) s' unfolding Let_def by blast
  then show ?thesis using t r(2) sum_active_pos [of s1 "table_weight s1", OF pos ne] by (simp add: s' Let_def same P_def)
qed

text \<open>What a slot stands for has a weight, unless the draw is exactly one.\<close>

lemma drawn_slot:
  assumes t: "table_for P t" and sum: "sum_list P = of_nat (length P)" and i: "i < length P" and p: "0 \<le> p" "p < 1"
    and k: "k = (if p < t_prob t ! i then i else t_alias t ! i)"
  shows "k < length P \<and> 0 < P ! k"
proof -
  have len: "length (t_prob t) = length P" and al: "t_alias t ! i < length P"
    and pr: "\<And>i. i < length P \<Longrightarrow> 0 \<le> t_prob t ! i \<and> t_prob t ! i \<le> 1"
    and dr: "\<And>k. k < length P \<Longrightarrow> drawn t k = P ! k"
    using t sum i by (simp_all add: table_for_def)
  have kP: "k < length P" using i al k by simp
  let ?S = "\<Sum>j<length P. if t_alias t ! j = k then 1 - t_prob t ! j else 0"
  have nonneg: "0 \<le> ?S" by (intro sum_nonneg) (use pr in simp)
  have "0 < t_prob t ! k + ?S"
  proof (cases "p < t_prob t ! i")
    case True
    then show ?thesis using k p nonneg by simp
  next
    case False
    then have "t_alias t ! i = k" "t_prob t ! i < 1" using k p by simp_all
    then have "0 < (if t_alias t ! i = k then 1 - t_prob t ! i else 0)" by simp
    also have "\<dots> \<le> ?S" by (rule member_le_sum) (use i pr in auto)
    finally show ?thesis using pr [OF kP] by simp
  qed
  then show ?thesis using kP dr [OF kP] by (simp add: drawn_def len)
qed

lemma rand_next_percent_result:
  "rand_next_percent s = (p, s') \<Longrightarrow> 0 \<le> p \<and> p \<le> 1 \<and> rng_only s s'"
proof -
  assume a: "rand_next_percent s = (p, s')"
  obtain r s1 where r: "rand_next s = (r, s1)" by (cases "rand_next s")
  have "unat r < 2 ^ LENGTH(64)" by (rule unsigned_less)
  then have "unat r \<le> 2 ^ 64 - 1" by simp
  then have "(of_nat (unat r) :: rat) \<le> of_nat (2 ^ 64 - 1)" by (rule of_nat_mono)
  moreover have "p = of_nat (unat r) / of_nat (2 ^ 64 - 1)" "s' = s1" using a r by (simp_all add: rand_next_percent_def)
  moreover have "rng_only s s1" using r rng_only_rand_next [of s] by simp
  ultimately show ?thesis by (simp del: of_nat_unat)
qed

lemma picked_is_active:
  assumes run: "create_alias_table w s = Some s'" and ok: "table_ready s" and i: "i < unat (queued_items s)"
    and p: "0 \<le> p" "p < 1"
  shows "unat (pick_slot s' i p) < unat (queued_items s) \<and> \<not> disabled (entry s' (unat (pick_slot s' i p)))"
proof -
  let ?sm = "sum_list (map (table_weight s') (active s'))" let ?P = "scaled (table_weight s') ?sm s'"
  obtain s1 P where t: "table_for ?P (queue_table s')" and sm: "0 < ?sm" and fr: "score_frame s s1" and s': "s' = set_table P s1"
    using create_alias_table_result [OF run ok] by blast
  have n: "queued_items s' = queued_items s" "length (queue_buf s') = length (queue_buf s)"
    using score_frameD(1,2) [OF fr] by (simp_all add: s' set_table_def Let_def)
  have len: "length ?P = unat (queued_items s)" using n ok by (simp add: scaled_def table_ready_def)
  have sum: "sum_list ?P = of_nat (length ?P)"
    unfolding len n(1) [symmetric] by (rule sum_list_scaled_weights [OF refl]) (use sm in simp)
  have "unat (of_nat i :: u32) = i" by (rule unat_of_nat_small) (use i unsigned_less [of "queued_items s", where ?'a = nat] in simp)
  moreover have "length (alias_table s') = length ?P" using t by (simp add: table_for_def queue_table_def)
  ultimately have "unat (pick_slot s' i p) = (if p < t_prob (queue_table s') ! i then i else t_alias (queue_table s') ! i)"
    using i len by (simp add: pick_slot_def queue_table_def)
  from drawn_slot [OF t sum _ p this] i len
  have k: "unat (pick_slot s' i p) < length ?P" "0 < ?P ! unat (pick_slot s' i p)" by simp_all
  then show ?thesis using len n by (auto simp: scaled_def entry_def split: if_splits)
qed

text \<open>The table gives every entry its share.\<close>

lemma entry_share:
  assumes run: "create_alias_table w s = Some s'" and ok: "table_ready s" and k: "k < unat (queued_items s)"
  shows "drawn (queue_table s') k / of_nat (unat (queued_items s)) =
    (if disabled (entry s' k) then 0
     else table_weight s' (entry s' k) / sum_list (map (table_weight s') (active s')))"
proof -
  let ?sm = "sum_list (map (table_weight s') (active s'))" let ?P = "scaled (table_weight s') ?sm s'"
  obtain s1 P where t: "table_for ?P (queue_table s')" and sm: "0 < ?sm" and fr: "score_frame s s1" and s': "s' = set_table P s1"
    using create_alias_table_result [OF run ok] by blast
  have n: "queued_items s' = queued_items s" "length (queue_buf s') = length (queue_buf s)"
    using score_frameD(1,2) [OF fr] by (simp_all add: s' set_table_def Let_def)
  have len: "length ?P = unat (queued_items s)" using n ok by (simp add: scaled_def table_ready_def)
  have sum: "sum_list ?P = of_nat (length ?P)"
    unfolding len n(1) [symmetric] by (rule sum_list_scaled_weights [OF refl]) (use sm in simp)
  have "?P ! k = (if disabled (entry s' k) then 0 else table_weight s' (entry s' k) * of_nat (unat (queued_items s)) / ?sm)"
    using k n ok by (simp add: scaled_def entry_def table_ready_def del: of_nat_unat)
  moreover have "drawn (queue_table s') k = ?P ! k" using t sum len k by (simp add: table_for_def)
  moreover have "(of_nat (unat (queued_items s)) :: rat) \<noteq> 0" using k by (simp del: of_nat_unat)
  ultimately show ?thesis by (simp del: of_nat_unat)
qed

lemma selected_is_active:
  assumes run: "create_alias_table w s = Some s1" and ok: "table_ready s"
    and i: "rand_below w (queued_items s1) s1 = Some (i, s2)" and p: "rand_next_percent s2 = (p, s3)" and p1: "p < 1"
  shows "\<exists>k. select_next_queue_entry w s1 = Some (k, s3) \<and> k < queued_items s1 \<and> \<not> disabled (entry s1 (unat k))"
proof -
  obtain t P where fr: "score_frame s t" and s1: "s1 = set_table P t"
    using create_alias_table_result [OF run ok] by blast
  have n: "queued_items s1 = queued_items s" using score_frameD(2) [OF fr] by (simp add: s1 set_table_def Let_def)
  have "active s \<noteq> []" using ok by (simp add: table_ready_def)
  then have pos: "0 < queued_items s1" unfolding active_empty n by (auto simp: word_gt_0)
  have "i < queued_items s1" by (rule rand_below_less [OF i pos])
  then have iu: "unat i < unat (queued_items s)" by (simp add: n word_less_nat_alt)
  have p0: "0 \<le> p" using rand_next_percent_result [OF p] by simp
  have "rng_only s1 s3" using rand_below_result [OF i] rand_next_percent_result [OF p] rng_only_trans by blast
  then obtain x y z where s3: "s3 = s1\<lparr>rand_seed := x, rand_cnt := y, urandom_reads := z\<rparr>" by (auto simp: rng_only_def)
  have "pick_slot s3 (unat i) p = pick_slot s1 (unat i) p" by (simp add: pick_slot_def s3)
  then have "select_next_queue_entry w s1 = Some (pick_slot s1 (unat i) p, s3)"
    by (simp add: select_next_queue_entry_def i p)
  then show ?thesis using picked_is_active [OF run ok iu p0 p1] by (simp add: n word_less_nat_alt)
qed


text \<open>With an entry enabled, no score is fatal, and the table is made.\<close>

lemma active_frame: "score_frame s s' \<Longrightarrow> active s' = [] \<longleftrightarrow> active s = []"
  unfolding active_empty by (simp add: score_frameD)

lemma each_active_total:
  assumes "\<And>i s'. score_frame s s' \<Longrightarrow> \<exists>s''. f i s' = Some s'' \<and> score_frame s' s''"
  shows "\<exists>s'. each_active f is s = Some s' \<and> score_frame s s'"
  using assms
proof (induction "is" arbitrary: s)
  case (Cons i "is")
  obtain s1 where s1: "f i s = Some s1" "score_frame s s1" using Cons.prems [OF score_frame_refl] by blast
  have "\<exists>s''. f i s' = Some s'' \<and> score_frame s' s''" if "score_frame s1 s'" for i s'
    by (rule Cons.prems [OF score_frame_trans [OF s1(2) that]])
  from Cons.IH [OF this] obtain s' where "each_active f is s1 = Some s'" "score_frame s1 s'" by blast
  then show ?case using Cons.IH [OF Cons.prems] s1 score_frame_trans [OF s1(2)] by auto
qed simp

lemma score_entry_total:
  assumes "active s \<noteq> []"
  shows "\<exists>s'. score_entry w i s = Some s' \<and> score_frame s s'"
proof -
  obtain p s1 where c: "calculate_score w i s = Some (p, s1)" using calculate_score_dies [of w i s] assms by auto
  obtain h where "s1 = upd_entry i (\<lambda>e. e\<lparr>handicap := h\<rparr>) s" using calculate_score_bounds [OF c] by blast
  moreover have "score_frame s (upd_entry i (\<lambda>e. e\<lparr>perf_score := p\<rparr>) (upd_entry i (\<lambda>e. e\<lparr>handicap := h\<rparr>) s))"
    by (intro score_frame_upd score_frame_refl) (simp_all add: rescored_def)
  ultimately show ?thesis using c by (simp add: score_entry_def)
qed

lemma weigh_entry_total:
  assumes "active s \<noteq> []"
  shows "\<exists>s'. weigh_entry w avgs i s = Some s' \<and> score_frame s s'"
proof -
  obtain a b c where av: "avgs = (a, b, c)" by (cases avgs)
  let ?s = "upd_entry i (\<lambda>e. e\<lparr>weight := compute_weight w s e a b c\<rparr>) s"
  have fr: "score_frame s ?s" by (intro score_frame_upd score_frame_refl) (simp add: rescored_def)
  have "active ?s \<noteq> []" using active_frame [OF fr] assms by simp
  from score_entry_total [OF this] obtain s' where "score_entry w i ?s = Some s'" "score_frame ?s s'" by blast
  then show ?thesis using score_frame_trans [OF fr] by (simp add: weigh_entry_def av)
qed

lemma create_alias_table_total:
  assumes "active s \<noteq> []"
  shows "\<exists>s1 P. create_alias_table w s = Some (set_table P s1) \<and> score_frame s s1"
proof -
  have "\<exists>s''. score_entry w i s' = Some s'' \<and> score_frame s' s''" if "score_frame s s'" for i s'
    using score_entry_total active_frame [OF that] assms by simp
  then have a: "\<exists>s'. each_active (score_entry w) is s = Some s' \<and> score_frame s s'" for "is" by (rule each_active_total)
  define avgs where "avgs = (average (\<lambda>e. of_nat (unat (exec_us e))) s, average (\<lambda>e. libm_log w (bitmap_size e)) s,
    average (\<lambda>e. of_nat (unat (tc_ref e))) s)"
  have "\<exists>s''. weigh_entry w avgs i s' = Some s'' \<and> score_frame s' s''" if "score_frame s s'" for i s'
    using weigh_entry_total active_frame [OF that] assms by simp
  then have b: "\<exists>s'. each_active (weigh_entry w avgs) is s = Some s' \<and> score_frame s s'" for "is" by (rule each_active_total)
  show ?thesis
  proof (cases "schedule s < RARE")
    case True
    obtain s1 where "each_active (weigh_entry w avgs) [0..<unat (queued_items s)] s = Some s1" "score_frame s s1"
      using b by blast
    then show ?thesis using True score_frame_trans [OF _ score_frame_double, of s s1]
      by (auto simp: create_alias_table_def Let_def avgs_def [symmetric] simp del: of_nat_unat)
  next
    case False
    then show ?thesis using a [of "[0..<unat (queued_items s)]"] by (auto simp: create_alias_table_def Let_def)
  qed
qed

end
