(* ===== verification/SkipDet.thy ===== *)
theory SkipDet
  imports Campaign
begin

text \<open>
  Which bytes the deterministic stages are worth (\<^verbatim>\<open>src/afl-fuzz-skipdet.c\<close>): blocks that
  can be inverted without a change of the path are skipped, and of the other bytes those are
  marked that lead to something new when set to a random value.
\<close>

section \<open>Is the entry worth it?\<close>

definition MINIMAL_BLOCK_SIZE :: u32 where "MINIMAL_BLOCK_SIZE = 64"
definition MAXIMUM_QUICK_EFF_EXECS :: u32 where "MAXIMUM_QUICK_EFF_EXECS = 64 * 1024"
definition THRESHOLD_DEC_TIME :: u64 where "THRESHOLD_DEC_TIME = 20 * 60 * 1000"

definition covers :: "buf \<Rightarrow> nat \<Rightarrow> bool" where
  "covers mini i = bit (mini ! (i div 8)) (i mod 8)"

definition det_bits :: "buf \<Rightarrow> afl \<Rightarrow> nat list" where
  "det_bits mini s = filter (\<lambda>i. covers mini i \<and> the (virgin_det_bits s) ! i = 0) [0..<map_size s]"

text \<open>The threshold for new bits is lowered with the time nothing was found worth it.\<close>

definition lower_threshold :: "world \<Rightarrow> afl \<Rightarrow> afl" where
  "lower_threshold w s =
     (let s = (if last_cov_undet s = 0 then let (t, s) = get_cur_time w s in s\<lparr>last_cov_undet := t\<rparr> else s);
          (t, s) = get_cur_time w s
      in if t - last_cov_undet s \<ge> THRESHOLD_DEC_TIME \<and> undet_bits_threshold s \<ge> 2
         then let (t, s) = get_cur_time w s
              in s\<lparr>undet_bits_threshold := of_int \<lfloor>of_nat (unat (undet_bits_threshold s)) * (3 / 4 :: rat)\<rfloor>,
                   last_cov_undet := t\<rparr>
         else s)"

definition should_det_fuzz :: "world \<Rightarrow> nat \<Rightarrow> afl \<Rightarrow> bool \<times> afl" where
  "should_det_fuzz w q s =
     (let s = (if virgin_det_bits s = None then s\<lparr>virgin_det_bits := Some (replicate (map_size s) 0)\<rparr> else s)
      in if \<not> favored (entry s q) \<or> passed_det (entry s q) then (False, s)
         else case trace_mini (entry s q) of
           None \<Rightarrow> (False, s)
         | Some mini \<Rightarrow>
             let s = lower_threshold w s;
                 new = of_nat (length (det_bits mini s)) :: u32;
                 s = (if undet_bits_threshold s = 0
                      then s\<lparr>undet_bits_threshold := of_int \<lfloor>of_nat (unat new) / (20 :: rat)\<rfloor>\<rparr> else s)
             in if new \<ge> undet_bits_threshold s
                then let (t, s) = get_cur_time w s;
                         s = upd_entry q (\<lambda>e. e\<lparr>undet_bits := new\<rparr>) (s\<lparr>last_cov_undet := t\<rparr>)
                     in (True, s\<lparr>virgin_det_bits := Some (fold (\<lambda>i v. v[i := 1]) (det_bits mini s) (the (virgin_det_bits s)))\<rparr>)
                else (False, s))"

section \<open>Blocks without effect\<close>

record skip_locals =
  k_orig :: buf
  k_out :: buf
  k_len :: nat
  k_before :: u64
  k_hits :: u64
  k_prev :: u64
  k_prev0 :: u64
  k_execs :: u64
  k_time :: u64
  inf_eff_map :: buf
  k_pos :: nat
  k_block :: nat
  k_again :: bool
  k_rounds :: nat
  k_done :: bool
  non_eff_bytes :: buf

type_synonym kstate = "afl \<times> skip_locals"

text \<open>\<^verbatim>\<open>if (common_fuzz_stuff(afl, buf, len)) { return 0; }\<close>\<close>

definition try_with :: "runner \<Rightarrow> (skip_locals \<Rightarrow> buf) \<Rightarrow> kstate cmd" where
  "try_with cfs b st =
     (let (s, l) = st in
      map_option (\<lambda>(v, s'). (case v of Ret0 \<Rightarrow> Next | Ret1 \<Rightarrow> Return_zero | Died \<Rightarrow> Fatal, s', l))
        (cfs (b l) (k_len l) s))"

definition flip_range :: "buf \<Rightarrow> nat \<Rightarrow> nat \<Rightarrow> buf" where
  "flip_range input pos n = fold (\<lambda>i b. b[pos + i := b ! (pos + i) XOR 0xFF]) [0..<n] input"

definition flip_block_size :: "skip_locals \<Rightarrow> nat" where
  "flip_block_size l = (if k_block l + k_pos l < k_len l then k_block l else k_len l - 1 - k_pos l)"

definition flip_block :: "kstate cmd" where
  "flip_block = upd (\<lambda>(s, l). (s, l\<lparr>k_out := flip_range (k_out l) (k_pos l) (flip_block_size l)\<rparr>))"

definition infer_block :: "world \<Rightarrow> runner \<Rightarrow> kstate cmd" where
  "infer_block w cfs = steps [
     upd (\<lambda>(s, l). (s\<lparr>stage_cur := stage_cur s + 1\<rparr>, l)),
     flip_block, try_with cfs k_out, flip_block,
     cond (\<lambda>(s, l). hash64 w (trace_bits s) = k_prev0 l)
       (steps [upd (\<lambda>(s, l). (s, l\<lparr>k_block := k_block l * 2\<rparr>)),
         cond (\<lambda>(s, l). k_block l \<ge> k_len l - 1 - k_pos l) (goto Break) skip])
       (goto Break)]"

definition skip_block :: "kstate \<Rightarrow> kstate" where
  "skip_block = (\<lambda>(s, l).
     if k_block l = unat MINIMAL_BLOCK_SIZE then (s, l\<lparr>k_pos := k_pos l + k_block l\<rparr>)
     else let n = (if k_block l div 2 + k_pos l < k_len l then k_block l div 2 else k_len l - k_pos l - 1)
          in (s\<lparr>inf_skipped_bytes := inf_skipped_bytes s + of_nat n\<rparr>,
              l\<lparr>inf_eff_map := fill_at (inf_eff_map l) (k_pos l) 0 n, k_pos := k_pos l + n\<rparr>))"

definition infer_blocks :: "world \<Rightarrow> runner \<Rightarrow> kstate cmd" where
  "infer_blocks w cfs = steps [
     upd (\<lambda>(s, l). let (t, s) = get_cur_time w s in (s, l\<lparr>k_execs := total_execs s, k_time := t, k_pos := 0\<rparr>)),
     while_cmd (\<lambda>(s, l). k_pos l < k_len l - 1) (steps [
       upd (\<lambda>(s, l). (s, l\<lparr>k_block := unat MINIMAL_BLOCK_SIZE\<rparr>)),
       until Break (while_cmd (\<lambda>(s, l). k_block l < k_len l div 8) (infer_block w cfs)),
       upd skip_block]),
     upd (\<lambda>(s, l). let (t, s) = get_cur_time w s in
       (s\<lparr>inf_execs_cost := inf_execs_cost s + (total_execs s - k_execs l),
          inf_time_cost := inf_time_cost s + (t - k_time l)\<rparr>, l))]"

definition inference :: "world \<Rightarrow> runner \<Rightarrow> kstate cmd" where
  "inference w cfs = steps [
     upd (\<lambda>(s, l). (s\<lparr>stage_short := ''inf'', stage_name := ''inference'', stage_cur := 0\<rparr>,
       l\<lparr>k_hits := hits s, inf_eff_map := replicate (k_len l) 1\<rparr>)),
     try_with cfs k_orig,
     upd (\<lambda>(s, l). (s, l\<lparr>k_prev := hash64 w (trace_bits s), k_prev0 := hash64 w (trace_bits s)\<rparr>)),
     cond (\<lambda>(s, l). unat MINIMAL_BLOCK_SIZE * 8 < k_len l) (infer_blocks w cfs) skip,
     upd (\<lambda>(s, l). (s\<lparr>stage_finds := (stage_finds s)(STAGE_INF := stage_finds s STAGE_INF + (hits s - k_hits l)),
       stage_cycles := (stage_cycles s)(STAGE_INF := stage_cycles s STAGE_INF + ucast (stage_cur s))\<rparr>, l))]"

section \<open>Bytes with effect\<close>

abbreviation cur :: "afl \<Rightarrow> queue_entry" where "cur s \<equiv> entry s (queue_cur s)"

definition upd_cur :: "(queue_entry \<Rightarrow> queue_entry) \<Rightarrow> kstate cmd" where
  "upd_cur f = upd (\<lambda>(s, l). (upd_entry (queue_cur s) f s, l))"

definition eff_of :: "afl \<Rightarrow> buf" where "eff_of s = the (skip_eff_map (cur s))"

text \<open>
  The two maps are the entry's own, and stay with it. The old marks are cleared: the bytes have
  been fuzzed.
\<close>

definition repeat_eff :: "world \<Rightarrow> bool" where "repeat_eff w = env_set w ''REPEAT_EFF''"
definition fuzz_nearby :: "world \<Rightarrow> bool" where "fuzz_nearby w = env_set w ''FUZZ_NEARBY''"

definition fresh_eff :: "nat \<Rightarrow> queue_entry \<Rightarrow> queue_entry" where
  "fresh_eff len e = e\<lparr>skip_eff_map := Some (case skip_eff_map e of None \<Rightarrow> replicate len 0 | Some m \<Rightarrow> fill_at m 0 0 len)\<rparr>"

definition start_maps :: "nat \<Rightarrow> afl \<Rightarrow> afl" where
  "start_maps len s =
     (let s = upd_entry (queue_cur s) (fresh_eff len) s
      in case done_inf_map (cur s) of
           None \<Rightarrow> upd_entry (queue_cur s) (\<lambda>e. e\<lparr>done_inf_map := Some (replicate len 0)\<rparr>) s
         | Some m \<Rightarrow> s\<lparr>stage_cur := of_nat (length (takeWhile (\<lambda>x. x \<noteq> 0) (take len m)))\<rparr>)"

definition quick_start :: "world \<Rightarrow> runner \<Rightarrow> kstate cmd" where
  "quick_start w cfs = steps [
     upd (\<lambda>(s, l). (s\<lparr>stage_short := ''quick'', stage_name := ''quick eff'', stage_cur := 0, stage_max := 32 * 1024\<rparr>,
       l\<lparr>k_hits := hits s\<rparr>)),
     upd (\<lambda>(s, l). (start_maps (k_len l) s, l)),
     upd (\<lambda>(s, l). (s, l\<lparr>k_rounds := 0, k_done := False, k_execs := total_execs s\<rparr>)),
     cond (\<lambda>_. fuzz_nearby w) (steps [
       upd (\<lambda>(s, l). (s, l\<lparr>non_eff_bytes := replicate (k_len l) 0\<rparr>)),
       try_with cfs k_out,
       upd (\<lambda>(s, l). (s, l\<lparr>k_prev := hash64 w (trace_bits s)\<rparr>))]) skip]"

partial_function (option) other_byte :: "world \<Rightarrow> u8 \<Rightarrow> afl \<Rightarrow> (u8 \<times> afl) option" where
  "other_byte w orig s = Option.bind (rand_below w 256 s) (\<lambda>(r, s).
     if ucast r = orig then other_byte w orig s else Some (ucast r, s))"

definition put_other :: "world \<Rightarrow> nat \<Rightarrow> kstate cmd" where
  "put_other w i st =
     (let (s, l) = st in
      map_option (\<lambda>(v, s). (Next, s, l\<lparr>k_out := (k_out l)[i := v]\<rparr>)) (other_byte w (k_out l ! i) s))"

text \<open>\<^verbatim>\<open>if (is_det_timeout(before_det_time, 1)) { goto cleanup_skipdet; }\<close>\<close>

definition check_eff_timeout :: "world \<Rightarrow> kstate cmd" where
  "check_eff_timeout w st =
     (let (s, l) = st; (late, s) = is_det_timeout w (k_before l) True s
      in Some (if late then Cleanup_skipdet else Next, s, l))"

definition set_at :: "nat \<Rightarrow> u8 \<Rightarrow> buf option \<Rightarrow> buf option" where
  "set_at i v = map_option (\<lambda>m. m[i := v])"

text \<open>The byte led to something new.\<close>

definition mark_effective :: "world \<Rightarrow> nat \<Rightarrow> kstate cmd" where
  "mark_effective w i = steps [
     upd_cur (\<lambda>e. e\<lparr>skip_eff_map := set_at i 1 (skip_eff_map e), quick_eff_bytes := quick_eff_bytes e + 1\<rparr>),
     upd (\<lambda>(s, l). (if stage_max s < MAXIMUM_QUICK_EFF_EXECS then s\<lparr>stage_max := stage_max s * 2\<rparr> else s, l)),
     upd (\<lambda>(s, l). (s, if stage_max s = MAXIMUM_QUICK_EFF_EXECS \<and> repeat_eff w then l\<lparr>k_again := True\<rparr> else l))]"

definition quick_byte :: "world \<Rightarrow> runner \<Rightarrow> kstate cmd" where
  "quick_byte w cfs = reading (\<lambda>(s, l). (unat (stage_cur s), k_out l ! unat (stage_cur s), queued_items s)) (\<lambda>(i, orig, queued).
     steps [upd (\<lambda>(s, l). (s\<lparr>stage_cur_byte := of_nat i\<rparr>, l)),
       cond (\<lambda>(s, l). inf_eff_map l ! i = 0 \<or> eff_of s ! i \<noteq> 0) skip (steps [
         check_eff_timeout w,
         put_other w i,
         try_with cfs k_out,
         upd (\<lambda>(s, l). (s, l\<lparr>k_out := (k_out l)[i := orig]\<rparr>)),
         cond (\<lambda>(s, l). fuzz_nearby w \<and> k_prev l = hash64 w (trace_bits s))
           (upd (\<lambda>(s, l). (s, l\<lparr>non_eff_bytes := (non_eff_bytes l)[i := 1]\<rparr>))) skip,
         cond (\<lambda>(s, l). queued_items s \<noteq> queued) (mark_effective w i) skip,
         upd_cur (\<lambda>e. e\<lparr>done_inf_map := set_at i 1 (done_inf_map e)\<rparr>)])])"

definition quick_round :: "world \<Rightarrow> runner \<Rightarrow> kstate cmd" where
  "quick_round w cfs = steps [
     upd (\<lambda>(s, l). (s\<lparr>stage_max := 32 * 1024\<rparr>, l\<lparr>k_again := False\<rparr>)),
     while_cmd (\<lambda>(s, l). stage_cur s < stage_max s \<and> unat (stage_cur s) < k_len l)
       (steps [quick_byte w cfs, upd (\<lambda>(s, l). (s\<lparr>stage_cur := stage_cur s + 1\<rparr>, l))]),
     upd (\<lambda>(s, l). (s\<lparr>stage_cur := 0\<rparr>, l\<lparr>k_done := True, k_rounds := k_rounds l + 1\<rparr>)),
     cond (\<lambda>(s, l). k_rounds l \<ge> 8) (goto Break) skip]"

definition quick_eff :: "world \<Rightarrow> runner \<Rightarrow> kstate cmd" where
  "quick_eff w cfs = steps [
     quick_start w cfs,
     until Break (do_while (quick_round w cfs) (\<lambda>(s, l). k_again l)),
     upd (\<lambda>(s, l). (s\<lparr>stage_finds := (stage_finds s)(STAGE_QUICK := stage_finds s STAGE_QUICK + (hits s - k_hits l)),
       stage_cycles := (stage_cycles s)(STAGE_QUICK := stage_cycles s STAGE_QUICK + (total_execs s - k_execs l))\<rparr>, l))]"

section \<open>Neighbours\<close>

text \<open>Three bytes on both sides of one with effect; near the end one less.\<close>

function nearby :: "buf \<Rightarrow> nat \<Rightarrow> nat \<Rightarrow> buf \<Rightarrow> buf" where
  "nearby eff len i m =
     (if i < len
      then if eff ! i \<noteq> 0 then nearby eff len (i + 3) (fill_at m (i - 3) 1 (if i + 3 < len then 7 else len - i + 2))
           else nearby eff len (i + 1) m
      else m)"
  by pat_completeness auto
termination by (relation "measure (\<lambda>(eff, len, i, m). len - i)") auto

declare nearby.simps [simp del]

definition mark_nearby :: "nat \<Rightarrow> buf \<Rightarrow> buf \<Rightarrow> buf" where
  "mark_nearby len non eff =
     (let near = nearby eff len 3 (replicate len 0)
      in fold (\<lambda>i m. if near ! i \<noteq> 0 \<and> non ! i = 0 then m[i := 1] else m) [0..<len] eff)"

definition cleanup_skipdet :: "world \<Rightarrow> kstate cmd" where
  "cleanup_skipdet w = steps [
     cond (\<lambda>_. fuzz_nearby w) (reading (\<lambda>(s, l). (k_len l, non_eff_bytes l)) (\<lambda>(len, non).
       upd_cur (\<lambda>e. e\<lparr>skip_eff_map := map_option (mark_nearby len non) (skip_eff_map e)\<rparr>))) skip,
     reading (\<lambda>(s, l). k_done l) (\<lambda>d. upd_cur (\<lambda>e. if d then e\<lparr>continue_inf := False, done_eff := True\<rparr>
       else e\<lparr>continue_inf := True\<rparr>))]"

text \<open>The result is 0 with the exit \<^term>\<open>Return_zero\<close>, and 1 with the normal one.\<close>

definition skip_deterministic_stage ::
    "world \<Rightarrow> runner \<Rightarrow> buf \<Rightarrow> buf \<Rightarrow> nat \<Rightarrow> u64 \<Rightarrow> afl \<Rightarrow> (flow \<times> buf \<times> afl) option" where
  "skip_deterministic_stage w cfs orig_buf out len before s =
     (if done_eff (cur s) then Some (Next, out, s)
      else let (fuzz, s) = should_det_fuzz w (queue_cur s) s;
               l = \<lparr>k_orig = orig_buf, k_out = out, k_len = len, k_before = before, k_hits = 0, k_prev = 0, k_prev0 = 0,
                    k_execs = 0, k_time = 0, inf_eff_map = [], k_pos = 0, k_block = 0, k_again = False,
                    k_rounds = 0, k_done = False, non_eff_bytes = []\<rparr>
           in if \<not> fuzz then Some (Next, out, s)
              else map_option (\<lambda>(f, s, l). (f, k_out l, s))
                (steps [inference w cfs, until Cleanup_skipdet (quick_eff w cfs), cleanup_skipdet w] (s, l)))"

section \<open>The flips are undone\<close>

lemma flip_range_result:
  assumes "pos + n \<le> length b"
  shows "length (flip_range b pos n) = length b \<and>
    (\<forall>i<length b. flip_range b pos n ! i = (if pos \<le> i \<and> i < pos + n then b ! i XOR 0xFF else b ! i))"
  using assms
proof (induction n)
  case 0
  then show ?case by (auto simp: flip_range_def)
next
  case (Suc n)
  have "flip_range b pos (Suc n) = (flip_range b pos n)[pos + n := flip_range b pos n ! (pos + n) XOR 0xFF]"
    by (simp add: flip_range_def)
  then show ?case using Suc by (auto simp: nth_list_update)
qed

lemma flip_range_twice:
  assumes "pos + n \<le> length b"
  shows "flip_range (flip_range b pos n) pos n = b"
proof -
  note 1 = flip_range_result [OF assms]
  have "pos + n \<le> length (flip_range b pos n)" using 1 assms by simp
  note 2 = flip_range_result [OF this]
  show ?thesis using 1 2 by (intro nth_equalityI) auto
qed

lemma length_mark_nearby [simp]: "length (mark_nearby len non eff) = length eff"
proof -
  have "length (fold (\<lambda>i m. if near ! i \<noteq> 0 \<and> non ! i = 0 then m[i := 1] else m) is eff) = length eff" for near "is"
    by (induction "is" arbitrary: eff) auto
  then show ?thesis by (simp add: mark_nearby_def Let_def)
qed

section \<open>Helpers\<close>

lemma wp_upd_cur [simp]: "wp d (upd_cur f) Q (s, l) = Q Next (upd_entry (queue_cur s) f s, l)"
  by (simp add: upd_cur_def)

lemma wp_check_eff_timeout [simp]:
  "wp d (check_eff_timeout w) Q (s, l) \<longleftrightarrow>
     Q (if clock_ms w (ticks s) - k_before l > MAX_EFF_TIMEOUT then Cleanup_skipdet else Next)
       (s\<lparr>ticks := Suc (ticks s)\<rparr>, l)"
  by (simp add: wp_def check_eff_timeout_def is_det_timeout_def get_cur_time_def)

lemma other_byte_result:
  assumes "other_byte w orig s = Some r"
  shows "fst r \<noteq> orig \<and> rng_only s (snd r)"
proof (rule other_byte.raw_induct [where P = "\<lambda>w orig s r. fst r \<noteq> orig \<and> rng_only s (snd r)", OF _ assms])
  fix f w orig s r
  assume IH: "\<And>w orig s r. f w orig s = Some r \<Longrightarrow> fst r \<noteq> orig \<and> rng_only s (snd r)"
    and run: "Option.bind (rand_below w 256 s) (\<lambda>(r, s). if ucast r = orig then f w orig s else Some (ucast r, s)) = Some r"
  obtain x s1 where x: "rand_below w 256 s = Some (x, s1)"
    and rest: "(if ucast x = orig then f w orig s1 else Some (ucast x, s1)) = Some r"
    using run by (auto simp: Option.bind_eq_Some_conv)
  have "rng_only s s1" using rand_below_result [OF x] by blast
  then show "fst r \<noteq> orig \<and> rng_only s (snd r)"
    using rest IH [of w orig s1 r] rng_only_trans by (cases "ucast x = orig") auto
qed

section \<open>The fuzzer stays sound\<close>

lemma settled_upd_more [simp]:
  "settled D (s\<lparr>ticks := x1\<rparr>) = settled D s" "settled D (s\<lparr>inf_skipped_bytes := x2\<rparr>) = settled D s"
  "settled D (s\<lparr>inf_execs_cost := x3\<rparr>) = settled D s" "settled D (s\<lparr>inf_time_cost := x4\<rparr>) = settled D s"
  "settled D (s\<lparr>undet_bits_threshold := x5\<rparr>) = settled D s" "settled D (s\<lparr>last_cov_undet := x6\<rparr>) = settled D s"
  "settled D (s\<lparr>virgin_det_bits := x7\<rparr>) = settled D s"
  by (simp_all add: settled_def queue_ok_def sources_ok_def sizes_ok_def entries_ok_def dicts_ok_def dict_ok_def
      bandit_ok_def entry_def)

lemma settled_upd_entry:
  assumes s: "settled D s" and q: "q < length (queue_buf s)"
    and f: "q_len (f (entry s q)) = q_len (entry s q)" "entry_ok (entry s q) \<Longrightarrow> entry_ok (f (entry s q))"
      "testcase_buf (f (entry s q)) = testcase_buf (entry s q)"
  shows "settled D (upd_entry q f s)"
proof -
  have ok: "entries_ok s" "sizes_ok s" using s by (simp_all add: settled_def queue_ok_def sources_ok_def)
  have e: "entry_ok (f (queue_buf s ! q))" using ok(1) f(2) q by (simp add: entries_ok_def entry_def)
  have z: "0 < q_len (f (queue_buf s ! q)) \<and> unat (q_len (f (queue_buf s ! q))) \<le> MAX_FILE"
    using ok(2) f(1) q by (simp add: sizes_ok_def entry_def)
  have c: "q_testcase_max_cache_size s = 0 \<Longrightarrow> testcase_buf (f (queue_buf s ! q)) = None"
    using ok(1) f(3) q by (simp add: entries_ok_def entry_def)
  have "entries_ok (upd_entry q f s)" using ok(1) e c by (auto simp: entries_ok_def upd_entry_def dest!: set_update_subset_insert [THEN subsetD])
  moreover have "sizes_ok (upd_entry q f s)" using ok(2) z by (auto simp: sizes_ok_def upd_entry_def dest!: set_update_subset_insert [THEN subsetD])
  moreover have "q_len (entry (upd_entry q f s) i) = q_len (entry s i)" for i
    using f(1) q by (cases "i = q") (simp_all add: upd_entry_def entry_def)
  ultimately show ?thesis using s
    by (simp add: settled_def queue_ok_def sources_ok_def) (simp add: upd_entry_def dicts_ok_def dict_ok_def bandit_ok_def)
qed

definition kin :: "before \<Rightarrow> buf \<Rightarrow> kstate \<Rightarrow> bool" where
  "kin D b st \<longleftrightarrow> (let (s, l) = st in
     settled D s \<and> k_orig l = b \<and> k_out l = b \<and> k_len l = length b \<and> mutable b \<and> unat (snd D) = length b)"

text \<open>How the function leaves early.\<close>

definition kleft :: "before \<Rightarrow> flow \<Rightarrow> kstate \<Rightarrow> bool" where
  "kleft D f st \<longleftrightarrow> (f = Return_zero \<or> f = Fatal) \<and> settled D (fst st)"

definition winv :: "before \<Rightarrow> buf \<Rightarrow> kstate \<Rightarrow> bool" where
  "winv D b st \<longleftrightarrow> kin D b st \<and> length (inf_eff_map (snd st)) = length b"

lemma winv_upd [simp]:
  "winv D b (s\<lparr>stage_cur := x1\<rparr>, l) = winv D b (s, l)" "winv D b (s\<lparr>stage_max := x2\<rparr>, l) = winv D b (s, l)"
  "winv D b (s\<lparr>stage_name := x3\<rparr>, l) = winv D b (s, l)" "winv D b (s\<lparr>stage_short := x4\<rparr>, l) = winv D b (s, l)"
  "winv D b (s\<lparr>ticks := x5\<rparr>, l) = winv D b (s, l)" "winv D b (s\<lparr>stage_cur_byte := x6\<rparr>, l) = winv D b (s, l)"
  "winv D b (s\<lparr>stage_finds := x7\<rparr>, l) = winv D b (s, l)" "winv D b (s\<lparr>stage_cycles := x8\<rparr>, l) = winv D b (s, l)"
  "winv D b (s\<lparr>inf_skipped_bytes := x9\<rparr>, l) = winv D b (s, l)"
  "winv D b (s\<lparr>inf_execs_cost := y1\<rparr>, l) = winv D b (s, l)" "winv D b (s\<lparr>inf_time_cost := y2\<rparr>, l) = winv D b (s, l)"
  "winv D b (s, l\<lparr>k_hits := z1\<rparr>) = winv D b (s, l)" "winv D b (s, l\<lparr>k_prev := z2\<rparr>) = winv D b (s, l)"
  "winv D b (s, l\<lparr>k_prev0 := z3\<rparr>) = winv D b (s, l)" "winv D b (s, l\<lparr>k_execs := z4\<rparr>) = winv D b (s, l)"
  "winv D b (s, l\<lparr>k_time := z5\<rparr>) = winv D b (s, l)" "winv D b (s, l\<lparr>k_pos := z6\<rparr>) = winv D b (s, l)"
  "winv D b (s, l\<lparr>k_block := z7\<rparr>) = winv D b (s, l)" "winv D b (s, l\<lparr>k_again := z8\<rparr>) = winv D b (s, l)"
  "winv D b (s, l\<lparr>k_rounds := z9\<rparr>) = winv D b (s, l)" "winv D b (s, l\<lparr>k_done := v1\<rparr>) = winv D b (s, l)"
  "winv D b (s, l\<lparr>non_eff_bytes := v2\<rparr>) = winv D b (s, l)"
  by (simp_all add: winv_def kin_def)

context havoc_runner
begin

lemma wp_try_with:
  assumes s: "settled D s" and b: "mutable (x l)" "k_len l = length (x l)"
    and Q: "\<And>v s'. settled D s' \<Longrightarrow> stage_frame s s' \<Longrightarrow> q_kept (cur s') = q_kept (cur s) \<Longrightarrow>
      set (delivered s') = insert (x l) (set (delivered s)) \<Longrightarrow>
      Q (case v of Ret0 \<Rightarrow> Next | Ret1 \<Rightarrow> Return_zero | Died \<Rightarrow> Fatal) (s', l)"
  shows "wp True (try_with cfs x) Q (s, l)"
proof (cases "cfs (x l) (k_len l) s")
  case None
  then show ?thesis by (simp add: wp_def try_with_def)
next
  case (Some r)
  obtain v s' where r: "r = (v, s')" by (cases r)
  note c = cfs_settled [OF _ s b(1), of v s']
  have "queue_cur s' = queue_cur s" if "stage_frame s s'" using that by (simp add: stage_frame_def)
  then show ?thesis using Q [of s' v] c Some b(2) by (simp add: wp_def try_with_def r)
qed

lemma wp_infer_block:
  assumes inv: "winv D b (s, l)" and pos: "k_pos l < length b - 1" and blk: "unat MINIMAL_BLOCK_SIZE \<le> k_block l"
    and Q: "\<And>f st. kleft D f st \<Longrightarrow> Q f st"
    and Go: "\<And>s' n f. winv D b (s', l\<lparr>k_block := n\<rparr>) \<Longrightarrow> unat MINIMAL_BLOCK_SIZE \<le> n \<Longrightarrow>
      f = Next \<and> n = 2 * k_block l \<or> f = Break \<Longrightarrow> Q f (s', l\<lparr>k_block := n\<rparr>)"
  shows "wp True (infer_block w cfs) Q (s, l)"
proof -
  define n where "n = flip_block_size l"
  have k: "k_len l = length b" "k_out l = b" "mutable b" "settled D s" using inv by (simp_all add: winv_def kin_def)
  have n: "k_pos l + n \<le> length b" using pos k by (simp add: n_def flip_block_size_def)
  have nb: "flip_block_size (l\<lparr>k_out := x\<rparr>) = n" for x by (simp add: n_def flip_block_size_def)
  let ?s = "s\<lparr>stage_cur := stage_cur s + 1\<rparr>" let ?c = "flip_range b (k_pos l) n" let ?l = "l\<lparr>k_out := ?c\<rparr>"
  let ?last = "cond (\<lambda>(s, l). hash64 w (trace_bits s) = k_prev0 l)
       (steps [upd (\<lambda>(s, l). (s, l\<lparr>k_block := k_block l * 2\<rparr>)),
         cond (\<lambda>(s, l). k_block l \<ge> k_len l - 1 - k_pos l) (goto Break) skip])
       (goto Break)"
  have len: "length ?c = length b" using flip_range_result [OF n] by simp
  then have mc: "mutable ?c" using k(3) by (simp add: mutable_def)
  have undo: "l\<lparr>k_out := b\<rparr> = l" using k(2) by (cases l) simp
  have last: "wp True ?last Q (s', l)" if s': "settled D s'" for s'
  proof -
    have w: "winv D b (s', l\<lparr>k_block := m\<rparr>)" for m using inv s' by (simp add: winv_def kin_def)
    have "Q Break (s', l\<lparr>k_block := k_block l * 2\<rparr>)" "Q Next (s', l\<lparr>k_block := k_block l * 2\<rparr>)"
      using blk by (auto intro!: Go [OF w])
    moreover have "Q Break (s', l)" using Go [OF w [of "k_block l"], of Break] blk by simp
    ultimately show ?thesis by simp
  qed
  have mid: "wp True (steps [try_with cfs k_out, flip_block, ?last]) Q (?s, ?l)"
  proof (subst wp_Cons, rule wp_try_with [where D = D])
    fix v s' assume s': "settled D s'" and fr: "stage_frame ?s s'"
    have "wp True (steps [flip_block, ?last]) Q (s', ?l)"
      using last [OF s'] by (simp add: flip_block_def nb flip_range_twice [OF n] undo)
    then show "andthen (wp True (steps [flip_block, ?last]) Q) Q
        (case v of Ret0 \<Rightarrow> Next | Ret1 \<Rightarrow> Return_zero | Died \<Rightarrow> Fatal) (s', ?l)"
      using s' Q by (cases v) (simp_all add: kleft_def)
  qed (use k mc len in simp_all)
  have eq: "wp True (infer_block w cfs) Q (s, l) = wp True (steps [try_with cfs k_out, flip_block, ?last]) Q (?s, ?l)"
    by (simp add: infer_block_def flip_block_def k n_def)
  show ?thesis unfolding eq by (rule mid)
qed

lemma wp_infer_inner:
  assumes i: "winv D b (s, l)" "k_pos l < length b - 1" "unat MINIMAL_BLOCK_SIZE \<le> k_block l"
    and Q: "\<And>f st. kleft D f st \<Longrightarrow> Q f st"
  shows "wp True (until Break (while_cmd (\<lambda>(s, l). k_block l < k_len l div 8) (infer_block w cfs)))
    (andthen (\<lambda>(s', l'). winv D b (s', l') \<and> k_pos l' = k_pos l \<and> unat MINIMAL_BLOCK_SIZE \<le> k_block l') Q) (s, l)"
proof -
  let ?I = "\<lambda>(s', l'). winv D b (s', l') \<and> k_pos l' = k_pos l \<and> unat MINIMAL_BLOCK_SIZE \<le> k_block l'"
  let ?Q = "\<lambda>f st'. andthen ?I Q (if f = Break then Next else f) st'"
  have "wp True (while_cmd (\<lambda>(s, l). k_block l < k_len l div 8) (infer_block w cfs)) ?Q (s, l)"
  proof (rule wp_while [where I = ?I and m = "\<lambda>(s, l). length b - k_block l"])
    fix st assume I: "?I st" and less: "case st of (s, l) \<Rightarrow> k_block l < k_len l div 8"
    obtain s1 l1 where st: "st = (s1, l1)" by (cases st)
    have w1: "winv D b (s1, l1)" "k_pos l1 < length b - 1" "unat MINIMAL_BLOCK_SIZE \<le> k_block l1" "k_pos l1 = k_pos l"
      using I i(2) by (simp_all add: st)
    have "k_len l1 = length b" using w1(1) by (simp add: winv_def kin_def)
    then have small: "k_block l1 < length b" "0 < k_block l1"
      using less w1(3) by (auto simp: st MINIMAL_BLOCK_SIZE_def)
    show "wp True (infer_block w cfs) (andthen (\<lambda>s'. ?I s' \<and> (case s' of (s, l) \<Rightarrow> length b - k_block l) <
        (case st of (s, l) \<Rightarrow> length b - k_block l)) ?Q) st"
      unfolding st by (rule wp_infer_block [OF w1(1-3)]) (use w1(4) small Q in \<open>auto simp: kleft_def\<close>)
  qed (use i in auto)
  then show ?thesis by simp
qed

lemma winv_skip_block:
  assumes i: "winv D b (s, l)" and pos: "k_pos l < length b - 1" and blk: "unat MINIMAL_BLOCK_SIZE \<le> k_block l"
  shows "winv D b (skip_block (s, l)) \<and> k_pos l < k_pos (snd (skip_block (s, l)))"
proof (cases "k_block l = unat MINIMAL_BLOCK_SIZE")
  case True
  then show ?thesis using i by (simp add: skip_block_def MINIMAL_BLOCK_SIZE_def)
next
  case False
  define n where "n = (if k_block l div 2 + k_pos l < k_len l then k_block l div 2 else k_len l - k_pos l - 1)"
  have l: "k_len l = length b" "length (inf_eff_map l) = length b" using i by (simp_all add: winv_def kin_def)
  have n: "0 < n" "k_pos l + n \<le> length b"
    using pos blk l by (auto simp: n_def MINIMAL_BLOCK_SIZE_def)
  have "skip_block (s, l) = (s\<lparr>inf_skipped_bytes := inf_skipped_bytes s + of_nat n\<rparr>,
      l\<lparr>inf_eff_map := fill_at (inf_eff_map l) (k_pos l) 0 n, k_pos := k_pos l + n\<rparr>)"
    using False by (simp add: skip_block_def Let_def n_def)
  then show ?thesis using i n l by (simp add: winv_def kin_def)
qed

lemma wp_infer_blocks:
  assumes inv: "winv D b (s, l)" and Q: "\<And>f st. kleft D f st \<Longrightarrow> Q f st" and Next: "\<And>st. winv D b st \<Longrightarrow> Q Next st"
  shows "wp True (infer_blocks w cfs) Q (s, l)"
proof -
  let ?inner = "until Break (while_cmd (\<lambda>(s, l). k_block l < k_len l div 8) (infer_block w cfs))"
  let ?m = "\<lambda>(s, l). length b - k_pos l"
  let ?body = "steps [upd (\<lambda>(s, l). (s, l\<lparr>k_block := unat MINIMAL_BLOCK_SIZE\<rparr>)), ?inner, upd skip_block]"
  let ?close = "upd (\<lambda>(s, l). let (t, s) = get_cur_time w s in
       (s\<lparr>inf_execs_cost := inf_execs_cost s + (total_execs s - k_execs l),
          inf_time_cost := inf_time_cost s + (t - k_time l)\<rparr>, l))"
  have body: "wp True ?body (andthen (\<lambda>st'. winv D b st' \<and> ?m st' < ?m st) R) st"
    if I: "winv D b st" and less: "case st of (s, l) \<Rightarrow> k_pos l < k_len l - 1" and R: "\<And>f st. kleft D f st \<Longrightarrow> R f st" for st R
  proof -
    obtain s1 l1 where st: "st = (s1, l1)" by (cases st)
    let ?R = "andthen (\<lambda>st'. winv D b st' \<and> ?m st' < ?m st) R"
    have i: "winv D b (s1, l1\<lparr>k_block := unat MINIMAL_BLOCK_SIZE\<rparr>)" "k_pos l1 < length b - 1"
      using I less by (simp_all add: st winv_def kin_def)
    have "wp True (steps [?inner, upd skip_block]) ?R (s1, l1\<lparr>k_block := unat MINIMAL_BLOCK_SIZE\<rparr>)"
    proof (rule wp_seq [OF wp_infer_inner [OF i(1)]])
      show "\<And>f st. kleft D f st \<Longrightarrow> ?R f st" using R by (auto simp: kleft_def)
      fix st2 :: kstate
      assume "case st2 of (s', l') \<Rightarrow> winv D b (s', l') \<and> k_pos l' = k_pos (l1\<lparr>k_block := unat MINIMAL_BLOCK_SIZE\<rparr>) \<and>
        unat MINIMAL_BLOCK_SIZE \<le> k_block l'"
      then obtain s2 l2 where st2: "st2 = (s2, l2)" and w2: "winv D b (s2, l2)" "k_pos l2 = k_pos l1"
          "unat MINIMAL_BLOCK_SIZE \<le> k_block l2" by (cases st2) auto
      show "wp True (steps [upd skip_block]) ?R st2"
        using winv_skip_block [OF w2(1) _ w2(3)] w2(2) i(2) by (auto simp: st st2 split: prod.split)
    qed (use i in simp_all)
    then show ?thesis by (simp add: st)
  qed
  have loop: "wp True (while_cmd (\<lambda>(s, l). k_pos l < k_len l - 1) ?body) (andthen (winv D b) Q) st" if "winv D b st" for st
    by (rule wp_while [where I = "winv D b" and m = ?m]) (use that body Q in \<open>auto simp: kleft_def\<close>)
  show ?thesis unfolding infer_blocks_def
  proof (rule wp_seq [where R = "winv D b"])
    show "wp True (steps [while_cmd (\<lambda>(s, l). k_pos l < k_len l - 1) ?body, ?close]) Q st" if "winv D b st" for st
      by (rule wp_seq [OF loop [OF that]]) (auto simp: get_cur_time_def intro!: Next)
  qed (use inv in \<open>simp add: get_cur_time_def\<close>)
qed

lemma wp_inference:
  assumes inv: "kin D b (s, l)" and Q: "\<And>f st. kleft D f st \<Longrightarrow> Q f st" and Next: "\<And>st. winv D b st \<Longrightarrow> Q Next st"
  shows "wp True (inference w cfs) Q (s, l)"
proof -
  let ?s = "s\<lparr>stage_short := ''inf'', stage_name := ''inference'', stage_cur := 0\<rparr>"
  let ?l = "l\<lparr>k_hits := hits s, inf_eff_map := replicate (k_len l) 1\<rparr>"
  have k: "k_orig l = b" "k_len l = length b" "mutable b" "settled D s" using inv by (simp_all add: kin_def)
  have w: "winv D b (?s, ?l)" using inv by (simp add: winv_def kin_def)
  let ?close = "upd (\<lambda>(s, l). (s\<lparr>stage_finds := (stage_finds s)(STAGE_INF := stage_finds s STAGE_INF + (hits s - k_hits l)),
       stage_cycles := (stage_cycles s)(STAGE_INF := stage_cycles s STAGE_INF + ucast (stage_cur s))\<rparr>, l))"
  let ?cond = "cond (\<lambda>(s, l). unat MINIMAL_BLOCK_SIZE * 8 < k_len l) (infer_blocks w cfs) skip"
  let ?hash = "upd (\<lambda>(s, l). (s, l\<lparr>k_prev := hash64 w (trace_bits s), k_prev0 := hash64 w (trace_bits s)\<rparr>))"
  have fin: "wp True (steps [?close]) Q st" if "winv D b st" for st
    using that Next by (cases st) simp
  have left: "andthen (winv D b) Q f st" if "kleft D f st" for f st
    using Q [OF that] that by (cases "f = Next") (simp_all add: kleft_def)
  have "wp True ?cond (andthen (winv D b) Q) (s1, l1)" if "winv D b (s1, l1)" for s1 l1
    using that wp_infer_blocks [OF that, where Q = "andthen (winv D b) Q", OF left] by (simp add: skip_def)
  then have "wp True ?cond (andthen (winv D b) Q) st" if "winv D b st" for st
    using that by (cases st) blast
  then have rest: "wp True (steps [?cond, ?close]) Q st" if "winv D b st" for st
    by (rule wp_seq) (use that fin in auto)
  have "wp True (steps [try_with cfs k_orig, ?hash, ?cond, ?close]) Q (?s, ?l)"
  proof (rule wp_seq [where R = "winv D b"])
    show "wp True (try_with cfs k_orig) (andthen (winv D b) Q) (?s, ?l)"
    proof (rule wp_try_with [where D = D])
      fix v s' assume "settled D s'"
      then show "andthen (winv D b) Q (case v of Ret0 \<Rightarrow> Next | Ret1 \<Rightarrow> Return_zero | Died \<Rightarrow> Fatal) (s', ?l)"
        using w Q by (cases v) (simp_all add: kleft_def winv_def kin_def)
    qed (use k in simp_all)
    fix st assume "winv D b st"
    then show "wp True (steps [?hash, ?cond, ?close]) Q st"
      by (intro wp_seq [where R = "winv D b", OF _ rest]) (auto split: prod.split)
  qed
  then show ?thesis by (simp add: inference_def)
qed

end

section \<open>Marked bytes have effect\<close>

text \<open>The two maps exist, and for every marked byte an input that differs there alone was tried.\<close>

definition tested :: "buf \<Rightarrow> afl \<Rightarrow> bool" where
  "tested b s \<longleftrightarrow> (\<forall>i<length b. eff_of s ! i \<noteq> 0 \<longrightarrow> (\<exists>x. x \<noteq> b ! i \<and> b[i := x] \<in> set (delivered s)))"

definition qinv :: "before \<Rightarrow> buf \<Rightarrow> kstate \<Rightarrow> bool" where
  "qinv D b st \<longleftrightarrow> (let (s, l) = st in winv D b (s, l) \<and> skip_eff_map (cur s) \<noteq> None \<and> done_inf_map (cur s) \<noteq> None \<and>
     tested b s)"

lemma qinv_winv: "qinv D b (s, l) \<Longrightarrow> winv D b (s, l)"
  by (simp add: qinv_def)

lemma qinv_upd [simp]:
  "qinv D b (s\<lparr>stage_cur := x1\<rparr>, l) = qinv D b (s, l)" "qinv D b (s\<lparr>stage_max := x2\<rparr>, l) = qinv D b (s, l)"
  "qinv D b (s\<lparr>stage_cur_byte := x6\<rparr>, l) = qinv D b (s, l)" "qinv D b (s\<lparr>ticks := x7\<rparr>, l) = qinv D b (s, l)"
  "qinv D b (s, l\<lparr>k_prev := z2\<rparr>) = qinv D b (s, l)"
  "qinv D b (s, l\<lparr>k_again := z8\<rparr>) = qinv D b (s, l)"
  "qinv D b (s, l\<lparr>k_rounds := z9\<rparr>) = qinv D b (s, l)" "qinv D b (s, l\<lparr>k_done := v1\<rparr>) = qinv D b (s, l)"
  "qinv D b (s, l\<lparr>non_eff_bytes := v2\<rparr>) = qinv D b (s, l)"
  by (simp_all add: qinv_def) (simp_all add: entry_def tested_def eff_of_def)

lemma settled_cur:
  assumes "settled D s"
  shows "queue_cur s < length (queue_buf s)" "entry_ok (cur s)" "q_len (cur s) = snd D"
  using assms by (simp_all add: settled_def queue_ok_def sources_ok_def entries_ok_def entry_def)

lemma cur_upd_entry:
  "queue_cur s < length (queue_buf s) \<Longrightarrow> entry (upd_entry (queue_cur s) f s) (queue_cur s) = f (cur s)"
  by (simp add: upd_entry_def entry_def)

lemma cur_same: "queue_cur (upd_entry q f s) = queue_cur s" "delivered (upd_entry q f s) = delivered s"
  "stage_max (upd_entry q f s) = stage_max s" "stage_cur (upd_entry q f s) = stage_cur s"
  by (simp_all add: upd_entry_def)

lemma qinv_upd_cur:
  assumes q: "winv D b (s, l)" and f: "q_len (f (cur s)) = q_len (cur s)" "entry_ok (f (cur s))" "testcase_buf (f (cur s)) = testcase_buf (cur s)"
    and m: "skip_eff_map (f (cur s)) \<noteq> None" "done_inf_map (f (cur s)) \<noteq> None"
    and t: "\<And>i. i < length b \<Longrightarrow> the (skip_eff_map (f (cur s))) ! i \<noteq> 0 \<Longrightarrow> \<exists>x. x \<noteq> b ! i \<and> b[i := x] \<in> set (delivered s)"
  shows "qinv D b (upd_entry (queue_cur s) f s, l)"
proof -
  have s: "settled D s" using q by (simp add: winv_def kin_def)
  note c = cur_upd_entry [OF settled_cur(1) [OF s], of f]
  have "settled D (upd_entry (queue_cur s) f s)" by (rule settled_upd_entry [OF s settled_cur(1) [OF s]]) (use f in simp_all)
  then show ?thesis using q m t
    by (simp add: qinv_def winv_def kin_def tested_def eff_of_def c cur_same)
qed

context havoc_runner
begin

lemma wp_quick_start:
  assumes inv: "winv D b (s, l)" and Q: "\<And>f st. kleft D f st \<Longrightarrow> Q f st" and Next: "\<And>st. qinv D b st \<Longrightarrow> Q Next st"
  shows "wp True (quick_start w cfs) Q (s, l)"
proof -
  have k: "k_len l = length b" "settled D s" "mutable b" "unat (snd D) = length b" using inv by (simp_all add: winv_def kin_def)
  define s1 where "s1 = s\<lparr>stage_short := ''quick'', stage_name := ''quick eff'', stage_cur := 0, stage_max := 32 * 1024\<rparr>"
  define l1 where "l1 = l\<lparr>k_hits := hits s\<rparr>"
  define f where "f = fresh_eff (length b)"
  define g :: "queue_entry \<Rightarrow> queue_entry" where "g = (\<lambda>e. e\<lparr>done_inf_map := Some (replicate (length b) 0)\<rparr>)"
  define s2 where "s2 = upd_entry (queue_cur s1) f s1"
  define s3 where "s3 = (case done_inf_map (cur s2) of None \<Rightarrow> upd_entry (queue_cur s2) g s2
    | Some m \<Rightarrow> s2\<lparr>stage_cur := of_nat (length (takeWhile (\<lambda>x. x \<noteq> 0) (take (length b) m)))\<rparr>)"
  define l3 where "l3 = l1\<lparr>k_rounds := 0, k_done := False, k_execs := total_execs s3\<rparr>"
  have w1: "winv D b (s1, l1)" using inv by (simp add: s1_def l1_def)
  have s1: "settled D s1" using w1 by (simp add: winv_def kin_def)
  have c: "entry_ok (cur s1)" "unat (q_len (cur s1)) = length b" "queue_cur s1 < length (queue_buf s1)"
    using settled_cur [OF s1] k(4) by simp_all
  have fe: "entry_ok (f (cur s1))" "q_len (f (cur s1)) = q_len (cur s1)" "testcase_buf (f (cur s1)) = testcase_buf (cur s1)"
    using c by (auto simp: entry_ok_def f_def fresh_eff_def split: option.splits)
  have zero: "the (skip_eff_map (f (cur s1))) ! i = 0" if "i < length b" for i
    using that c by (auto simp: f_def fresh_eff_def fill_at_def copy_at_def nth_append entry_ok_def split: option.splits)
  have e2: "cur s2 = f (cur s1)" by (simp add: s2_def cur_same cur_upd_entry [OF c(3)])
  have s2: "settled D s2" unfolding s2_def by (rule settled_upd_entry [OF s1 c(3)]) (use fe in simp_all)
  then have w2: "winv D b (s2, l1)" using w1 by (simp add: winv_def kin_def)
  have q3: "qinv D b (s3, l1)"
  proof (cases "done_inf_map (cur s2)")
    case None
    have "qinv D b (upd_entry (queue_cur s2) g s2, l1)"
    proof (rule qinv_upd_cur [OF w2])
      show "entry_ok (g (cur s2))" using fe(1) fe(2) c(2) unfolding e2 by (simp add: entry_ok_def g_def)
    qed (use zero in \<open>simp_all add: g_def e2\<close>, simp add: f_def fresh_eff_def)
    then show ?thesis using None by (simp add: s3_def)
  next
    case (Some m)
    have "skip_eff_map (cur s2) \<noteq> None" unfolding e2 by (simp add: f_def fresh_eff_def)
    then have "qinv D b (s2, l1)" using w2 zero Some by (simp add: qinv_def tested_def eff_of_def e2)
    then show ?thesis using Some by (simp add: s3_def)
  qed
  have q3': "qinv D b (s3, l3)" using q3 by (simp add: l3_def qinv_def)
  let ?near = "cond (\<lambda>_. fuzz_nearby w) (steps [
       upd (\<lambda>(s, l). (s, l\<lparr>non_eff_bytes := replicate (k_len l) 0\<rparr>)),
       try_with cfs k_out,
       upd (\<lambda>(s, l). (s, l\<lparr>k_prev := hash64 w (trace_bits s)\<rparr>))]) skip"
  have near: "wp True ?near Q (s3, l3)"
  proof (cases "fuzz_nearby w")
    case True
    let ?l = "l3\<lparr>non_eff_bytes := replicate (k_len l3) 0\<rparr>"
    have k3: "settled D s3" "k_len l3 = length b" "k_out l3 = b" using q3' by (simp_all add: qinv_def winv_def kin_def)
    have "wp True (steps [try_with cfs k_out, upd (\<lambda>(s, l). (s, l\<lparr>k_prev := hash64 w (trace_bits s)\<rparr>))]) Q (s3, ?l)"
    proof (subst wp_Cons, rule wp_try_with [where D = D])
      fix v s' assume s': "settled D s'" "stage_frame s3 s'" "q_kept (cur s') = q_kept (cur s3)"
        "set (delivered s') = insert (k_out ?l) (set (delivered s3))"
      have "tested b s'" using q3' s' by (auto simp: qinv_def tested_def eff_of_def q_kept_def)
      then have "qinv D b (s', ?l)" using q3' s' by (simp add: qinv_def winv_def kin_def q_kept_def)
      then show "andthen (wp True (steps [upd (\<lambda>(s, l). (s, l\<lparr>k_prev := hash64 w (trace_bits s)\<rparr>))]) Q) Q
          (case v of Ret0 \<Rightarrow> Next | Ret1 \<Rightarrow> Return_zero | Died \<Rightarrow> Fatal) (s', ?l)"
        using s'(1) Q Next by (cases v) (simp_all add: kleft_def)
    qed (use k3 k(3) in simp_all)
    then show ?thesis using True by simp
  next
    case False
    then show ?thesis using Next q3' by (simp add: skip_def)
  qed
  have eq: "wp True (quick_start w cfs) Q (s, l) = wp True ?near Q (s3, l3)"
  proof -
    have "start_maps (length b) s1 = s3"
      unfolding start_maps_def Let_def f_def [symmetric] s2_def [symmetric] s3_def g_def ..
    moreover have "k_len l1 = length b" using k by (simp add: l1_def)
    ultimately show ?thesis
      unfolding quick_start_def wp_Cons [of True "upd _"] wp_upd andthen_simps prod.case s1_def [symmetric] l1_def [symmetric]
      by (simp only: l3_def wp_single)
  qed
  show ?thesis unfolding eq by (rule near)
qed

text \<open>A byte that was tried may be marked.\<close>

lemma qinv_mark:
  assumes q: "qinv D b (s, l)" and i: "i < length b" and x: "x \<noteq> b ! i" "b[i := x] \<in> set (delivered s)"
  shows "qinv D b (upd_entry (queue_cur s) (\<lambda>e. e\<lparr>skip_eff_map := set_at i 1 (skip_eff_map e),
    quick_eff_bytes := quick_eff_bytes e + 1\<rparr>) s, l)"
proof (rule qinv_upd_cur [OF qinv_winv [OF q]])
  have s: "settled D s" using q by (simp add: qinv_def winv_def kin_def)
  show "entry_ok ((cur s)\<lparr>skip_eff_map := set_at i 1 (skip_eff_map (cur s)), quick_eff_bytes := quick_eff_bytes (cur s) + 1\<rparr>)"
    using settled_cur(2) [OF s] q by (auto simp: entry_ok_def set_at_def qinv_def)
  show "\<exists>x. x \<noteq> b ! j \<and> b[j := x] \<in> set (delivered s)"
    if "j < length b" "the (skip_eff_map ((cur s)\<lparr>skip_eff_map := set_at i 1 (skip_eff_map (cur s)),
      quick_eff_bytes := quick_eff_bytes (cur s) + 1\<rparr>)) ! j \<noteq> 0" for j
    using that q x by (cases "j = i") (auto simp: qinv_def tested_def eff_of_def set_at_def)
qed (use q in \<open>auto simp: qinv_def set_at_def\<close>)

lemma qinv_done:
  assumes q: "qinv D b (s, l)"
  shows "qinv D b (upd_entry (queue_cur s) (\<lambda>e. e\<lparr>done_inf_map := set_at i 1 (done_inf_map e)\<rparr>) s, l)"
proof (rule qinv_upd_cur [OF qinv_winv [OF q]])
  have s: "settled D s" using q by (simp add: qinv_def winv_def kin_def)
  show "entry_ok ((cur s)\<lparr>done_inf_map := set_at i 1 (done_inf_map (cur s))\<rparr>)"
    using settled_cur(2) [OF s] by (auto simp: entry_ok_def set_at_def)
qed (use q in \<open>auto simp: qinv_def set_at_def tested_def eff_of_def\<close>)

lemma wp_mark_effective:
  assumes q: "qinv D b (s, l)" and i: "i < length b" and x: "x \<noteq> b ! i" "b[i := x] \<in> set (delivered s)"
    and Next: "\<And>s' l'. qinv D b (s', l') \<Longrightarrow> stage_cur s' = stage_cur s \<Longrightarrow> k_rounds l' = k_rounds l \<Longrightarrow> Q Next (s', l')"
  shows "wp True (mark_effective w i) Q (s, l)"
  using qinv_mark [OF q i x] Next by (simp add: mark_effective_def cur_same)

lemma wp_put_other:
  assumes Q: "\<And>v s'. v \<noteq> k_out l ! i \<Longrightarrow> rng_only s s' \<Longrightarrow> Q Next (s', l\<lparr>k_out := (k_out l)[i := v]\<rparr>)"
  shows "wp True (put_other w i) Q (s, l)"
  using Q other_byte_result [of w "k_out l ! i" s] by (auto simp: wp_def put_other_def split: option.split)

lemma wp_quick_byte:
  assumes q: "qinv D b (s, l)" and i: "unat (stage_cur s) < length b"
    and Q: "\<And>f st. kleft D f st \<Longrightarrow> Q f st" and Late: "\<And>st. qinv D b st \<Longrightarrow> Q Cleanup_skipdet st"
    and Next: "\<And>s' l'. qinv D b (s', l') \<Longrightarrow> stage_cur s' = stage_cur s \<Longrightarrow> k_rounds l' = k_rounds l \<Longrightarrow> Q Next (s', l')"
  shows "wp True (quick_byte w cfs) Q (s, l)"
proof -
  define i where "i = unat (stage_cur s)"
  have l: "k_out l = b" "k_len l = length b" "mutable b" using q by (simp_all add: qinv_def winv_def kin_def)
  have ib: "i < length b" using i by (simp add: i_def)
  let ?m1 = "upd (\<lambda>(s, l). (s, l\<lparr>k_out := (k_out l)[i := b ! i]\<rparr>))"
  let ?m2 = "cond (\<lambda>(s, l). fuzz_nearby w \<and> k_prev l = hash64 w (trace_bits s))
           (upd (\<lambda>(s, l). (s, l\<lparr>non_eff_bytes := (non_eff_bytes l)[i := 1]\<rparr>))) skip"
  let ?m3 = "cond (\<lambda>(s', l). queued_items s' \<noteq> queued_items s) (mark_effective w i) skip"
  let ?m4 = "upd_cur (\<lambda>e. e\<lparr>done_inf_map := set_at i 1 (done_inf_map e)\<rparr>)"
  let ?R = "\<lambda>(s', l'). qinv D b (s', l') \<and> stage_cur s' = stage_cur s \<and> k_rounds l' = k_rounds l"
  have m4: "wp True (steps [?m4]) Q st" if "?R st" for st
    using that qinv_done [of D b "fst st" "snd st" i] by (cases st) (auto simp: cur_same intro!: Next)
  have m3: "wp True (steps [?m3, ?m4]) Q (s', l')" if "?R (s', l')" "v \<noteq> b ! i" "b[i := v] \<in> set (delivered s')" for s' l' v
  proof (rule wp_seq [OF _ m4])
    show "wp True ?m3 (andthen ?R Q) (s', l')"
      using that wp_mark_effective [OF _ ib that(2,3), of D l' "andthen ?R Q"] by (simp add: skip_def)
  qed
  have run: "wp True (steps [try_with cfs k_out, ?m1, ?m2, ?m3, ?m4]) Q (s1, l\<lparr>k_out := b[i := v]\<rparr>)"
    if v: "v \<noteq> b ! i" and s1: "qinv D b (s1, l)" "stage_cur s1 = stage_cur s" for v s1
  proof (subst wp_Cons, rule wp_try_with [where D = D])
    fix u s' assume s': "settled D s'" "stage_frame s1 s'" "q_kept (cur s') = q_kept (cur s1)"
        "set (delivered s') = insert (k_out (l\<lparr>k_out := b[i := v]\<rparr>)) (set (delivered s1))"
    have d: "b[i := v] \<in> set (delivered s')" and t: "tested b s'"
      using s1(1) s' by (auto simp: qinv_def tested_def eff_of_def q_kept_def)
    have q': "qinv D b (s', l)" using s1(1) s' t by (simp add: qinv_def winv_def kin_def q_kept_def)
    have c: "stage_cur s' = stage_cur s" using s'(2) s1(2) by (simp add: stage_frame_def)
    have undo: "l\<lparr>k_out := (b[i := v])[i := b ! i]\<rparr> = l" using l by (cases l) simp
    have "wp True (steps [?m3, ?m4]) Q (s', l\<lparr>non_eff_bytes := (non_eff_bytes l)[i := 1]\<rparr>)" "wp True (steps [?m3, ?m4]) Q (s', l)"
      by (rule m3 [OF _ v d], simp add: q' c)+
    then have "wp True (steps [?m1, ?m2, ?m3, ?m4]) Q (s', l\<lparr>k_out := b[i := v]\<rparr>)"
      using undo by (cases "queued_items s' = queued_items s") simp_all
    then show "andthen (wp True (steps [?m1, ?m2, ?m3, ?m4]) Q) Q
        (case u of Ret0 \<Rightarrow> Next | Ret1 \<Rightarrow> Return_zero | Died \<Rightarrow> Fatal) (s', l\<lparr>k_out := b[i := v]\<rparr>)"
      using s'(1) Q by (cases u) (simp_all add: kleft_def)
  qed (use s1 l ib in \<open>simp_all add: qinv_def winv_def kin_def mutable_def\<close>)
  have other: "wp True (steps [put_other w i, try_with cfs k_out, ?m1, ?m2, ?m3, ?m4]) Q (s1, l)"
    if s1: "qinv D b (s1, l)" "stage_cur s1 = stage_cur s" for s1
  proof (subst wp_Cons, rule wp_put_other)
    fix v s2 assume v: "v \<noteq> k_out l ! i" and r: "rng_only s1 s2"
    then have "havoc_frame s1 s2" by (blast intro: havoc_frame_rng)
    then have "settled D s2" using settled_frame s1(1) by (auto simp: qinv_def winv_def kin_def)
    moreover obtain x y z where "s2 = s1\<lparr>rand_seed := x, rand_cnt := y, urandom_reads := z\<rparr>" using r by (auto simp: rng_only_def)
    ultimately have "qinv D b (s2, l)" "stage_cur s2 = stage_cur s"
      using s1 by (simp_all add: qinv_def winv_def kin_def) (simp_all add: tested_def eff_of_def entry_def)
    then show "andthen (wp True (steps [try_with cfs k_out, ?m1, ?m2, ?m3, ?m4]) Q) Q Next (s2, l\<lparr>k_out := (k_out l)[i := v]\<rparr>)"
      using run [of v s2] v l by simp
  qed
  let ?s = "s\<lparr>stage_cur_byte := of_nat i\<rparr>"
  have s0: "qinv D b (?s, l)" using q by simp
  have eq: "wp True (quick_byte w cfs) Q (s, l) = (if inf_eff_map l ! i = 0 \<or> eff_of ?s ! i \<noteq> 0 then Q Next (?s, l)
      else andthen (wp True (steps [put_other w i, try_with cfs k_out, ?m1, ?m2, ?m3, ?m4]) Q) Q
        (if clock_ms w (ticks s) - k_before l > MAX_EFF_TIMEOUT then Cleanup_skipdet else Next) (?s\<lparr>ticks := Suc (ticks s)\<rparr>, l))"
    unfolding quick_byte_def wp_reading prod.case i_def [symmetric] l(1)
    by (simp only: wp_Cons [of True "upd _"] wp_upd andthen_simps prod.case wp_single wp_cond
        wp_Cons [of True "check_eff_timeout w"] wp_check_eff_timeout skip_def, simp)
  show ?thesis unfolding eq
    using Next [OF s0] Late [of "(?s\<lparr>ticks := Suc (ticks s)\<rparr>, l)"] other [of "?s\<lparr>ticks := Suc (ticks s)\<rparr>"] s0 by simp
qed

lemma wp_quick_round:
  assumes q: "qinv D b (s, l)" and Q: "\<And>f st. kleft D f st \<Longrightarrow> Q f st" and Late: "\<And>st. qinv D b st \<Longrightarrow> Q Cleanup_skipdet st"
    and Next: "\<And>f s' l'. qinv D b (s', l') \<Longrightarrow> k_rounds l' = k_rounds l + 1 \<Longrightarrow>
      f = Break \<or> f = Next \<and> k_rounds l' < 8 \<Longrightarrow> Q f (s', l')"
  shows "wp True (quick_round w cfs) Q (s, l)"
proof -
  let ?I = "\<lambda>(s', l'). qinv D b (s', l') \<and> k_rounds l' = k_rounds l"
  let ?m = "\<lambda>(s, l :: skip_locals). length b - unat (stage_cur s)"
  let ?step = "steps [quick_byte w cfs, upd (\<lambda>(s, l). (s\<lparr>stage_cur := stage_cur s + 1\<rparr>, l))]"
  let ?close = "steps [upd (\<lambda>(s, l). (s\<lparr>stage_cur := 0\<rparr>, l\<lparr>k_done := True, k_rounds := k_rounds l + 1\<rparr>)),
     cond (\<lambda>(s, l). k_rounds l \<ge> 8) (goto Break) skip]"
  have left: "andthen (?I) Q f st" if "kleft D f st" for f st
    using Q [OF that] that by (cases "f = Next") (simp_all add: kleft_def)
  have step: "wp True ?step (andthen (\<lambda>st'. ?I st' \<and> ?m st' < ?m st) Q) st"
    if I: "?I st" and less: "case st of (s, l) \<Rightarrow> stage_cur s < stage_max s \<and> unat (stage_cur s) < k_len l" for st
  proof -
    obtain s1 l1 where st: "st = (s1, l1)" by (cases st)
    have q1: "qinv D b (s1, l1)" "k_rounds l1 = k_rounds l" using I by (simp_all add: st)
    have i: "unat (stage_cur s1) < length b" using less q1(1) by (simp add: st qinv_def winv_def kin_def)
    have b: "length b \<le> MAX_FILE" using q1(1) by (simp add: qinv_def winv_def kin_def mutable_def)
    have un: "unat (stage_cur s1 + 1) = Suc (unat (stage_cur s1))"
      using i b by (simp add: unat_word_ariths MAX_FILE_def)
    let ?P = "andthen (\<lambda>st'. ?I st' \<and> ?m st' < ?m st) Q"
    show ?thesis unfolding st
    proof (subst wp_Cons, rule wp_quick_byte [OF q1(1) i])
      fix f st' assume "kleft D f st'"
      then show "andthen (wp True (steps [upd (\<lambda>(s, l). (s\<lparr>stage_cur := stage_cur s + 1\<rparr>, l))])
          (andthen (\<lambda>st'. ?I st' \<and> ?m st' < ?m (s1, l1)) Q)) (andthen (\<lambda>st'. ?I st' \<and> ?m st' < ?m (s1, l1)) Q) f st'"
        using Q [of f st'] by (auto simp: kleft_def)
    next
      fix s' l' assume "qinv D b (s', l')" "stage_cur s' = stage_cur s1" "k_rounds l' = k_rounds l1"
      then show "andthen (wp True (steps [upd (\<lambda>(s, l). (s\<lparr>stage_cur := stage_cur s + 1\<rparr>, l))])
          (andthen (\<lambda>st'. ?I st' \<and> ?m st' < ?m (s1, l1)) Q)) (andthen (\<lambda>st'. ?I st' \<and> ?m st' < ?m (s1, l1)) Q) Next (s', l')"
        using q1(2) un i by simp
    qed (use Late in simp_all)
  qed
  have loop: "wp True (while_cmd (\<lambda>(s, l). stage_cur s < stage_max s \<and> unat (stage_cur s) < k_len l) ?step) (andthen ?I Q) st"
    if "?I st" for st
    by (rule wp_while [where I = ?I and m = ?m]) (use that step in \<open>auto simp: andthen_absorb\<close>)
  have fin: "wp True ?close Q st" if "?I st" for st
    using that by (cases st) (auto simp: skip_def intro!: Next)
  show ?thesis unfolding quick_round_def
  proof (rule wp_seq [where R = ?I])
    show "wp True (steps (while_cmd (\<lambda>(s, l). stage_cur s < stage_max s \<and> unat (stage_cur s) < k_len l) ?step #
        [upd (\<lambda>(s, l). (s\<lparr>stage_cur := 0\<rparr>, l\<lparr>k_done := True, k_rounds := k_rounds l + 1\<rparr>)),
     cond (\<lambda>(s, l). k_rounds l \<ge> 8) (goto Break) skip])) Q st" if "?I st" for st
      by (rule wp_seq [OF loop [OF that] fin])
  qed (use q in simp)
qed

lemma wp_quick_eff:
  assumes q: "winv D b (s, l)" and Q: "\<And>f st. kleft D f st \<Longrightarrow> Q f st" and Late: "\<And>st. qinv D b st \<Longrightarrow> Q Cleanup_skipdet st"
    and Next: "\<And>st. qinv D b st \<Longrightarrow> Q Next st"
  shows "wp True (quick_eff w cfs) Q (s, l)"
proof -
  let ?Q = "\<lambda>f st'. andthen (qinv D b) Q (if f = Break then Next else f) st'"
  have left: "andthen (qinv D b) Q f st" if "kleft D f st" for f st
    using Q [OF that] that by (cases "f = Next") (simp_all add: kleft_def)
  have left': "?Q f st" if "kleft D f st" for f st using left [OF that] that by (auto simp: kleft_def)
  let ?loop = "while_cmd (\<lambda>(s, l). k_again l) (quick_round w cfs)"
  have rep: "wp True ?loop ?Q st" if "qinv D b st" for st
  proof (rule wp_while [where I = "qinv D b" and m = "\<lambda>(s, l). 8 - k_rounds l"])
    fix st assume I: "qinv D b st"
    obtain s1 l1 where st: "st = (s1, l1)" by (cases st)
    show "wp True (quick_round w cfs) (andthen (\<lambda>st'. qinv D b st' \<and> (case st' of (s, l) \<Rightarrow> 8 - k_rounds l) <
        (case st of (s, l) \<Rightarrow> 8 - k_rounds l)) ?Q) st"
      unfolding st
      by (rule wp_quick_round [OF I [unfolded st]]) (use Q Late in \<open>auto simp: kleft_def\<close>)
  qed (use that in simp_all)
  have "wp True (do_while (quick_round w cfs) (\<lambda>(s, l). k_again l)) ?Q (s1, l1)" if "qinv D b (s1, l1)" for s1 l1
    unfolding do_while_def
  proof (subst wp_Cons, rule wp_quick_round [OF that])
    fix f st assume "kleft D f st"
    then show "andthen (wp True (steps [?loop]) ?Q) ?Q f st" using left' [of f st] by (auto simp: kleft_def)
  next
    fix f s' l' assume "qinv D b (s', l')" "f = Break \<or> f = Next \<and> k_rounds l' < 8"
    then show "andthen (wp True (steps [?loop]) ?Q) ?Q f (s', l')" using rep [of "(s', l')"] by auto
  qed (use Late in simp)
  then have loop: "wp True (until Break (do_while (quick_round w cfs) (\<lambda>(s, l). k_again l))) (andthen (qinv D b) Q) st" if "qinv D b st" for st
    using that by (cases st) simp
  let ?close = "upd (\<lambda>(s, l). (s\<lparr>stage_finds := (stage_finds s)(STAGE_QUICK := stage_finds s STAGE_QUICK + (hits s - k_hits l)),
       stage_cycles := (stage_cycles s)(STAGE_QUICK := stage_cycles s STAGE_QUICK + (total_execs s - k_execs l))\<rparr>, l))"
  have fin: "wp True (steps [?close]) Q st" if "qinv D b st" for st
    using that by (cases st) (auto simp: qinv_def tested_def eff_of_def entry_def intro!: Next)
  have "wp True (quick_start w cfs) (andthen (qinv D b) Q) (s, l)"
    by (rule wp_quick_start [OF q]) (use left in auto)
  then show ?thesis unfolding quick_eff_def by (rule wp_seq) (rule wp_seq [OF loop fin])
qed

end

section \<open>The whole stage\<close>

context havoc_runner
begin

lemma wp_cleanup_skipdet:
  assumes q: "qinv D b (s, l)"
    and Next: "\<And>s'. settled D s' \<Longrightarrow> skip_eff_map (cur s') \<noteq> None \<Longrightarrow> \<not> fuzz_nearby w \<longrightarrow> tested b s' \<Longrightarrow> Q Next (s', l)"
  shows "wp True (cleanup_skipdet w) Q (s, l)"
proof -
  define near :: "queue_entry \<Rightarrow> queue_entry" where "near = (\<lambda>e. e\<lparr>skip_eff_map := map_option (mark_nearby (k_len l) (non_eff_bytes l)) (skip_eff_map e)\<rparr>)"
  define flags :: "queue_entry \<Rightarrow> queue_entry" where
    "flags = (\<lambda>e. if k_done l then e\<lparr>continue_inf := False, done_eff := True\<rparr> else e\<lparr>continue_inf := True\<rparr>)"
  have s: "settled D s" "skip_eff_map (cur s) \<noteq> None" "tested b s" using q by (simp_all add: qinv_def winv_def kin_def)
  have fin: "Q Next (upd_entry (queue_cur s1) flags s1, l)"
    if s1: "settled D s1" "skip_eff_map (cur s1) \<noteq> None" "\<not> fuzz_nearby w \<longrightarrow> tested b s1" for s1
  proof (rule Next)
    note c = settled_cur [OF s1(1)]
    have f: "flags e = e\<lparr>continue_inf := continue_inf (flags e), done_eff := done_eff (flags e)\<rparr>" for e by (simp add: flags_def)
    have k: "entry_ok (flags e) = entry_ok e" "q_len (flags e) = q_len e" "testcase_buf (flags e) = testcase_buf e" "skip_eff_map (flags e) = skip_eff_map e" for e
      by (simp_all add: entry_ok_def flags_def)
    show "settled D (upd_entry (queue_cur s1) flags s1)"
      by (rule settled_upd_entry [OF s1(1) c(1)]) (use k in auto)
    show "skip_eff_map (cur (upd_entry (queue_cur s1) flags s1)) \<noteq> None"
      "\<not> fuzz_nearby w \<longrightarrow> tested b (upd_entry (queue_cur s1) flags s1)"
      using s1 k by (simp_all add: tested_def eff_of_def cur_same cur_upd_entry [OF c(1)])
  qed
  have "Q Next (upd_entry (queue_cur s1) flags s1, l)" if "s1 = upd_entry (queue_cur s) near s" "fuzz_nearby w" for s1
  proof (rule fin)
    note c = settled_cur [OF s(1)]
    have k: "q_len (near e) = q_len e" "testcase_buf (near e) = testcase_buf e" "entry_ok e \<Longrightarrow> entry_ok (near e)" for e by (auto simp: entry_ok_def near_def)
    show "settled D s1" unfolding that(1) by (rule settled_upd_entry [OF s(1) c(1)]) (use k in auto)
    show "skip_eff_map (cur s1) \<noteq> None" using s(2) by (simp add: that(1) cur_same cur_upd_entry [OF c(1)] near_def)
  qed (use that in simp)
  then show ?thesis using fin [OF s(1,2)] s(3)
    by (cases "fuzz_nearby w") (simp_all add: cleanup_skipdet_def skip_def near_def [symmetric] flags_def [symmetric])
qed

lemma wp_skip_stage:
  assumes inv: "kin D b (s, l)" and Q: "\<And>f st. kleft D f st \<Longrightarrow> Q f st"
    and Next: "\<And>s' l'. settled D s' \<Longrightarrow> k_out l' = b \<Longrightarrow> skip_eff_map (cur s') \<noteq> None \<Longrightarrow>
      \<not> fuzz_nearby w \<longrightarrow> tested b s' \<Longrightarrow> Q Next (s', l')"
  shows "wp True (steps [inference w cfs, until Cleanup_skipdet (quick_eff w cfs), cleanup_skipdet w]) Q (s, l)"
proof -
  have left: "andthen R Q f st" if "kleft D f st" for f st R
    using Q [OF that] that by (cases "f = Next") (simp_all add: kleft_def)
  have clean: "wp True (steps [cleanup_skipdet w]) Q st" if st: "qinv D b st" for st
  proof -
    obtain s1 l1 where s1: "st = (s1, l1)" by (cases st)
    have "k_out l1 = b" using st by (simp add: s1 qinv_def winv_def kin_def)
    then show ?thesis using wp_cleanup_skipdet [OF st [unfolded s1]] Next by (simp add: s1)
  qed
  have quick: "wp True (until Cleanup_skipdet (quick_eff w cfs)) (andthen (qinv D b) Q) st" if st: "winv D b st" for st
  proof -
    obtain s1 l1 where s1: "st = (s1, l1)" by (cases st)
    have "wp True (quick_eff w cfs) (\<lambda>f. andthen (qinv D b) Q (if f = Cleanup_skipdet then Next else f)) (s1, l1)"
      by (rule wp_quick_eff [OF st [unfolded s1]]) (use left in \<open>auto simp: kleft_def\<close>)
    then show ?thesis by (simp add: s1)
  qed
  have "wp True (inference w cfs) (andthen (winv D b) Q) (s, l)"
    by (rule wp_inference [OF inv]) (use left in auto)
  then show ?thesis by (rule wp_seq) (rule wp_seq [OF quick clean])
qed

end

lemma det_bits_fold: "length (fold (\<lambda>i v. v[i := x]) is v) = length v"
  by (induction "is" arbitrary: v) auto

lemma settled_lower_threshold [simp]: "settled D (lower_threshold w s) = settled D s"
  by (simp add: lower_threshold_def Let_def get_cur_time_def)

lemma lower_threshold_same [simp]: "queue_cur (lower_threshold w s) = queue_cur s" "queue_buf (lower_threshold w s) = queue_buf s"
  by (simp_all add: lower_threshold_def Let_def get_cur_time_def)

lemma settled_undet_bits:
  assumes "settled D s" and "q < length (queue_buf s)"
  shows "settled D (upd_entry q (\<lambda>e. e\<lparr>undet_bits := n\<rparr>) s)"
  by (rule settled_upd_entry [OF assms]) (simp_all add: entry_ok_def)

lemma should_det_fuzz_settled:
  assumes s: "settled D s" and q: "q < length (queue_buf s)"
  shows "settled D (snd (should_det_fuzz w q s))" "queue_cur (snd (should_det_fuzz w q s)) = queue_cur s"
proof -
  define s1 where "s1 = (if virgin_det_bits s = None then s\<lparr>virgin_det_bits := Some (replicate (map_size s) 0)\<rparr> else s)"
  have s1: "settled D s1" "queue_buf s1 = queue_buf s" "queue_cur s1 = queue_cur s" using s by (simp_all add: s1_def)
  define s2 where "s2 = lower_threshold w s1"
  have s2: "settled D s2" "queue_buf s2 = queue_buf s" "queue_cur s2 = queue_cur s" using s1 by (simp_all add: s2_def)
  show "settled D (snd (should_det_fuzz w q s))" "queue_cur (snd (should_det_fuzz w q s)) = queue_cur s"
    unfolding should_det_fuzz_def Let_def s1_def [symmetric] s2_def [symmetric]
    using s1 s2 q by (auto simp: get_cur_time_def cur_same split: option.split intro!: settled_undet_bits)
qed

context havoc_runner
begin

lemma skip_deterministic_stage_result:
  assumes run: "skip_deterministic_stage w cfs b b (length b) before s = Some (f, out, s')"
    and s: "settled D s" and b: "mutable b" "unat (snd D) = length b"
  shows "settled D s' \<and> (f = Next \<and> out = b \<or> f = Return_zero \<or> f = Fatal) \<and>
    (f = Next \<longrightarrow> \<not> done_eff (cur s) \<longrightarrow> fst (should_det_fuzz w (queue_cur s) s) \<longrightarrow>
      skip_eff_map (cur s') \<noteq> None \<and> (\<not> fuzz_nearby w \<longrightarrow> tested b s'))"
proof (cases "done_eff (cur s)")
  case True
  then show ?thesis using run s by (auto simp: skip_deterministic_stage_def)
next
  case False
  obtain fuzz s1 where s1: "should_det_fuzz w (queue_cur s) s = (fuzz, s1)" by (cases "should_det_fuzz w (queue_cur s) s")
  have ok: "settled D s1" "queue_cur s1 = queue_cur s"
    using should_det_fuzz_settled [OF s settled_cur(1) [OF s], of w] by (simp_all add: s1)
  define l where "l = \<lparr>k_orig = b, k_out = b, k_len = length b, k_before = before, k_hits = 0, k_prev = 0, k_prev0 = 0,
    k_execs = 0, k_time = 0, inf_eff_map = [], k_pos = 0, k_block = 0, k_again = False,
    k_rounds = 0, k_done = False, non_eff_bytes = []\<rparr>"
  let ?c = "steps [inference w cfs, until Cleanup_skipdet (quick_eff w cfs), cleanup_skipdet w]"
  let ?Q = "\<lambda>f (s', l'). settled D s' \<and> (f = Next \<and> k_out l' = b \<or> f = Return_zero \<or> f = Fatal) \<and>
    (f = Next \<longrightarrow> skip_eff_map (cur s') \<noteq> None \<and> (\<not> fuzz_nearby w \<longrightarrow> tested b s'))"
  have "wp True ?c ?Q (s1, l)"
    by (rule wp_skip_stage [where D = D and b = b]) (use ok b in \<open>auto simp: kin_def l_def kleft_def\<close>)
  from wp_result [OF this] have stage: "?Q f (s', l')" if "?c (s1, l) = Some (f, s', l')" for f s' l'
    using that by blast
  show ?thesis
  proof (cases fuzz)
    case True
    then show ?thesis using run False stage
      by (auto simp: skip_deterministic_stage_def s1 l_def [symmetric] simp del: steps.simps)
  next
    case no: False
    then show ?thesis using run False ok(1) by (auto simp: skip_deterministic_stage_def s1)
  qed
qed

end

end
