(* ===== verification/FuzzOne.thy ===== *)
theory FuzzOne
  imports Trim Score SkipDet
begin

text \<open>
  One turn of the fuzzer at a queue entry, \<^verbatim>\<open>fuzz_one_original\<close> in
  \<^verbatim>\<open>src/afl-fuzz-one.c\<close>, put together from the parts the other theories model: the entry
  may be skipped, its input is fetched, it is calibrated again if that failed before, trimmed,
  scored, analysed by \<open>skip_deterministic_stage\<close>, put through the deterministic stages, and
  fuzzed at random. There are no custom mutators and no comparison log.
\<close>

section \<open>Whether to skip the entry\<close>

definition SKIP_TO_NEW_PROB :: u32 where "SKIP_TO_NEW_PROB = 99"
definition SKIP_NFAV_OLD_PROB :: u32 where "SKIP_NFAV_OLD_PROB = 95"
definition SKIP_NFAV_NEW_PROB :: u32 where "SKIP_NFAV_NEW_PROB = 75"
definition CAL_CHANCES :: u8 where "CAL_CHANCES = 3"

text \<open>The odds of skipping it, in percent, or none when it must be taken.\<close>

definition skip_odds :: "afl \<Rightarrow> u32 option" where
  "skip_odds s =
     (let e = entry s (queue_cur s)
      in if pending_favored s \<noteq> 0
         then if fuzz_level e \<noteq> 0 \<or> \<not> favored e then Some SKIP_TO_NEW_PROB else None
         else if \<not> non_instrumented_mode s \<and> \<not> favored e \<and> queued_items s > 10
         then if queue_cycle s > 1 \<and> fuzz_level e = 0 then Some SKIP_NFAV_NEW_PROB else Some SKIP_NFAV_OLD_PROB
         else None)"

definition skip_entry :: "world \<Rightarrow> afl \<Rightarrow> (bool \<times> afl) option" where
  "skip_entry w s = (case skip_odds s of None \<Rightarrow> Some (False, s)
     | Some p \<Rightarrow> map_option (\<lambda>(r, s). (r < p, s)) (rand_below w 100 s))"

section \<open>Before the stages\<close>

text \<open>\<^verbatim>\<open>orig_in = in_buf = queue_testcase_get(afl, afl->queue_cur)\<close>\<close>

definition fetch :: "world \<Rightarrow> fstate cmd" where
  "fetch w = (\<lambda>(s, l). map_option (\<lambda>(b, s). (Next, s, l\<lparr>in_buf := b, orig_in := b\<rparr>))
     (queue_testcase_get w (queue_cur s) s))"

text \<open>Counted as skipped, the entry is given up.\<close>

definition give_up :: "fstate cmd" where
  "give_up = steps [on_afl (\<lambda>s. s\<lparr>cur_skipped_items := cur_skipped_items s + 1\<rparr>), goto Abandon_entry]"

definition judge_calibration :: "fault \<Rightarrow> fstate cmd" where
  "judge_calibration res = cond (\<lambda>(s, l). stop_soon s \<or> res \<noteq> crash_mode s) give_up skip"

definition recalibrate :: "world \<Rightarrow> fstate cmd" where
  "recalibrate w = (\<lambda>(s, l).
     let q = queue_cur s
     in if cal_failed (entry s q) < CAL_CHANCES
        then Option.bind (calibrate_case w q (in_buf l) (ucast (queue_cycle s - 1)) False
                            (upd_entry q (\<lambda>e. e\<lparr>exec_cksum := 0\<rparr>) s)) (\<lambda>(f, res, s).
               if f \<noteq> Next then Some (f, s, l)
               else if res = FSRV_RUN_ERROR then Some (Fatal, s, l)
               else judge_calibration res (s, l))
        else judge_calibration FSRV_RUN_TMOUT (s, l))"

definition wants_trim :: "fstate \<Rightarrow> bool" where
  "wants_trim = (\<lambda>(s, l). \<not> non_instrumented_mode s \<and> \<not> trim_done (entry s (queue_cur s)) \<and> \<not> disable_trim s)"

text \<open>An entry that is now too short for splicing is taken off the count.\<close>

definition after_trim :: "u32 \<Rightarrow> fstate \<Rightarrow> fstate" where
  "after_trim old_len = (\<lambda>(s, l).
     let q = queue_cur s;
         s = upd_entry q (\<lambda>e. e\<lparr>trim_done := True\<rparr>) s;
         n = q_len (entry s q)
     in (if n \<le> 4 \<and> old_len > 4 then s\<lparr>ready_for_splicing_count := ready_for_splicing_count s - 1\<rparr> else s,
         l\<lparr>l_len := unat n\<rparr>))"

definition trim_input :: "world \<Rightarrow> fstate cmd" where
  "trim_input w = (\<lambda>(s, l).
     let old_len = q_len (entry s (queue_cur s))
     in Option.bind (trim_case w (queue_cur s) (in_buf l) s) (\<lambda>(res, s).
          steps [fetch w,
            cond (\<lambda>_. res = FSRV_RUN_ERROR) (goto Fatal) skip,
            cond (\<lambda>(s, l). stop_soon s) give_up skip,
            upd (after_trim old_len)] (s, l)))"

text \<open>\<^verbatim>\<open>memcpy(out_buf, in_buf, len)\<close>; what lies behind \<open>len\<close> is not read from here on.\<close>

definition copy_input :: "fstate cmd" where
  "copy_input = on_loc (\<lambda>l. l\<lparr>in_buf := take (l_len l) (in_buf l), out_buf := take (l_len l) (in_buf l)\<rparr>)"

definition take_score :: "world \<Rightarrow> fstate cmd" where
  "take_score w = (\<lambda>(s, l).
     let q = queue_cur s
     in if \<not> old_seed_selection s
        then let p = perf_score (entry s q) in Some (Next, s, l\<lparr>orig_perf := p, l_perf_score := p\<rparr>)
        else case calculate_score w q s of
          None \<Rightarrow> Some (Fatal, s, l)
        | Some (p, s) \<Rightarrow> Some (Next, upd_entry q (\<lambda>e. e\<lparr>perf_score := p\<rparr>) s, l\<lparr>orig_perf := p, l_perf_score := p\<rparr>))"

definition worthless :: "fstate \<Rightarrow> bool" where
  "worthless = (\<lambda>(s, l). l_perf_score l = 0 \<and> active_items s > 1)"

definition start_clock :: "world \<Rightarrow> fstate cmd" where
  "start_clock w = upd (\<lambda>(s, l). let (now, s) = get_cur_time w s in (s, l\<lparr>before_det_time := now\<rparr>))"

text \<open>\<^verbatim>\<open>if (!skip_deterministic_stage(...)) { goto abandon_entry; }\<close>\<close>

definition skip_stage :: "world \<Rightarrow> runner \<Rightarrow> fstate cmd" where
  "skip_stage w cfs = (\<lambda>(s, l). map_option (\<lambda>(f, b, s). (if f = Return_zero then Abandon_entry else f, s, l\<lparr>out_buf := b\<rparr>))
     (skip_deterministic_stage w cfs (in_buf l) (out_buf l) (l_len l) (before_det_time l) s))"

section \<open>The stages\<close>

definition wants_no_det :: "fstate \<Rightarrow> bool" where
  "wants_no_det = (\<lambda>(s, l).
     let e = entry s (queue_cur s); most = ucast (havoc_max_mult s * 100)
     in skip_deterministic s \<or> passed_det e \<or> quick_eff_bytes e = 0 \<or>
        ucast (l_perf_score l) < (if depth e * 30 \<le> most then depth e * 30 else most))"

text \<open>With several main instances, every entry has one that runs the stages on it.\<close>

definition not_my_job :: "fstate \<Rightarrow> bool" where
  "not_my_job = (\<lambda>(s, l). main_node_max s \<noteq> 0 \<and>
     exec_cksum (entry s (queue_cur s)) mod ucast (main_node_max s) \<noteq> ucast (main_node_id s - 1))"

definition det_part :: "world \<Rightarrow> runner \<Rightarrow> fstate cmd" where
  "det_part w cfs = cond wants_no_det skip (cond not_my_job skip (steps
     [on_loc (\<lambda>l. l\<lparr>doing_det := True\<rparr>), until Custom_mutator_stage (det_stages w cfs)]))"

definition get_eff_map :: "fstate cmd" where
  "get_eff_map = upd (\<lambda>(s, l). (s, l\<lparr>eff_map := (case skip_eff_map (entry s (queue_cur s)) of None \<Rightarrow> [] | Some m \<Rightarrow> m)\<rparr>))"

definition fuzz_entry :: "world \<Rightarrow> runner \<Rightarrow> fstate cmd" where
  "fuzz_entry w cfs = steps
     [fetch w,
      upd (\<lambda>(s, l). let e = entry s (queue_cur s) in
        (s\<lparr>subseq_tmouts := 0, cur_depth := ucast (depth e)\<rparr>, l\<lparr>l_len := unat (q_len e)\<rparr>)),
      cond (\<lambda>(s, l). cal_failed (entry s (queue_cur s)) \<noteq> 0) (recalibrate w) skip,
      cond wants_trim (trim_input w) skip,
      copy_input,
      take_score w,
      cond worthless (goto Abandon_entry) skip,
      start_clock w,
      cond (\<lambda>(s, l). skip_deterministic s) skip (skip_stage w cfs),
      get_eff_map,
      det_part w cfs,
      havoc_and_splice w cfs,
      on_loc (\<lambda>l. l\<lparr>ret_val := False\<rparr>)]"

section \<open>Done with the entry\<close>

text \<open>An entry that came through calibration is counted off once, the first time.\<close>

definition finish_entry :: "afl \<Rightarrow> afl" where
  "finish_entry s =
     (let q = queue_cur s; s = s\<lparr>splicing_with := -1\<rparr>; e = entry s q;
          s = (if \<not> stop_soon s \<and> cal_failed e = 0 \<and> \<not> was_fuzzed e \<and> \<not> disabled e
               then let s = upd_entry q (\<lambda>e. e\<lparr>was_fuzzed := True\<rparr>)
                              (s\<lparr>pending_not_fuzzed := pending_not_fuzzed s - 1, reinit_table := True\<rparr>)
                    in if favored e then s\<lparr>pending_favored := pending_favored s - 1, smallest_favored := -1\<rparr> else s
               else s)
      in upd_entry q (\<lambda>e. e\<lparr>fuzz_level := fuzz_level e + 1\<rparr>) s)"

text \<open>Memory and variables that are not set yet.\<close>

definition fresh_locals :: "world \<Rightarrow> fuzz_locals" where
  "fresh_locals w = \<lparr>in_buf = [], out_buf = [], l_len = 0, eff_map = [], before_det_time = 0, orig_hit_cnt = 0,
     new_hit_cnt = 0, prev_cksum = 0, first_cksum = 0, a_collect = map (uninit w) [0..<MAX_AUTO_EXTRA], a_len = 0,
     ex_tmp = [], last_len = 0, orig_in = [], doing_det = False, l_perf_score = 100, orig_perf = 0, splice_cycle = 0,
     havoc_queued = 0, use_stacking = 0, selected_mutators = [], ret_val = True\<rparr>"

text \<open>
  The result is the exit (\<^term>\<open>Fatal\<close> ends the process), the value returned (false: fuzzed, true:
  skipped or given up) and the state.
\<close>

definition fuzz_one :: "world \<Rightarrow> afl \<Rightarrow> (flow \<times> bool \<times> afl) option" where
  "fuzz_one w s =
     Option.bind (skip_entry w (snd (rand_c w s))) (\<lambda>(skipped, s).
       if skipped then Some (Next, True, s)
       else let s = (if not_on_tty s then snd (get_cur_time w s) else s)
            in map_option (\<lambda>(f, s, l). if f = Next then (Next, ret_val l, finish_entry s) else (f, ret_val l, s))
                 (until Abandon_entry (fuzz_entry w (common_fuzz_stuff w)) (s, fresh_locals w)))"

section \<open>What the deterministic stages leave alone\<close>

text \<open>The settings and the bandit's tables, and the locals the rest of the function relies on.\<close>

definition settings :: "afl \<Rightarrow> (bool \<times> nat \<times> nat \<times> u32) \<times> nat \<times> bool \<times> u32 \<times> u32 list \<times> u32 list list \<times> rat list list \<times> u32 list list" where
  "settings s = ((keep_timeouts s, min_length s, max_length s, havoc_max_mult s), havoc_stack_pow2 s, in_training s,
     stack_with_most_finds s, finds_per_stack s, finds_per_mutator s, prob_table_mut s, alias_table_mut s)"

definition same_run :: "afl \<Rightarrow> fuzz_locals \<Rightarrow> fstate \<Rightarrow> bool" where
  "same_run s0 l0 = (\<lambda>(s, l). settings s = settings s0 \<and> queue_cur s = queue_cur s0 \<and> extras s = extras s0 \<and>
     set (delivered s0) \<subseteq> set (delivered s) \<and> orig_in l = orig_in l0 \<and>
     in_buf l = in_buf l0 \<and> l_len l = l_len l0 \<and> l_perf_score l = l_perf_score l0 \<and> orig_perf l = orig_perf l0 \<and>
     splice_cycle l = splice_cycle l0)"

lemma settings_frame: "stage_frame s s' \<Longrightarrow> settings s' = settings s \<and> queue_cur s' = queue_cur s \<and> extras s' = extras s"
  by (simp add: settings_def stage_frame_def)

named_theorems runs

lemmas keeps_structure [runs] = keeps_inv_cond keeps_inv_reading keeps_inv_Nil keeps_inv_Cons keeps_inv_for_range keeps_inv_until keeps_inv_while

lemma keeps_cfs [runs]: "keeps_inv (same_run s0 l0) (fuzz_with (common_fuzz_stuff w) b n)"
proof -
  have "settings s' = settings s \<and> queue_cur s' = queue_cur s \<and> extras s' = extras s \<and>
      set (delivered s) \<subseteq> set (delivered s')" if "common_fuzz_stuff w c k s = Some (v, s')" for c k s v s'
    using common_fuzz_stuff_result(1) [OF that] settings_frame by (simp add: run_frame_def)
  then show ?thesis by (fastforce simp: keeps_inv_def fuzz_with_def same_run_def)
qed

lemma keeps_upd [runs]:
  "(\<And>s l. settings (f s) = settings s \<and> queue_cur (f s) = queue_cur s \<and> extras (f s) = extras s \<and>
     delivered (f s) = delivered s) \<Longrightarrow> keeps_inv (same_run s0 l0) (on_afl f)"
  "(\<And>l. (orig_in (g l), in_buf (g l), l_len (g l), l_perf_score (g l), orig_perf (g l), splice_cycle (g l)) =
     (orig_in l, in_buf l, l_len l, l_perf_score l, orig_perf l, splice_cycle l)) \<Longrightarrow> keeps_inv (same_run s0 l0) (on_loc g)"
  by (auto simp: on_afl_def on_loc_def same_run_def)

lemma keeps_simple [runs]:
  "keeps_inv (same_run s0 l0) (check_timeout w)" "keeps_inv (same_run s0 l0) (begin_stage n m f)"
  "keeps_inv (same_run s0 l0) (end_stage k)" "keeps_inv (same_run s0 l0) hits_so_far" "keeps_inv (same_run s0 l0) skip"
  "keeps_inv (same_run s0 l0) inc_cur" "keeps_inv (same_run s0 l0) dec_max" "keeps_inv (same_run s0 l0) (set_cur c)"
  "keeps_inv (same_run s0 l0) (set_byte i)" "keeps_inv (same_run s0 l0) (set_val_type t)" "keeps_inv (same_run s0 l0) (set_val v)"
  "keeps_inv (same_run s0 l0) (set_out h)" "keeps_inv (same_run s0 l0) (flip_bits j)" "keeps_inv (same_run s0 l0) collect_byte"
  "keeps_inv (same_run s0 l0) flip_byte_at_cur" "keeps_inv (same_run s0 l0) (restore_from_input i)"
  by (auto simp: keeps_inv_def check_timeout_def is_det_timeout_def get_cur_time_def begin_stage_def end_stage_def hits_so_far_def
      skip_def upd_def on_afl_def on_loc_def inc_cur_def dec_max_def set_cur_def set_byte_def set_val_type_def set_val_def set_out_def
      flip_bits_def collect_byte_def flip_byte_at_cur_def restore_from_input_def same_run_def settings_def)

lemma keeps_offer_token [runs]: "keeps_inv (same_run s0 l0) (offer_token w)"
proof -
  have "settings s' = settings s \<and> queue_cur s' = queue_cur s \<and> extras s' = extras s \<and> delivered s' = delivered s"
    if "maybe_add_auto w m n s = Some s'" for m n s s'
    using maybe_add_auto_only [OF that] by (auto simp: dict_only_def settings_def)
  then show ?thesis by (fastforce simp: keeps_inv_def offer_token_def same_run_def split: if_splits)
qed

lemma keeps_commands [runs]:
  "keeps_inv (same_run s0 l0) (collect_auto w)"
  "keeps_inv (same_run s0 l0) (fuzz_out (common_fuzz_stuff w))"
  "keeps_inv (same_run s0 l0) c \<Longrightarrow> keeps_inv (same_run s0 l0) (for_stage_cur c)"
  "keeps_inv (same_run s0 l0) c \<Longrightarrow> keeps_inv (same_run s0 l0) (if_effective w p c)"
  "keeps_inv (same_run s0 l0) c \<Longrightarrow> keeps_inv (same_run s0 l0) (attempt (common_fuzz_stuff w) b c)"
  "keeps_inv (same_run s0 l0) (put8 i v8 val)" "keeps_inv (same_run s0 l0) (put16 i v16 val)" "keeps_inv (same_run s0 l0) (put32 i v32 val)"
  by (auto simp: collect_auto_def fuzz_out_def for_stage_cur_def if_effective_def attempt_def put8_def put16_def put32_def intro!: runs)

lemma keeps_steps [runs]:
  "keeps_inv (same_run s0 l0) c \<Longrightarrow> keeps_inv (same_run s0 l0) (walking_bits w (common_fuzz_stuff w) k c)"
  "keeps_inv (same_run s0 l0) (arith8_step (common_fuzz_stuff w) i o8 j)"
  "keeps_inv (same_run s0 l0) (arith16_step (common_fuzz_stuff w) i o16 j)"
  "keeps_inv (same_run s0 l0) (arith32_step (common_fuzz_stuff w) i o32 j)"
  "keeps_inv (same_run s0 l0) (interest8_step (common_fuzz_stuff w) i o8 v8)"
  "keeps_inv (same_run s0 l0) (interest16_step (common_fuzz_stuff w) i o16 v16)"
  "keeps_inv (same_run s0 l0) (interest32_step (common_fuzz_stuff w) i o32 v32)"
  "keeps_inv (same_run s0 l0) (flip_word i)" "keeps_inv (same_run s0 l0) (flip_dword i)"
  by (auto simp: walking_bits_def arith8_step_def arith16_step_def arith32_step_def interest8_step_def interest16_step_def
      interest32_step_def flip_word_def flip_dword_def Let_def settings_def intro!: runs)

lemma keeps_tokens [runs]:
  "keeps_inv (same_run s0 l0) (place_token (common_fuzz_stuff w) i e)"
  "keeps_inv (same_run s0 l0) (insert_token (common_fuzz_stuff w) i e)"
  "keeps_inv (same_run s0 l0) (insert_stage w (common_fuzz_stuff w) toks)"
  by (auto simp: place_token_def insert_token_def insert_stage_def intro!: runs)

lemma keeps_user_over_step [runs]: "keeps_inv (same_run s0 l0) (user_over_step w (common_fuzz_stuff w) i j)"
proof -
  have dec: "keeps_inv (same_run s0 l0) dec_max" "\<And>e. keeps_inv (same_run s0 l0) (place_token (common_fuzz_stuff w) i e)"
    by (intro runs)+
  have "rng_only s s'" if "sampled_out w s = Some (out, s')" for out s s'
    using that by (auto simp: sampled_out_def Let_def dest!: rand_below_result split: if_splits)
  then have "same_run s0 l0 (s', l)" if "sampled_out w s = Some (out, s')" "same_run s0 l0 (s, l)" for out s s' l
    using that by (fastforce simp: rng_only_def same_run_def settings_def)
  then show ?thesis
    using keeps_inv_result [OF dec(1)] keeps_inv_result [OF dec(2)]
    unfolding keeps_inv_def user_over_step_def by (auto simp: Option.bind_eq_Some_conv split: if_splits) 
qed

lemma keeps_det_stages: "keeps_inv (same_run s0 l0) (det_stages w (common_fuzz_stuff w))"
    unfolding det_stages_def stage_flip1_def stage_flip2_def stage_flip4_def stage_flip8_def stage_flip16_def stage_flip32_def
      stage_arith8_def stage_arith16_def stage_arith32_def stage_interest8_def stage_interest16_def stage_interest32_def
      stage_user_over_def stage_user_insert_def stage_auto_over_def stage_auto_insert_def
    by (intro runs) (auto simp: same_run_def settings_def mark_as_det_done_def)

section \<open>Sound states\<close>

text \<open>
  The fuzzer between two turns: \<open>settled\<close> for the length of the current entry. \<open>D\<close> is what has
  been delivered before.
\<close>

definition fit :: "buf set \<Rightarrow> afl \<Rightarrow> bool" where
  "fit D s \<longleftrightarrow> settled (D, q_len (cur s)) s"

lemma fit_settled: "settled (D, n) s \<Longrightarrow> fit D s"
  by (simp add: fit_def settled_def)

lemma fitD:
  assumes "fit D s"
  shows "queue_cur s < length (queue_buf s)" "entry_ok (cur s)" "entries_ok s" "sizes_ok s" "0 < q_len (cur s)"
    "unat (q_len (cur s)) \<le> MAX_FILE" "q_testcase_max_cache_size s = 0 \<longrightarrow> testcase_buf (cur s) = None"
    "havoc_max_mult s = HAVOC_MAX_MULT" "queue_inv s"
proof -
  show q: "queue_cur s < length (queue_buf s)" and e: "entries_ok s" and z: "sizes_ok s" and "havoc_max_mult s = HAVOC_MAX_MULT"
      and "queue_inv s"
    using assms by (simp_all add: fit_def settled_def queue_ok_def sources_ok_def queue_inv_def)
  have c: "cur s \<in> set (queue_buf s)" using q by (simp add: entry_def)
  then show "entry_ok (cur s)" "q_testcase_max_cache_size s = 0 \<longrightarrow> testcase_buf (cur s) = None" using e by (simp_all add: entries_ok_def)
  show "0 < q_len (cur s)" "unat (q_len (cur s)) \<le> MAX_FILE" using z c by (simp_all add: sizes_ok_def)
qed

lemma settled_shape:
  fixes s s' :: afl
  assumes s: "settled (D, n) s" and sh: "shape s' = shape s" and fr: "stage_frame s s'"
    and d: "set (delivered s) \<subseteq> set (delivered s')" "set (delivered s') \<subseteq> set (delivered s) \<union> Collect mutable"
  shows "settled (D, n) s'" "cur s' = cur s \<or> q_shape (cur s') = q_shape (cur s)"
proof -
  have m: "map q_shape (queue_buf s') = map q_shape (queue_buf s)" using sh by (simp add: shape_def)
  then have len: "length (queue_buf s') = length (queue_buf s)" by (metis length_map)
  have q: "queue_cur s' = queue_cur s" using fr by (simp add: stage_frame_def)
  have qs: "queue_cur s < length (queue_buf s)" using s by (simp add: settled_def)
  then have e: "q_shape (cur s') = q_shape (cur s)" using m len q by (metis entry_def nth_map)
  then show "cur s' = cur s \<or> q_shape (cur s') = q_shape (cur s)" by simp
  have "queue_inv s" using s by (simp add: settled_def queue_ok_def sources_ok_def queue_inv_def)
  then have "queue_inv s'" using queue_inv_shape [OF sh] by simp
  moreover have "q_len (cur s') = n" using e s by (simp add: q_shape_def q_kept_def settled_def)
  ultimately show "settled (D, n) s'"
    using s fr d bandit_ok_frame [OF fr] qs len
    by (auto simp: settled_def queue_ok_def sources_ok_def queue_inv_def stage_frame_def dicts_ok_def dict_ok_def)
qed

text \<open>What is read from the cache is the copy in memory, where there is one.\<close>

lemma fetched_is_cached:
  assumes get: "queue_testcase_get w q s = Some (b, s')" and q: "q < length (queue_buf s)"
    and c: "q_testcase_max_cache_size s = 0 \<longrightarrow> testcase_buf (entry s q) = None"
  shows "testcase_buf (entry s' q) = None \<or> testcase_buf (entry s' q) = Some b"
proof (cases "q_testcase_max_cache_size s = 0 \<or> testcase_buf (entry s q) \<noteq> None")
  case True
  then show ?thesis using get c by (auto simp: queue_testcase_get_def)
next
  case False
  then obtain tid s1 t where room: "make_room w q (q_testcase_max_cache_count s) s = Some (tid, s1)"
    and s': "s' = register q (take (unat (q_len (entry s1 q))) (q_file (entry s1 q))) t s1" and b: "b = the (testcase_buf (entry s' q))"
    using get by (auto simp: queue_testcase_get_def load_testcase_def Option.bind_eq_Some_conv Let_def)
  have "q < length (queue_buf s1)" using cache_frameD(1) [OF make_room_frame [OF room, unfolded snd_conv]] q by simp
  then show ?thesis by (simp add: b s' entry_register)
qed

section \<open>The turn keeps the fuzzer sound\<close>

text \<open>The input is at hand; and the ways a turn ends early.\<close>

definition holding :: "buf set \<Rightarrow> fstate \<Rightarrow> bool" where
  "holding D st \<longleftrightarrow> (let (s, l) = st in
     fit D s \<and> l_len l = unat (q_len (cur s)) \<and> l_len l \<le> length (in_buf l) \<and> orig_in l = in_buf l \<and>
     (testcase_buf (cur s) = None \<or> testcase_buf (cur s) = Some (in_buf l)) \<and>
     splice_cycle l = 0 \<and> length (a_collect l) = MAX_AUTO_EXTRA)"

definition gone :: "buf set \<Rightarrow> flow \<Rightarrow> fstate \<Rightarrow> bool" where
  "gone D f st \<longleftrightarrow> (f = Abandon_entry \<or> f = Fatal) \<and> fit D (fst st)"

lemma fit_upd [simp]:
  "fit D (s\<lparr>cur_skipped_items := x1\<rparr>) = fit D s" "fit D (s\<lparr>subseq_tmouts := x2, cur_depth := x3\<rparr>) = fit D s"
  "fit D (s\<lparr>ready_for_splicing_count := x4\<rparr>) = fit D s" "fit D (s\<lparr>ticks := x5\<rparr>) = fit D s"
  "fit D (s\<lparr>libc_draws := x6\<rparr>) = fit D s" "fit D (s\<lparr>splicing_with := x7\<rparr>) = fit D s"
  "fit D (s\<lparr>pending_not_fuzzed := x8, reinit_table := x9\<rparr>) = fit D s"
  "fit D (s\<lparr>pending_favored := y1, smallest_favored := y2\<rparr>) = fit D s"
  by (simp_all add: fit_def settled_def queue_ok_def sources_ok_def sizes_ok_def entries_ok_def dicts_ok_def dict_ok_def
      bandit_ok_def entry_def)

lemma fit_upd_cur:
  assumes s: "fit D s" and f: "q_len (f (cur s)) = q_len (cur s)" "entry_ok (cur s) \<Longrightarrow> entry_ok (f (cur s))"
    "testcase_buf (f (cur s)) = testcase_buf (cur s)"
  shows "fit D (upd_entry (queue_cur s) f s)" "entry (upd_entry (queue_cur s) f s) (queue_cur (upd_entry (queue_cur s) f s)) = f (cur s)"
proof -
  have q: "queue_cur s < length (queue_buf s)" by (rule fitD [OF s])
  show "fit D (upd_entry (queue_cur s) f s)"
    by (rule fit_settled, rule settled_upd_entry [where f = f and q = "queue_cur s", OF s [unfolded fit_def] q f])
  show "entry (upd_entry (queue_cur s) f s) (queue_cur (upd_entry (queue_cur s) f s)) = f (cur s)"
    using q by (simp add: upd_entry_def entry_def)
qed

lemma fit_cache:
  assumes "fit D s" and "cache_frame s s'"
  shows "fit D s'" "q_len (cur s') = q_len (cur s)" "queue_cur s' = queue_cur s"
proof -
  have fr: "havoc_frame s s'" using havoc_frame_cache [OF havoc_frame_refl assms(2)] .
  have s': "settled (D, q_len (cur s)) s'" by (rule settled_frame [OF fr assms(1) [unfolded fit_def]])
  show "fit D s'" by (rule fit_settled [OF s'])
  show "q_len (cur s') = q_len (cur s)" using s' by (simp add: settled_def)
  show "queue_cur s' = queue_cur s" using fr by (simp add: havoc_frame_def stage_frame_def)
qed

lemma wp_fetch:
  assumes s: "fit D s"
    and Q: "\<And>s' b. fit D s' \<Longrightarrow> q_len (cur s') = q_len (cur s) \<Longrightarrow> unat (q_len (cur s')) \<le> length b \<Longrightarrow>
      testcase_buf (cur s') = None \<or> testcase_buf (cur s') = Some b \<Longrightarrow> Q Next (s', l\<lparr>in_buf := b, orig_in := b\<rparr>)"
  shows "wp True (fetch w) Q (s, l)"
proof (cases "queue_testcase_get w (queue_cur s) s")
  case (Some r)
  obtain b s' where r: "r = (b, s')" by (cases r)
  note get = Some [unfolded r] and q = fitD(1) [OF s]
  have c: "cache_frame s s'" and n: "unat (q_len (cur s)) \<le> length b"
    using queue_testcase_get_result [OF get q] fitD(3) [OF s] by simp_all
  note f = fit_cache [OF s c]
  have "testcase_buf (cur s') = None \<or> testcase_buf (cur s') = Some b"
    using fetched_is_cached [OF get q fitD(7) [OF s]] f(3) by simp
  then show ?thesis using Q [OF f(1,2)] n f(2) by (simp add: wp_def fetch_def Some r)
qed (simp add: wp_def fetch_def)

lemma give_up_result: "give_up (s, l) = Some (Abandon_entry, s\<lparr>cur_skipped_items := cur_skipped_items s + 1\<rparr>, l)"
  by (simp add: give_up_def on_afl_def steps.simps upd_def goto_def)

lemma wp_judge_calibration:
  assumes "holding D (s, l)" and "\<And>f st. gone D f st \<Longrightarrow> Q f st" and "Q Next (s, l)"
  shows "wp True (judge_calibration res) Q (s, l)"
  using assms by (auto simp: judge_calibration_def skip_def wp_def [of _ give_up] give_up_result gone_def holding_def)

lemma wp_recalibrate:
  assumes h: "holding D (s, l)" and Q: "\<And>f st. gone D f st \<Longrightarrow> Q f st" and Next: "\<And>s'. holding D (s', l) \<Longrightarrow> Q Next (s', l)"
  shows "wp True (recalibrate w) Q (s, l)"
proof (cases "cal_failed (cur s) < CAL_CHANCES")
  case True
  let ?s = "upd_entry (queue_cur s) (\<lambda>e. e\<lparr>exec_cksum := 0\<rparr>) s"
  have s: "fit D s" using h by (simp add: holding_def)
  have ok: "fit D ?s" and c: "cur ?s = (cur s)\<lparr>exec_cksum := 0\<rparr>" by (rule fit_upd_cur [OF s]; simp add: entry_ok_def)+
  have q: "queue_cur ?s = queue_cur s" by (simp add: upd_entry_def)
  have qc: "queue_cycle ?s = queue_cycle s" by (simp add: upd_entry_def)
  let ?n = "unat (q_len (cur ?s))"
  obtain res s' where cal: "calibrate_case w (queue_cur s) (in_buf l) (ucast (queue_cycle s - 1)) False ?s = Some (Next, res, s')"
    and fr: "run_frame ?n (in_buf l) ?s s'"
    using calibrate_case_returns [of w "queue_cur s" "in_buf l" "ucast (queue_cycle s - 1)" False ?s] q by auto
  have n: "?n = l_len l" using h c by (simp add: holding_def)
  have "length_ok ?n ?s" using ok fitD(5,6) [OF ok]
    by (simp add: length_ok_def fit_def settled_def word_less_nat_alt MAX_FILE_def)
  moreover have "mutable (take ?n (in_buf l))" using h fitD(5,6) [OF ok] n by (simp add: mutable_def holding_def word_less_nat_alt)
  ultimately have d: "set (delivered ?s) \<subseteq> set (delivered s')" "set (delivered s') \<subseteq> set (delivered ?s) \<union> Collect mutable"
    using fr by (auto simp: run_frame_def)
  have sh: "shape s' = shape ?s" by (rule shape_calibrate_case [OF cal])
  have sf: "stage_frame ?s s'" using fr by (simp add: run_frame_def)
  have s': "settled (D, q_len (cur ?s)) s'" by (rule settled_shape [OF ok [unfolded fit_def] sh sf d])
  have "q_shape (cur s') = q_shape (cur ?s)" using settled_shape(2) [OF ok [unfolded fit_def] sh sf d] by auto
  then have h': "holding D (s', l)" using h s' fit_settled [OF s'] c by (simp add: holding_def q_shape_def q_kept_def)
  have "wp True (judge_calibration res) Q (s', l)" by (rule wp_judge_calibration [where Q = Q, OF h' Q Next [OF h']])
  then show ?thesis
    using True cal Q [of Fatal "(s', l)"] fit_settled [OF s'] by (simp add: wp_def recalibrate_def Let_def gone_def)
next
  case False
  then show ?thesis using wp_judge_calibration [where Q = Q, OF h Q Next [OF h]] by (simp add: wp_def recalibrate_def Let_def)
qed

lemma stage_frame_unnamed:
  assumes "stage_frame s0 (s\<lparr>stage_name := n, stage_cur := c, stage_max := m\<rparr>)"
  shows "queue_cur s = queue_cur s0" "extras s = extras s0" "a_extras s = a_extras s0" "keep_timeouts s = keep_timeouts s0"
    "min_length s = min_length s0" "max_length s = max_length s0" "havoc_max_mult s = havoc_max_mult s0"
    "bandit_ok s = bandit_ok s0"
  using assms by (simp_all add: stage_frame_def bandit_ok_def)

lemma fit_trim:
  assumes h: "holding D (s, l)" and t: "trim_case w (queue_cur s) (in_buf l) s = Some (f, s')"
  shows "fit D s'" "queue_cur s' = queue_cur s"
proof -
  let ?q = "queue_cur s" and ?n0 = "unat (q_len (cur s))"
  have s: "fit D s" and b: "?n0 \<le> length (in_buf l)"
    and cached: "testcase_buf (cur s) = None \<or> testcase_buf (cur s) = Some (in_buf l)"
    using h by (simp_all add: holding_def)
  note q = fitD(1) [OF s]
  obtain c where fr: "trim_frame ?q s s'" and len: "unat (q_len (entry s' ?q)) = length c"
    and kept: "q_kept (entry s' ?q) = q_kept ((cur s)\<lparr>q_len := q_len (entry s' ?q)\<rparr>)"
    and lo: "min 4 ?n0 \<le> length c" and hi: "length c \<le> ?n0"
    and mem: "case testcase_buf (entry s' ?q) of None \<Rightarrow> testcase_buf (cur s) = None
      | Some m \<Rightarrow> testcase_buf (cur s) \<noteq> None \<and> take (length c) m = c"
    and on_disk: "if length c < ?n0 \<and> \<not> stop_soon s' \<and> f \<noteq> FSRV_RUN_ERROR then q_file (entry s' ?q) = c
      else q_file (entry s' ?q) = q_file (cur s)"
    using trim_case_result [OF q refl fitD(6) [OF s] b cached, of w] t by auto
  note same = stage_frame_unnamed [OF fr [unfolded trim_frame_def, THEN conjunct1]]
  have fr': "queued_items s' = queued_items s" "q_testcase_max_cache_size s' = q_testcase_max_cache_size s"
    "length (queue_buf s') = length (queue_buf s)" "set (delivered s) \<subseteq> set (delivered s')"
    "set (delivered s') \<subseteq> set (delivered s) \<union> Collect mutable"
    "\<And>i. i \<noteq> ?q \<Longrightarrow> i < length (queue_buf s) \<Longrightarrow> q_shape (entry s' i) = q_shape (entry s i)"
    using fr set_mono_prefix [of "delivered s" "delivered s'"] by (auto simp: trim_frame_def)
  show "queue_cur s' = queue_cur s" by (rule same)
  have ok: "entry_ok (cur s)" "0 < ?n0" using fitD(2,5) [OF s] by (simp_all add: word_less_nat_alt)
  have "length c \<le> length (q_file (entry s' ?q))" using on_disk hi ok(1) by (auto simp: entry_ok_def split: if_splits)
  moreover have "length c \<le> length m" if "testcase_buf (entry s' ?q) = Some m" for m
  proof -
    have "take (length c) m = c" using mem that by simp
    then have "length (take (length c) m) = length c" by (rule arg_cong)
    then show ?thesis by simp
  qed
  ultimately have eq: "entry_ok (entry s' ?q)" using ok(1) kept len hi by (auto simp: entry_ok_def q_kept_def)
  have no: "testcase_buf (entry s' ?q) = None" if "q_testcase_max_cache_size s = 0"
    using mem that fitD(7) [OF s] by (cases "testcase_buf (entry s' ?q)") auto
  have "entry_ok (entry s' i) \<and> (q_testcase_max_cache_size s = 0 \<longrightarrow> testcase_buf (entry s' i) = None) \<and>
      0 < q_len (entry s' i) \<and> unat (q_len (entry s' i)) \<le> MAX_FILE" if i: "i < length (queue_buf s)" for i
  proof (cases "i = ?q")
    case True
    have "0 < q_len (entry s' ?q)" "unat (q_len (entry s' ?q)) \<le> MAX_FILE"
      using lo hi ok(2) fitD(6) [OF s] by (auto simp: word_less_nat_alt len)
    then show ?thesis using eq no True by simp
  next
    case False
    have e: "entry s i \<in> set (queue_buf s)" using i by (simp add: entry_def)
    have "entry_ok (entry s i)" "q_testcase_max_cache_size s = 0 \<longrightarrow> testcase_buf (entry s i) = None"
      "0 < q_len (entry s i)" "unat (q_len (entry s i)) \<le> MAX_FILE"
      using e fitD(3,4) [OF s] by (simp_all add: entries_ok_def sizes_ok_def)
    then show ?thesis using fr'(6) [OF False i] by (simp add: q_shape_def q_kept_def entry_ok_def)
  qed
  then have "entries_ok s'" "sizes_ok s'" using fr'(2,3) by (auto simp: entries_ok_def sizes_ok_def entry_def in_set_conv_nth)
  then show "fit D s'" using s fr'(1-5) same
    by (auto simp: fit_def settled_def queue_ok_def sources_ok_def dicts_ok_def dict_ok_def)
qed

lemma wp_trim_input:
  assumes h: "holding D (s, l)" and Q: "\<And>f st. gone D f st \<Longrightarrow> Q f st" and Next: "\<And>s' l'. holding D (s', l') \<Longrightarrow> Q Next (s', l')"
  shows "wp True (trim_input w) Q (s, l)"
proof (cases "trim_case w (queue_cur s) (in_buf l) s")
  case (Some r)
  obtain res s1 where r: "r = (res, s1)" by (cases r)
  have s1: "fit D s1" by (rule fit_trim(1) [OF h Some [unfolded r]])
  have "wp True (steps [fetch w, cond (\<lambda>_. res = FSRV_RUN_ERROR) (goto Fatal) skip, cond (\<lambda>(s, l). stop_soon s) give_up skip,
      upd (after_trim (q_len (cur s)))]) Q (s1, l)"
  proof (subst wp_Cons, rule wp_fetch [OF s1])
    fix s2 b
    assume f: "fit D s2" "q_len (cur s2) = q_len (cur s1)" "unat (q_len (cur s2)) \<le> length b"
      and c: "testcase_buf (cur s2) = None \<or> testcase_buf (cur s2) = Some b"
    let ?l = "l\<lparr>in_buf := b, orig_in := b\<rparr>" and ?s = "upd_entry (queue_cur s2) (\<lambda>e. e\<lparr>trim_done := True\<rparr>) s2"
    have ok: "fit D ?s" and e: "cur ?s = (cur s2)\<lparr>trim_done := True\<rparr>" by (rule fit_upd_cur [OF f(1)]; simp add: entry_ok_def)+
    have "holding D (after_trim (q_len (cur s)) (s2, ?l))"
      using h f c ok e by (simp add: after_trim_def Let_def holding_def upd_entry_def) (auto simp: entry_def)
    then show "andthen (wp True (steps [cond (\<lambda>_. res = FSRV_RUN_ERROR) (goto Fatal) skip, cond (\<lambda>(s, l). stop_soon s) give_up skip,
        upd (after_trim (q_len (cur s)))]) Q) Q Next (s2, ?l)"
      using Next [of "fst (after_trim (q_len (cur s)) (s2, ?l))" "snd (after_trim (q_len (cur s)) (s2, ?l))"] Q f(1)
      by (auto simp: skip_def wp_def [of _ give_up] give_up_result gone_def)
  qed
  then show ?thesis by (simp add: wp_def trim_input_def Some r)
qed (simp add: wp_def trim_input_def)

text \<open>Ready for the stages: the input is in both buffers, and the score within its limits.\<close>

definition primed :: "buf set \<Rightarrow> fstate \<Rightarrow> bool" where
  "primed D st \<longleftrightarrow> (let (s, l) = st in
     tail_inv (D, q_len (cur s)) (s, l) \<and> l_len l = unat (q_len (cur s)) \<and> l_perf_score l = orig_perf l \<and>
     splice_cycle l = 0 \<and> length (a_collect l) = MAX_AUTO_EXTRA)"

lemma primed_fit: "primed D (s, l) \<Longrightarrow> fit D s"
  by (simp add: primed_def tail_inv_def ready_def fit_def)

lemma primed_upd:
  assumes "primed D (s, l)"
  shows "primed D (s\<lparr>ticks := x\<rparr>, l\<lparr>before_det_time := y\<rparr>)" "primed D (s, l\<lparr>eff_map := m\<rparr>)" "primed D (s, l\<lparr>doing_det := d\<rparr>)"
  using assms by (simp_all add: primed_def tail_inv_def ready_def spliceable_def score_ok_def entry_def)

lemma wp_take_score:
  assumes s: "fit D s" and b: "l_len l = unat (q_len (cur s))" "length (in_buf l) = l_len l" "out_buf l = in_buf l"
      "l_len l \<le> length (orig_in l)" "splice_cycle l = 0" "length (a_collect l) = MAX_AUTO_EXTRA"
    and Q: "\<And>f st. gone D f st \<Longrightarrow> Q f st" and Next: "\<And>s' l'. primed D (s', l') \<Longrightarrow> Q Next (s', l')"
  shows "wp True (take_score w) Q (s, l)"
proof -
  have primed: "primed D (s', l\<lparr>orig_perf := p, l_perf_score := p\<rparr>)"
    if "fit D s'" "q_len (cur s') = q_len (cur s)" "p \<le> HAVOC_MAX_MULT * 100" for s' p
    using that b fitD(5,6,8) [OF that(1)]
    by (simp add: primed_def tail_inv_def ready_def spliceable_def fit_def mutable_def score_ok_def HAVOC_MAX_MULT_def
        word_less_nat_alt del: length_greater_0_conv)
  have pos: "fit D (upd_entry (queue_cur s) (\<lambda>e. e\<lparr>handicap := h\<rparr>) s)" for h
    by (rule fit_upd_cur(1) [OF s]) (simp_all add: entry_ok_def)
  show ?thesis
  proof (cases "old_seed_selection s")
    case False
    have "perf_score (cur s) \<le> HAVOC_MAX_MULT * 100" using fitD(2) [OF s] by (simp add: entry_ok_def)
    from Next [OF primed [OF s refl this]] show ?thesis using False by (simp add: wp_def take_score_def Let_def)
  next
    case True
    show ?thesis
    proof (cases "calculate_score w (queue_cur s) s")
      case None
      then show ?thesis using True Q [of Fatal "(s, l)"] s by (simp add: wp_def take_score_def Let_def gone_def)
    next
      case (Some r)
      obtain p s1 where r: "r = (p, s1)" by (cases r)
      obtain hc where p: "p \<le> havoc_max_mult s * 100" and s1: "s1 = upd_entry (queue_cur s) (\<lambda>e. e\<lparr>handicap := hc\<rparr>) s"
        using calculate_score_bounds [OF Some [unfolded r]] by blast
      have f1: "fit D s1" unfolding s1 by (rule pos)
      have q1: "queue_cur s1 = queue_cur s" by (simp add: s1 upd_entry_def)
      have n1: "q_len (cur s1) = q_len (cur s)"
        using fitD(1) [OF s] by (simp add: s1 upd_entry_def entry_def)
      have p': "p \<le> HAVOC_MAX_MULT * 100" using p fitD(8) [OF s] by simp
      let ?s = "upd_entry (queue_cur s1) (\<lambda>e. e\<lparr>perf_score := p\<rparr>) s1"
      have f2: "fit D ?s" and e: "cur ?s = (cur s1)\<lparr>perf_score := p\<rparr>"
        by (rule fit_upd_cur [OF f1]; use p' in \<open>simp add: entry_ok_def\<close>)+
      have "q_len (cur ?s) = q_len (cur s)" using e n1 by simp
      from Next [OF primed [OF f2 this p']] show ?thesis
        using True Some r q1 by (simp add: wp_def take_score_def Let_def)
    qed
  qed
qed

lemma wp_skip_stage_entry:
  assumes p: "primed D (s, l)" and Q: "\<And>f st. gone D f st \<Longrightarrow> Q f st" and Next: "\<And>s'. primed D (s', l) \<Longrightarrow> Q Next (s', l)"
  shows "wp True (skip_stage w (common_fuzz_stuff w)) Q (s, l)"
proof -
  let ?D = "(D, q_len (cur s))"
  have i: "settled ?D s" "mutable (in_buf l)" "out_buf l = in_buf l" "l_len l = length (in_buf l)" "l_len l = unat (q_len (cur s))"
    using p by (simp_all add: primed_def tail_inv_def ready_def)
  have "Q (if f = Return_zero then Abandon_entry else f) (s', l\<lparr>out_buf := b\<rparr>)"
    if run: "skip_deterministic_stage w (common_fuzz_stuff w) (in_buf l) (out_buf l) (l_len l) (before_det_time l) s = Some (f, b, s')"
    for f b s'
  proof -
    have r: "settled ?D s'" "f = Next \<and> b = in_buf l \<or> f = Return_zero \<or> f = Fatal"
      using havoc.skip_deterministic_stage_result [OF run [unfolded i(3,4)] i(1,2)] i(4,5) by simp_all
    have fit: "fit D s'" by (rule fit_settled [OF r(1)])
    have n: "q_len (cur s') = q_len (cur s)" using r(1) by (simp add: settled_def)
    have hm: "havoc_max_mult s' = havoc_max_mult s" using i(1) r(1) by (simp add: settled_def)
    have eq: "l\<lparr>out_buf := in_buf l\<rparr> = l" using i(3) by (cases l) simp
    have "primed D (s', l)"
      using p r(1) n hm by (simp add: primed_def tail_inv_def ready_def spliceable_def score_ok_def)
    then show ?thesis using r(2) Next Q [of _ "(s', l\<lparr>out_buf := b\<rparr>)"] fit eq by (auto simp: gone_def)
  qed
  then show ?thesis
    unfolding wp_def skip_stage_def by (auto split: option.split)
qed

text \<open>
  Around the deterministic stages: what the stages' own invariant says of the queue, together
  with the settings they leave alone, is soundness.
\<close>

lemma settled_again:
  assumes s0: "settled (D, n) s0" and a: "abandoned (unat n) s" and r: "same_run s0 l0 (s, l)"
  shows "settled (D, n) s"
proof -
  have eq: "bandit_ok s = bandit_ok s0" "keep_timeouts s = keep_timeouts s0" "min_length s = min_length s0"
    "max_length s = max_length s0" "havoc_max_mult s = havoc_max_mult s0" "extras s = extras s0" "queue_cur s = queue_cur s0"
    "set (delivered s0) \<subseteq> set (delivered s)"
    using r by (simp_all add: same_run_def settings_def bandit_ok_def)
  have q: "queue_inv s" "queue_cur s < length (queue_buf s)" "set (delivered s) \<subseteq> Collect mutable" "q_len (cur s) = n" "dicts_ok s"
    using a by (auto simp: abandoned_def fuzzing_def sound_def)
  have "length (a_extras s) < 2 ^ 32" "tokens_ok (a_extras s)" using q(5) by (auto simp: dicts_ok_def dict_ok_def MAX_AUTO_EXTRAS_def USE_AUTO_EXTRAS_def)
  then have "queue_ok s" using q(1,5) s0 eq(6) by (simp add: queue_ok_def sources_ok_def queue_inv_def settled_def)
  then show ?thesis using s0 q eq by (auto simp: settled_def)
qed

lemma wp_det_part:
  assumes p: "primed D (s, l)" and D: "D \<subseteq> Collect mutable"
    and Q: "\<And>f st. gone D f st \<Longrightarrow> Q f st" and Next: "\<And>s' l'. primed D (s', l') \<Longrightarrow> Q Next (s', l')"
  shows "wp True (det_part w (common_fuzz_stuff w)) Q (s, l)"
proof -
  let ?l = "l\<lparr>doing_det := True\<rparr>" and ?n = "q_len (cur s)" and ?b = "in_buf l" and ?em = "eff_map l"
  have i: "settled (D, ?n) s" "mutable ?b" "out_buf l = ?b" "l_len l = length ?b" "l_len l = unat ?n"
    "score_ok s (orig_perf l)" "l_perf_score l = orig_perf l" "unat ?n \<le> length (orig_in l)" "splice_cycle l = 0"
    "length (a_collect l) = MAX_AUTO_EXTRA"
    using p by (simp_all add: primed_def tail_inv_def ready_def spliceable_def)
  have size: "0 < length ?b" "length ?b \<le> MAX_FILE" using i(2) by (simp_all add: mutable_def)
  have n: "of_nat (length ?b) = ?n" proof -
    have "length ?b = unat ?n" using i(4,5) by simp
    then show ?thesis by simp
  qed
  have "length_ok (length ?b) s" using i(1) size by (simp add: length_ok_def settled_def MAX_FILE_def del: length_greater_0_conv)
  moreover have "fuzzing (length ?b) s" "dicts_ok s"
    using i(1) D n by (auto simp: fuzzing_def sound_def settled_def queue_ok_def sources_ok_def queue_inv_def)
  ultimately have inv: "stage_inv ?b ?em (no_arith s) D (s, ?l)"
    using i size by (simp add: stage_inv_def settled_def)
  have run: "wp True (det_stages w (common_fuzz_stuff w))
     (\<lambda>f st. stage_post ?b ?em (no_arith s) D (det_delivered ?b ?em (no_arith s)) f st \<and> same_run s ?l st) (s, ?l)"
    by (rule wp_keeps [OF runner_rng.wp_det_stages [OF TrueI inv size] keeps_det_stages]) (simp add: same_run_def)
  have post: "Q (if f = Custom_mutator_stage then Next else f) st"
    if f: "stage_post ?b ?em (no_arith s) D (det_delivered ?b ?em (no_arith s)) f st" and r: "same_run s ?l st" for f st
  proof -
    obtain s' l' where st: "st = (s', l')" by (cases st)
    have again: "settled (D, ?n) s'" if "abandoned (length ?b) s'"
      by (rule settled_again [OF i(1) _ r [unfolded st]]) (use that i(4,5) in simp)
    have whole: "primed D (s', l')" if "stage_inv ?b ?em (no_arith s) E (s', l')" for E
    proof -
      have s': "settled (D, ?n) s'" by (rule again [OF stage_inv_fuzzing [OF that]])
      have n': "q_len (cur s') = ?n" using s' by (simp add: settled_def)
      have hm: "havoc_max_mult s' = havoc_max_mult s" using i(1) s' by (simp add: settled_def)
      have "out_buf l' = ?b" "in_buf l' = ?b" "l_len l' = length ?b" "length (a_collect l') = MAX_AUTO_EXTRA"
        using that by (simp_all add: stage_inv_def)
      then show ?thesis using r i s' n' hm
        by (simp add: st primed_def tail_inv_def ready_def spliceable_def score_ok_def same_run_def)
    qed
    consider "f = Next \<or> f = Custom_mutator_stage" | "f = Abandon_entry \<or> f = Fatal"
      using f by (auto simp: andthen_def exit_ok_def split: flow.splits if_splits)
    then show ?thesis
    proof cases
      case 1
      then have "primed D (s', l')" using f whole by (auto simp: st andthen_def split: if_splits)
      then show ?thesis using 1 Next st by auto
    next
      case 2
      then have "abandoned (length ?b) s'" using f by (auto simp: st andthen_def exit_ok_def)
      then show ?thesis using 2 Q [of f st] fit_settled [OF again] by (auto simp: st gone_def)
    qed
  qed
  have "wp True (until Custom_mutator_stage (det_stages w (common_fuzz_stuff w))) Q (s, ?l)"
    unfolding wp_until by (rule wp_mono [OF run]) (use post in blast)
  then show ?thesis using Next [OF p] by (simp add: det_part_def on_loc_def skip_def)
qed

lemma wp_fuzz_tail:
  assumes p: "primed D (s, l)" and Q: "\<And>f st. gone D f st \<Longrightarrow> Q f st" and Next: "\<And>s' l'. fit D s' \<Longrightarrow> Q Next (s', l')"
  shows "wp True (havoc_and_splice w (common_fuzz_stuff w)) Q (s, l)"
proof (rule havoc.wp_havoc_and_splice [where D = "(D, q_len (cur s))"])
  show "tail_inv (D, q_len (cur s)) (s, l)" "score_ok s (start_score l)" "splice_cycle l \<le> SPLICE_CYCLES"
    using p by (simp_all add: primed_def tail_inv_def spliceable_def start_score_def)
  show "Q f st" if "left_early (D, q_len (cur s)) f st" for f st
    using that fit_settled by (intro Q) (auto simp: left_early_def gone_def)
  show "Q Next (s', l')" if "settled (D, q_len (cur s)) s'" for s' l' by (rule Next [OF fit_settled [OF that]])
qed

lemma wp_then:
  assumes "wp d c (andthen R Q) s" and "\<And>s'. R s' \<Longrightarrow> wp d (steps cs) Q s'"
  shows "wp d (steps (c # cs)) Q s"
  by (rule wp_seq [OF assms])

lemma wp_fuzz_entry:
  assumes s: "fit D s" and D: "D \<subseteq> Collect mutable" and l: "splice_cycle l = 0" "length (a_collect l) = MAX_AUTO_EXTRA"
  shows "wp True (fuzz_entry w (common_fuzz_stuff w)) (\<lambda>f st. f = Next \<and> fit D (fst st) \<and> \<not> ret_val (snd st) \<or> gone D f st) (s, l)"
    (is "wp True _ ?Q _")
proof -
  let ?H = "holding D" and ?P = "primed D"
  have out: "andthen R ?Q f st" if "gone D f st" for R f st
    using that by (auto simp: andthen_def gone_def)
  show ?thesis
    unfolding fuzz_entry_def
  proof (subst wp_Cons, rule wp_fetch [OF s])
    fix s1 b
    assume f: "fit D s1" "q_len (cur s1) = q_len (cur s)" "unat (q_len (cur s1)) \<le> length b"
      "testcase_buf (cur s1) = None \<or> testcase_buf (cur s1) = Some b"
    have start: "?H (s1\<lparr>subseq_tmouts := 0, cur_depth := ucast (depth (cur s1))\<rparr>,
        l\<lparr>in_buf := b, orig_in := b, l_len := unat (q_len (cur s1))\<rparr>)"
      using f l by (simp add: holding_def entry_def)
    have cal: "wp True (cond (\<lambda>(s, l). cal_failed (cur s) \<noteq> 0) (recalibrate w) skip) (andthen ?H ?Q) st" if "?H st" for st
      using that by (cases st) (auto simp: skip_def intro!: wp_recalibrate [where D = D and Q = "andthen ?H ?Q", OF _ out])
    have trim: "wp True (cond wants_trim (trim_input w) skip) (andthen ?H ?Q) st" if "?H st" for st
      using that by (cases st) (auto simp: skip_def intro!: wp_trim_input [where D = D and Q = "andthen ?H ?Q", OF _ out])
    have score: "wp True (steps (copy_input # take_score w # cs)) ?Q st"
      if "?H st" and k: "\<And>st. ?P st \<Longrightarrow> wp True (steps cs) ?Q st" for st cs
    proof -
      obtain s2 l2 where st: "st = (s2, l2)" by (cases st)
      have h: "holding D (s2, l2)" using that(1) by (simp add: st)
      have "wp True (take_score w) (andthen ?P ?Q) (s2, l2\<lparr>in_buf := take (l_len l2) (in_buf l2), out_buf := take (l_len l2) (in_buf l2)\<rparr>)"
        by (rule wp_take_score [where D = D, OF _ _ _ _ _ _ _ out]) (use h in \<open>auto simp: holding_def\<close>)
      from wp_then [OF this k] show ?thesis by (simp only: wp_Cons [of _ copy_input]) (simp add: copy_input_def on_loc_def st)
    qed
    have worth: "wp True (cond worthless (goto Abandon_entry) skip) (andthen ?P ?Q) st" if "?P st" for st
      using that primed_fit by (cases st) (auto simp: skip_def gone_def)
    have clock: "wp True (start_clock w) (andthen ?P ?Q) st" if "?P st" for st
      using that primed_upd(1) by (cases st) (auto simp: start_clock_def get_cur_time_def)
    have sk: "wp True (cond (\<lambda>(s, l). skip_deterministic s) skip (skip_stage w (common_fuzz_stuff w))) (andthen ?P ?Q) st" if "?P st" for st
      using that by (cases st) (auto simp: skip_def intro!: wp_skip_stage_entry [where D = D and Q = "andthen ?P ?Q", OF _ out])
    have eff: "wp True get_eff_map (andthen ?P ?Q) st" if "?P st" for st
      using that primed_upd(2) by (cases st) (auto simp: get_eff_map_def)
    have det: "wp True (det_part w (common_fuzz_stuff w)) (andthen ?P ?Q) st" if "?P st" for st
      using that D by (cases st) (auto intro!: wp_det_part [where D = D and Q = "andthen ?P ?Q", OF _ _ out])
    have tail: "wp True (steps [havoc_and_splice w (common_fuzz_stuff w), on_loc (\<lambda>l. l\<lparr>ret_val := False\<rparr>)]) ?Q st" if "?P st" for st
    proof (rule wp_then [where R = "\<lambda>st. fit D (fst st)"])
      show "wp True (havoc_and_splice w (common_fuzz_stuff w)) (andthen (\<lambda>st. fit D (fst st)) ?Q) st"
        using that by (cases st) (auto intro!: wp_fuzz_tail [where D = D and Q = "andthen (\<lambda>st. fit D (fst st)) ?Q", OF _ out])
      show "wp True (steps [on_loc (\<lambda>l. l\<lparr>ret_val := False\<rparr>)]) ?Q st" if "fit D (fst st)" for st
        using that by (cases st) (simp add: on_loc_def)
    qed
    have body: "wp True (steps
     [cond (\<lambda>(s, l). cal_failed (cur s) \<noteq> 0) (recalibrate w) skip, cond wants_trim (trim_input w) skip,
      copy_input, take_score w, cond worthless (goto Abandon_entry) skip, start_clock w,
      cond (\<lambda>(s, l). skip_deterministic s) skip (skip_stage w (common_fuzz_stuff w)), get_eff_map,
      det_part w (common_fuzz_stuff w), havoc_and_splice w (common_fuzz_stuff w), on_loc (\<lambda>l. l\<lparr>ret_val := False\<rparr>)]) ?Q st" if "?H st" for st
      by (rule wp_then [OF cal [OF that]], erule wp_then [OF trim], erule score, erule wp_then [OF worth], erule wp_then [OF clock],
          erule wp_then [OF sk], erule wp_then [OF eff], erule wp_then [OF det], erule tail)
    show "andthen (wp True (steps
     [upd (\<lambda>(s, l). let e = cur s in (s\<lparr>subseq_tmouts := 0, cur_depth := ucast (depth e)\<rparr>, l\<lparr>l_len := unat (q_len e)\<rparr>)),
      cond (\<lambda>(s, l). cal_failed (cur s) \<noteq> 0) (recalibrate w) skip, cond wants_trim (trim_input w) skip,
      copy_input, take_score w, cond worthless (goto Abandon_entry) skip, start_clock w,
      cond (\<lambda>(s, l). skip_deterministic s) skip (skip_stage w (common_fuzz_stuff w)), get_eff_map,
      det_part w (common_fuzz_stuff w), havoc_and_splice w (common_fuzz_stuff w), on_loc (\<lambda>l. l\<lparr>ret_val := False\<rparr>)]) ?Q) ?Q Next
      (s1, l\<lparr>in_buf := b, orig_in := b\<rparr>)"
      unfolding wp_Cons [of _ "upd _"] wp_upd andthen_simps prod.case Let_def
      using body [OF start] by simp
  qed
qed

lemma fit_finish: "fit D s \<Longrightarrow> fit D (finish_entry s)"
proof -
  assume s: "fit D s"
  have one: "fit D (upd_entry (queue_cur t) f t)" if "fit D t" "\<And>e. q_len (f e) = q_len e" "\<And>e. entry_ok (f e) = entry_ok e"
    "\<And>e. testcase_buf (f e) = testcase_buf e" for t f
    by (rule fit_upd_cur(1) [OF that(1)]) (use that in simp_all)
  let ?s1 = "s\<lparr>splicing_with := -1\<rparr>" and ?q = "queue_cur s"
  define s2 where "s2 = ?s1\<lparr>pending_not_fuzzed := pending_not_fuzzed ?s1 - 1, reinit_table := True\<rparr>"
  define s3 where "s3 = upd_entry ?q (\<lambda>e. e\<lparr>was_fuzzed := True\<rparr>) s2"
  define s4 where "s4 = s3\<lparr>pending_favored := pending_favored s3 - 1, smallest_favored := -1\<rparr>"
  have q: "queue_cur s2 = ?q" "queue_cur s3 = ?q" "queue_cur s4 = ?q" by (simp_all add: s2_def s3_def s4_def upd_entry_def)
  have f2: "fit D ?s1" "fit D s2" using s by (simp_all add: s2_def)
  have f3: "fit D s3" unfolding s3_def q(1) [symmetric] by (rule one [OF f2(2)]) (simp_all add: entry_ok_def)
  then have f4: "fit D s4" by (simp add: s4_def)
  have last: "fit D (upd_entry ?q (\<lambda>e. e\<lparr>fuzz_level := fuzz_level e + 1\<rparr>) t)" if "fit D t" "queue_cur t = ?q" for t
    unfolding that(2) [symmetric] by (rule one [OF that(1)]) (simp_all add: entry_ok_def)
  have "finish_entry s = upd_entry ?q (\<lambda>e. e\<lparr>fuzz_level := fuzz_level e + 1\<rparr>)
     (if \<not> stop_soon s \<and> cal_failed (entry ?s1 ?q) = 0 \<and> \<not> was_fuzzed (entry ?s1 ?q) \<and> \<not> disabled (entry ?s1 ?q)
      then if favored (entry ?s1 ?q) then s4 else s3 else ?s1)"
    by (simp add: finish_entry_def Let_def s2_def s3_def s4_def)
  then show ?thesis using last f2(1) f3 f4 q by simp
qed

text \<open>One whole turn.\<close>

lemma fuzz_one_fit:
  assumes s: "fit D s" and D: "D \<subseteq> Collect mutable" and run: "fuzz_one w s = Some (f, r, s')"
  shows "fit D s' \<and> (f = Next \<or> f = Fatal)"
proof -
  have "rng_only t t'" if "skip_entry w t = Some (b, t')" for t b t'
    using that by (auto simp: skip_entry_def split: option.splits dest!: rand_below_result)
  then have sk: "fit D t'" if "skip_entry w t = Some (b, t')" "fit D t" for t b t'
    using fit_cache(1) [OF that(2) cache_frame_rng] that(1) by blast
  have s0: "fit D (snd (rand_c w s))" using s by (simp add: rand_c_def)
  obtain b s1 where s1: "skip_entry w (snd (rand_c w s)) = Some (b, s1)"
    using run by (auto simp: fuzz_one_def Option.bind_eq_Some_conv)
  have f1: "fit D s1" by (rule sk [OF s1 s0])
  let ?s2 = "if not_on_tty s1 then snd (get_cur_time w s1) else s1"
  have f2: "fit D ?s2" using f1 by (simp add: get_cur_time_def)
  show ?thesis
  proof (cases b)
    case True
    then show ?thesis using run s1 f1 by (simp add: fuzz_one_def)
  next
    case False
    have "wp True (until Abandon_entry (fuzz_entry w (common_fuzz_stuff w))) (\<lambda>f st. (f = Next \<or> f = Fatal) \<and> fit D (fst st)) (?s2, fresh_locals w)"
      unfolding wp_until
      by (rule wp_mono [OF wp_fuzz_entry [OF f2 D]]) (auto simp: fresh_locals_def gone_def)
    from wp_result [OF this] show ?thesis
      using run s1 False fit_finish by (fastforce simp: fuzz_one_def Let_def split: if_splits prod.splits)
  qed
qed

section \<open>Entries without a score\<close>

text \<open>The input of an entry that is in memory, or cannot be cached, is at hand without a search for room.\<close>

definition at_hand :: "afl \<Rightarrow> bool" where
  "at_hand s \<longleftrightarrow> q_testcase_max_cache_size s = 0 \<or> testcase_buf (cur s) \<noteq> None"

lemma get_at_hand: "at_hand s \<Longrightarrow> \<exists>b. queue_testcase_get w (queue_cur s) s = Some (b, s)"
  by (auto simp: at_hand_def queue_testcase_get_def)

text \<open>
  A pending favored entry is taken; when its score is still 0, as it is in a new entry, it is
  given up for it, but it counts as fuzzed. Here nothing is left to trim, so that nothing is run
  before.
\<close>

definition untouched :: "afl \<Rightarrow> bool" where
  "untouched s \<longleftrightarrow> (let e = cur s in
     queue_cur s < length (queue_buf s) \<and> at_hand s \<and> pending_favored s \<noteq> 0 \<and> favored e \<and> fuzz_level e = 0 \<and> cal_failed e = 0 \<and>
     \<not> was_fuzzed e \<and> \<not> disabled e \<and> (trim_done e \<or> disable_trim s \<or> non_instrumented_mode s) \<and> \<not> stop_soon s)"

lemma fuzz_one_unscored:
  assumes u: "untouched s" and p: "perf_score (cur s) = 0" "1 < active_items s" "\<not> old_seed_selection s"
  shows "\<exists>s'. fuzz_one w s = Some (Next, True, s') \<and> delivered s' = delivered s \<and> was_fuzzed (cur s') \<and>
    fuzz_level (cur s') = 1 \<and> pending_favored s' = pending_favored s - 1"
proof -
  define s1 where "s1 = s\<lparr>libc_draws := Suc (libc_draws s)\<rparr>"
  define s2 where "s2 = (if not_on_tty s1 then s1\<lparr>ticks := Suc (ticks s1)\<rparr> else s1)"
  have same: "entry s2 = entry s" "queue_cur s2 = queue_cur s" "queue_buf s2 = queue_buf s" "delivered s2 = delivered s"
    "pending_favored s2 = pending_favored s" "active_items s2 = active_items s" "old_seed_selection s2 = old_seed_selection s"
    "stop_soon s2 = stop_soon s" "disable_trim s2 = disable_trim s" "non_instrumented_mode s2 = non_instrumented_mode s"
    "q_testcase_max_cache_size s2 = q_testcase_max_cache_size s"
    by (simp_all add: s2_def s1_def entry_def fun_eq_iff)
  have skip1: "skip_entry w (snd (rand_c w s)) = Some (False, s1)"
    using u by (simp add: skip_entry_def skip_odds_def rand_c_def s1_def Let_def untouched_def entry_def)
  have "at_hand s2" using u by (simp add: untouched_def Let_def at_hand_def same)
  then obtain b where b: "queue_testcase_get w (queue_cur s2) s2 = Some (b, s2)" using get_at_hand by blast
  define s3 where "s3 = s2\<lparr>subseq_tmouts := 0, cur_depth := ucast (depth (cur s2))\<rparr>"
  have same3: "entry s3 = entry s" "queue_cur s3 = queue_cur s" "queue_buf s3 = queue_buf s" "delivered s3 = delivered s"
    "pending_favored s3 = pending_favored s" "active_items s3 = active_items s" "old_seed_selection s3 = old_seed_selection s"
    "stop_soon s3 = stop_soon s" "disable_trim s3 = disable_trim s" "non_instrumented_mode s3 = non_instrumented_mode s"
    by (simp_all add: s3_def same) (simp_all add: entry_def fun_eq_iff same(3))
  have nt: "\<not> wants_trim (s3, l)" for l using u by (auto simp: wants_trim_def untouched_def Let_def same3)
  have "\<exists>l'. ret_val l' \<and> fuzz_entry w (common_fuzz_stuff w) (s2, fresh_locals w) = Some (Abandon_entry, s3, l')"
    using u p unfolding fuzz_entry_def
    by (simp add: steps.simps fetch_def b upd_def Let_def s3_def [symmetric] cond_def skip_def same3 nt untouched_def
        copy_input_def on_loc_def take_score_def worthless_def goto_def fresh_locals_def)
  then obtain l' where l': "ret_val l'" "fuzz_entry w (common_fuzz_stuff w) (s2, fresh_locals w) = Some (Abandon_entry, s3, l')"
    by blast
  have run: "fuzz_one w s = Some (Next, True, finish_entry s3)"
  proof -
    have tick: "(if not_on_tty s1 then snd (get_cur_time w s1) else s1) = s2" by (simp add: s2_def get_cur_time_def)
    show ?thesis unfolding fuzz_one_def skip1 bind.bind_lunit prod.case if_False Let_def tick until_def l'(2) option.map
      using l'(1) by simp
  qed
  have q: "queue_cur s3 < length (queue_buf s3)" using u same3 by (simp add: untouched_def Let_def)
  have u3: "\<not> stop_soon s3" "cal_failed (queue_buf s3 ! queue_cur s3) = 0" "\<not> was_fuzzed (queue_buf s3 ! queue_cur s3)"
    "\<not> disabled (queue_buf s3 ! queue_cur s3)" "favored (queue_buf s3 ! queue_cur s3)" "fuzz_level (queue_buf s3 ! queue_cur s3) = 0"
    using u by (simp_all add: untouched_def Let_def entry_def same3)
  have "delivered (finish_entry s3) = delivered s3 \<and> was_fuzzed (cur (finish_entry s3)) \<and>
      fuzz_level (cur (finish_entry s3)) = 1 \<and> pending_favored (finish_entry s3) = pending_favored s3 - 1"
    using u3 q by (simp add: finish_entry_def Let_def upd_entry_def entry_def)
  then show ?thesis using run same3 by simp
qed

end
