(* ===== verification/Training.thy ===== *)
theory Training
  imports Havoc
begin

text \<open>
  The life cycle of what the havoc stage learns (\<^verbatim>\<open>src/afl-fuzz.c\<close>): the counters
  are cleared at the start; after an hour the counts of pairs of mutators become a transition
  matrix, whose rows are turned into alias tables; after two hours the number of stacked
  mutators is no longer always drawn at random.
\<close>

section \<open>Start\<close>

definition init_learning :: "afl \<Rightarrow> afl" where
  "init_learning s = s\<lparr>
     finds_per_mutator := replicate mut_max (replicate mut_max 0),
     finds_per_stack := replicate (unat (num_of_available_stacks s)) 0,
     stack_with_most_finds := 2, stack_epsilon := 1\<rparr>"

definition start_training :: "world \<Rightarrow> afl \<Rightarrow> afl" where
  "start_training w s =
     (let (t, s) = get_cur_time w s
      in s\<lparr>start_time := t, in_training := True, using_egreedy_for_nstack := False\<rparr>)"

section \<open>The transition matrix\<close>

text \<open>\<^verbatim>\<open>double epsilon = 1e-5; // Regularization constant\<close>\<close>

definition epsilon :: rat where "epsilon = 1 / 100000"

fun random_row :: "world \<Rightarrow> nat \<Rightarrow> afl \<Rightarrow> rat list \<times> afl" where
  "random_row w 0 s = ([], s)"
| "random_row w (Suc n) s =
     (let (a, s) = rand_c w s; (row, s) = random_row w n s in (of_nat a / of_nat RAND_MAX # row, s))"

text \<open>One row: the finds, or random numbers if there are none, divided by their sum (and a bit).\<close>

definition transition_row :: "world \<Rightarrow> u32 list \<Rightarrow> afl \<Rightarrow> rat list \<times> afl" where
  "transition_row w finds s =
     (let row = map (\<lambda>n. of_nat (unat n)) finds;
          (row, s) = (if sum_list row < epsilon then random_row w (length finds) s else (row, s))
      in (map (\<lambda>p. p / (sum_list row + epsilon)) row, s))"

fun transition_rows :: "world \<Rightarrow> u32 list list \<Rightarrow> afl \<Rightarrow> rat list list \<times> afl" where
  "transition_rows w [] s = ([], s)"
| "transition_rows w (finds # rest) s =
     (let (row, s) = transition_row w finds s; (rows, s) = transition_rows w rest s in (row # rows, s))"

definition update_distribution :: "rat list list \<Rightarrow> afl \<Rightarrow> afl" where
  "update_distribution probabilities s = s\<lparr>
     alias_table_mut := map (\<lambda>row. map of_nat (t_alias (update_row row))) probabilities,
     prob_table_mut := map (\<lambda>row. t_prob (update_row row)) probabilities\<rparr>"

definition finish_training :: "world \<Rightarrow> afl \<Rightarrow> afl" where
  "finish_training w s =
     (let (P, s) = transition_rows w (finds_per_mutator s) s
      in (update_distribution P (s\<lparr>mut_probabilities := P\<rparr>))\<lparr>in_training := False\<rparr>)"

section \<open>The two dates\<close>

definition decay_epsilon :: "world \<Rightarrow> afl \<Rightarrow> afl" where
  "decay_epsilon w s =
     (if \<not> using_egreedy_for_nstack s
      then let (t, s) = get_cur_time w s
        in if t - start_time s > 2 * 60 * 60 * 1000
           then s\<lparr>stack_epsilon := 1 / 2, using_egreedy_for_nstack := True\<rparr> else s
      else s)"

definition training_hours :: u64 where "training_hours = 1"

definition end_training :: "world \<Rightarrow> afl \<Rightarrow> afl" where
  "end_training w s =
     (if in_training s
      then let (t, s) = get_cur_time w s
        in if t - start_time s > training_hours * 60 * 60 * 1000 then finish_training w s else s
      else s)"

section \<open>The rows are distributions\<close>

lemma random_row_result:
  assumes "random_row w n s = (row, s')"
  shows "length row = n \<and> (\<forall>p\<in>set row. 0 \<le> p) \<and> (\<exists>c. s' = s\<lparr>libc_draws := c\<rparr>)"
  using assms
proof (induction n arbitrary: row s s')
  case 0
  then show ?case by (auto intro: exI [of _ "libc_draws s"])
next
  case (Suc n)
  let ?s = "s\<lparr>libc_draws := Suc (libc_draws s)\<rparr>"
  obtain rest where "random_row w n ?s = (rest, s')"
      "row = of_nat (libc_rand w (libc_draws s)) / of_nat RAND_MAX # rest"
    using Suc.prems by (auto simp: rand_c_def Let_def split: prod.splits)
  then show ?case using Suc.IH [of ?s rest s'] by auto
qed

text \<open>A row that is not negative, divided by its sum and a bit, is a distribution that lacks little.\<close>

definition share :: "rat list \<Rightarrow> rat list" where
  "share row = map (\<lambda>p. p / (sum_list row + epsilon)) row"

lemma epsilon_pos [simp]: "0 < epsilon"
  by (simp add: epsilon_def)

lemma share_distribution:
  assumes "\<forall>p\<in>set row. 0 \<le> p"
  shows "\<forall>p\<in>set (share row). 0 \<le> p" "sum_list (share row) = 1 - epsilon / (sum_list row + epsilon)"
    "sum_list (share row) \<le> 1"
proof -
  have pos: "0 < sum_list row + epsilon" using sum_list_nonneg [of row] assms by (simp add: add_nonneg_pos)
  show "\<forall>p\<in>set (share row). 0 \<le> p" using assms pos by (auto simp: share_def)
  have "sum_list (share row) = sum_list row / (sum_list row + epsilon)"
    using sum_list_mult_const [of "\<lambda>p. p" "1 / (sum_list row + epsilon)" row] by (simp add: share_def)
  also have "\<dots> = 1 - epsilon / (sum_list row + epsilon)"
    using pos by (simp add: field_simps)
  finally show s: "sum_list (share row) = 1 - epsilon / (sum_list row + epsilon)" .
  show "sum_list (share row) \<le> 1" unfolding s using divide_nonneg_pos [OF order_less_imp_le [OF epsilon_pos] pos] by simp
qed

lemma transition_row_result:
  assumes "transition_row w finds s = (P, s')"
  shows "\<exists>row c. P = share row \<and> length row = length finds \<and> (\<forall>p\<in>set row. 0 \<le> p) \<and> s' = s\<lparr>libc_draws := c\<rparr> \<and>
    (sum_list (map unat finds) \<noteq> 0 \<longrightarrow> row = map (\<lambda>n. of_nat (unat n)) finds)"
proof -
  let ?row = "map (\<lambda>n. of_nat (unat n)) finds :: rat list"
  have total: "sum_list ?row = of_nat (sum_list (map unat finds))" by (induction finds) simp_all
  show ?thesis
  proof (cases "sum_list ?row < epsilon")
    case True
    have "sum_list (map unat finds) = 0"
    proof (rule ccontr)
      assume "sum_list (map unat finds) \<noteq> 0"
      then have "1 \<le> sum_list (map unat finds)" by linarith
      then have "(1 :: rat) \<le> of_nat (sum_list (map unat finds))" by (metis of_nat_1 of_nat_le_iff)
      then show False using True total by (simp add: epsilon_def)
    qed
    moreover obtain row where r: "random_row w (length finds) s = (row, s')" and "P = share row"
      using assms True by (auto simp: transition_row_def share_def Let_def split: prod.splits)
    ultimately show ?thesis using random_row_result [OF r] by auto
  next
    case False
    then have "P = share ?row" "s' = s" using assms by (simp_all add: transition_row_def share_def Let_def)
    moreover have "\<forall>p\<in>set ?row. 0 \<le> p" by (auto simp del: of_nat_unat)
    ultimately show ?thesis by (intro exI [of _ ?row] exI [of _ "libc_draws s"]) simp
  qed
qed

lemma transition_rows_result:
  assumes "transition_rows w finds s = (P, s')"
  shows "length P = length finds \<and> (\<exists>c. s' = s\<lparr>libc_draws := c\<rparr>) \<and>
    (\<forall>i<length finds. \<exists>row. P ! i = share row \<and> length row = length (finds ! i) \<and> (\<forall>p\<in>set row. 0 \<le> p) \<and>
      (sum_list (map unat (finds ! i)) \<noteq> 0 \<longrightarrow> row = map (\<lambda>n. of_nat (unat n)) (finds ! i)))"
  using assms
proof (induction finds arbitrary: P s s')
  case Nil
  then show ?case by (auto intro: exI [of _ "libc_draws s"])
next
  case (Cons row rest)
  obtain p s1 where r: "transition_row w row s = (p, s1)" by (cases "transition_row w row s")
  obtain ps where rs: "transition_rows w rest s1 = (ps, s')" "P = p # ps"
    using Cons.prems by (auto simp: r split: prod.splits)
  note others = Cons.IH [OF rs(1)]
  obtain p' c where first: "p = share p'" "length p' = length row" "\<forall>q\<in>set p'. 0 \<le> q" "s1 = s\<lparr>libc_draws := c\<rparr>"
      "sum_list (map unat row) \<noteq> 0 \<longrightarrow> p' = map (\<lambda>n. of_nat (unat n)) row"
    using transition_row_result [OF r] by blast
  have "\<exists>c. s' = s\<lparr>libc_draws := c\<rparr>" using first(4) others by auto
  moreover have "\<exists>r'. P ! i = share r' \<and> length r' = length ((row # rest) ! i) \<and> (\<forall>p\<in>set r'. 0 \<le> p) \<and>
      (sum_list (map unat ((row # rest) ! i)) \<noteq> 0 \<longrightarrow> r' = map (\<lambda>n. of_nat (unat n)) ((row # rest) ! i))"
    if "i < length (row # rest)" for i
  proof (cases i)
    case 0
    show ?thesis unfolding 0 rs(2) nth_Cons_0 using first by blast
  next
    case (Suc j)
    then have "j < length rest" using that by simp
    then show ?thesis unfolding rs(2) Suc nth_Cons_Suc using others by blast
  qed
  ultimately show ?case using rs(2) others by simp
qed

section \<open>What the tables draw\<close>

lemma drawn_total:
  assumes "length (t_alias t) = length (t_prob t)" and "\<forall>i<length (t_prob t). t_alias t ! i < length (t_prob t)"
  shows "(\<Sum>k<length (t_prob t). drawn t k) = of_nat (length (t_prob t))"
proof -
  let ?n = "length (t_prob t)"
  have "(\<Sum>k<?n. \<Sum>i<?n. if t_alias t ! i = k then 1 - t_prob t ! i else 0) = (\<Sum>i<?n. 1 - t_prob t ! i)"
  proof (subst sum.swap, rule sum.cong [OF refl])
    fix i assume "i \<in> {..<?n}"
    then show "(\<Sum>k<?n. if t_alias t ! i = k then 1 - t_prob t ! i else 0) = 1 - t_prob t ! i"
      using assms(2) by (simp add: sum.delta)
  qed
  then have "(\<Sum>k<?n. drawn t k) = (\<Sum>k<?n. t_prob t ! k) + (\<Sum>i<?n. 1 - t_prob t ! i)"
    by (simp add: drawn_def sum.distrib)
  also have "\<dots> = of_nat ?n" by (simp add: sum_subtractf)
  finally show ?thesis .
qed

text \<open>What a distribution lacks bounds how much more than its due any value gets.\<close>

lemma table_for_excess:
  assumes t: "table_for P t" and k: "k < length P"
  shows "drawn t k - P ! k \<le> of_nat (length P) - sum_list P"
proof -
  have len: "length (t_prob t) = length P" "length (t_alias t) = length P"
    and less: "\<And>i. i < length P \<Longrightarrow> P ! i \<le> drawn t i"
    and al: "\<forall>i<length (t_prob t). t_alias t ! i < length (t_prob t)"
    using t by (simp_all add: table_for_def)
  have "drawn t k - P ! k \<le> (\<Sum>i<length P. drawn t i - P ! i)"
    by (rule member_le_sum [where f = "\<lambda>i. drawn t i - P ! i"]) (use k less in auto)
  also have "\<dots> = of_nat (length P) - sum_list P"
    using drawn_total [OF _ al] len by (simp add: sum_subtractf sum_list_sum_nth atLeast0LessThan)
  finally show ?thesis .
qed

lemma sum_list_scaled: "sum_list (map (\<lambda>p. p * c) (P :: rat list)) = sum_list P * c"
  using sum_list_mult_const [of "\<lambda>p. p" c P] by simp

lemma update_row_share:
  assumes "\<forall>p\<in>set row. 0 \<le> p" and k: "k < length row" and ne: "row \<noteq> []"
  defines "d \<equiv> drawn (update_row (share row)) k / of_nat (length row)"
  shows "share row ! k \<le> d \<and> d \<le> share row ! k + epsilon / (sum_list row + epsilon)"
proof -
  let ?n = "of_nat (length row) :: rat"
  let ?P = "map (\<lambda>p. p * of_nat (length (share row))) (share row)"
  note dist = share_distribution [OF assms(1)]
  have len: "length (share row) = length row" by (simp add: share_def)
  have n: "0 < ?n" using ne by simp
  have t: "table_for ?P (update_row (share row))" by (rule table_for_update_row [OF dist(1,3)])
  have Pk: "?P ! k = share row ! k * ?n" using k len by simp
  have low: "?P ! k \<le> drawn (update_row (share row)) k" using t k len by (simp add: table_for_def)
  have "drawn (update_row (share row)) k - ?P ! k \<le> of_nat (length ?P) - sum_list ?P"
    by (rule table_for_excess [OF t]) (use k len in simp)
  also have "\<dots> = ?n * (1 - sum_list (share row))" by (simp add: sum_list_scaled len algebra_simps)
  also have "\<dots> = ?n * (epsilon / (sum_list row + epsilon))" by (simp add: dist(2))
  finally have "drawn (update_row (share row)) k \<le> (share row ! k + epsilon / (sum_list row + epsilon)) * ?n"
    unfolding Pk by (simp add: algebra_simps)
  with low Pk n show ?thesis by (simp add: d_def le_divide_eq divide_le_eq)
qed

section \<open>The tables are well-formed\<close>

lemma finish_training_tables:
  assumes "matrix_ok (finds_per_mutator s)"
  shows "matrix_ok (prob_table_mut (finish_training w s)) \<and> matrix_ok (alias_table_mut (finish_training w s)) \<and>
    (\<forall>row\<in>set (alias_table_mut (finish_training w s)). \<forall>a\<in>set row. unat a < 32)"
proof -
  obtain P s1 where P: "transition_rows w (finds_per_mutator s) s = (P, s1)"
    by (cases "transition_rows w (finds_per_mutator s) s")
  have len: "length P = 32" using transition_rows_result [OF P] assms by (simp add: matrix_ok_def)
  have row: "length (t_prob (update_row p)) = 32 \<and> length (t_alias (update_row p)) = 32 \<and>
      (\<forall>a\<in>set (t_alias (update_row p)). a < 32)" if p: "p \<in> set P" for p
  proof -
    obtain i where i: "i < length P" "P ! i = p" using p by (auto simp: in_set_conv_nth)
    have l32: "length (finds_per_mutator s ! i) = 32" using assms i len by (simp add: matrix_ok_def)
    obtain r where r: "p = share r" "length r = 32" "\<forall>x\<in>set r. 0 \<le> x"
      using transition_rows_result [OF P] i l32 by force
    have "table_for (map (\<lambda>x. x * of_nat (length p)) p) (update_row p)"
      unfolding r(1) by (rule table_for_update_row [OF share_distribution(1,3) [OF r(3)]])
    moreover have "length p = 32" using r by (simp add: share_def)
    ultimately show ?thesis by (auto simp: table_for_def in_set_conv_nth)
  qed
  have un: "unat (of_nat a :: u32) = a" if "a < 32" for a
    by (rule unat_of_nat_small) (use that in simp)
  show ?thesis
    using row len by (auto simp: finish_training_def P update_distribution_def matrix_ok_def un)
qed

lemma finish_training_same:
  "bandit_ok (finish_training w s) = (2 \<le> havoc_stack_pow2 s \<and> havoc_stack_pow2 s < 32 \<and>
     length (finds_per_stack s) = 2 ^ havoc_stack_pow2 s \<and> 2 \<le> stack_with_most_finds s \<and>
     unat (stack_with_most_finds s) < 2 ^ havoc_stack_pow2 s \<and> matrix_ok (finds_per_mutator s) \<and>
     matrix_ok (prob_table_mut (finish_training w s)) \<and> matrix_ok (alias_table_mut (finish_training w s)) \<and>
     (\<forall>row\<in>set (alias_table_mut (finish_training w s)). \<forall>a\<in>set row. unat a < 32))"
proof -
  obtain P s1 where P: "transition_rows w (finds_per_mutator s) s = (P, s1)"
    by (cases "transition_rows w (finds_per_mutator s) s")
  obtain c where "s1 = s\<lparr>libc_draws := c\<rparr>" using transition_rows_result [OF P] by blast
  then show ?thesis by (simp add: finish_training_def P update_distribution_def bandit_ok_def)
qed

lemma bandit_ok_finish: "bandit_ok s \<Longrightarrow> bandit_ok (finish_training w s)"
  unfolding finish_training_same using finish_training_tables [of s w] by (simp add: bandit_ok_def)

lemma bandit_ok_end_training: "bandit_ok s \<Longrightarrow> bandit_ok (end_training w s)"
  using bandit_ok_finish [of "s\<lparr>ticks := Suc (ticks s)\<rparr>"]
  by (simp add: end_training_def get_cur_time_def) (simp add: bandit_ok_def)

lemma bandit_ok_decay: "bandit_ok (decay_epsilon w s) = bandit_ok s"
  by (simp add: decay_epsilon_def get_cur_time_def bandit_ok_def)

lemma bandit_ok_start:
  assumes "2 \<le> havoc_stack_pow2 s" and "havoc_stack_pow2 s < 32"
  shows "bandit_ok (start_training w (init_learning s))"
proof -
  have n: "unat (num_of_available_stacks s) = 2 ^ havoc_stack_pow2 s"
  proof -
    have "num_of_available_stacks s = of_nat (2 ^ havoc_stack_pow2 s)"
      by (simp add: num_of_available_stacks_def push_bit_eq_mult)
    moreover have "(2 :: nat) ^ havoc_stack_pow2 s < 2 ^ 32"
      by (rule power_strict_increasing) (use assms in simp_all)
    ultimately show ?thesis using unat_of_nat_small [of "2 ^ havoc_stack_pow2 s", where 'a = 32] by simp
  qed
  have "(2 :: nat) ^ 2 \<le> 2 ^ havoc_stack_pow2 s" by (rule power_increasing) (use assms in simp_all)
  then show ?thesis using assms n
    by (simp add: start_training_def init_learning_def get_cur_time_def bandit_ok_def matrix_ok_def mut_max_def)
qed

lemma finish_training_drawn:
  assumes "matrix_ok (finds_per_mutator s)" and "i < mut_max" and "k < mut_max"
    and some: "sum_list (map unat (finds_per_mutator s ! i)) \<noteq> 0"
  shows "of_nat (unat (finds_per_mutator s ! i ! k)) / (of_nat (sum_list (map unat (finds_per_mutator s ! i))) + epsilon) \<le>
      drawn \<lparr>t_prob = prob_table_mut (finish_training w s) ! i,
        t_alias = map unat (alias_table_mut (finish_training w s) ! i)\<rparr> k / of_nat mut_max \<and>
    drawn \<lparr>t_prob = prob_table_mut (finish_training w s) ! i,
        t_alias = map unat (alias_table_mut (finish_training w s) ! i)\<rparr> k / of_nat mut_max \<le>
      (of_nat (unat (finds_per_mutator s ! i ! k)) + epsilon) / (of_nat (sum_list (map unat (finds_per_mutator s ! i))) + epsilon)"
proof -
  obtain P s1 where P: "transition_rows w (finds_per_mutator s) s = (P, s1)"
    by (cases "transition_rows w (finds_per_mutator s) s")
  have i: "i < length (finds_per_mutator s)" "length (finds_per_mutator s ! i) = 32"
    using assms(1,2) by (simp_all add: matrix_ok_def mut_max_def)
  define row where "row = map (\<lambda>n. of_nat (unat n) :: rat) (finds_per_mutator s ! i)"
  have Pi: "P ! i = share row" "length P = length (finds_per_mutator s)" and nn: "\<forall>p\<in>set row. 0 \<le> p"
    using transition_rows_result [OF P] i(1) some by (auto simp: row_def)
  have total: "sum_list row = of_nat (sum_list (map unat (finds_per_mutator s ! i)))"
  proof -
    have "sum_list (map (\<lambda>n. of_nat (unat n) :: rat) xs) = of_nat (sum_list (map unat xs))" for xs :: "u32 list"
      by (induction xs) simp_all
    then show ?thesis by (simp only: row_def)
  qed
  have len: "length row = 32" using i by (simp add: row_def)
  have ok: "table_for (map (\<lambda>p. p * of_nat (length (share row))) (share row)) (update_row (share row))"
    by (rule table_for_update_row [OF share_distribution(1,3) [OF nn]])
  have al: "map unat (map (of_nat :: nat \<Rightarrow> u32) (t_alias (update_row (share row)))) = t_alias (update_row (share row))"
  proof -
    have "unat (of_nat a :: u32) = a" if "a \<in> set (t_alias (update_row (share row)))" for a
    proof (rule unat_of_nat_small)
      have "a < 32" using that ok len by (auto simp: table_for_def share_def in_set_conv_nth)
      then show "a < 2 ^ LENGTH(32)" by simp
    qed
    then show ?thesis by (simp add: map_idI)
  qed
  have t: "\<lparr>t_prob = prob_table_mut (finish_training w s) ! i,
        t_alias = map unat (alias_table_mut (finish_training w s) ! i)\<rparr> = update_row (share row)"
    using al Pi i(1) by (simp add: finish_training_def P update_distribution_def)
  have "share row ! k = of_nat (unat (finds_per_mutator s ! i ! k)) / (sum_list row + epsilon)"
    using assms(3) i(2) by (simp add: share_def row_def mut_max_def)
  moreover have "row \<noteq> []" using len by auto
  moreover note update_row_share [OF nn, of k]
  ultimately show ?thesis
    unfolding t total [symmetric] using assms(3) len
    by (simp add: mut_max_def add_divide_distrib del: of_nat_unat)
qed

end
