(* ===== verification/Samples.thy ===== *)
theory Samples
  imports State
begin

text \<open>
  One concrete state and one concrete world, in which the hypotheses of the properties are
  shown to hold: a map of 64 bytes with one byte hit, a queue with one entry of two bytes,
  no dictionaries, a fixed seed, and a target that always ends normally with the same trace.
\<close>

definition sample_entry :: queue_entry where
  "sample_entry = \<lparr>
    q_file = [65, 66], q_len = 2, q_id = 0, cal_failed = 0, trim_done = False, was_fuzzed = False,
    passed_det = False, has_new_cov = False, var_behavior = False, favored = False,
    fs_redundant = False, disabled = False, bitmap_size = 0, fuzz_level = 0, n_fuzz_entry = 0,
    exec_us = 0, handicap = 0, depth = 0, exec_cksum = 0, trace_mini = None, tc_ref = 0,
    testcase_buf = None, mother = None, perf_score = 100, weight = 1, continue_inf = False,
    done_eff = False, undet_bits = 0, quick_eff_bytes = 0, skip_eff_map = None, done_inf_map = None\<rparr>"

definition sample_state :: afl where
  "sample_state = \<lparr>
    trace_bits = 1 # replicate 63 0, map_size = 64, real_map_size = 64,
    virgin_bits = replicate 64 255, virgin_tmout = replicate 64 255,
    virgin_crash = replicate 64 255, bitmap_changed = False, rand_seed = (1, 2, 3),
    rand_cnt = 1000000, fixed_seed = True, urandom_reads = 0, exec_tmout = 1000, hang_tmout = 1000,
    total_execs = 0, stop_soon = False, skip_requested = False, testcase = [], delivered = [],
    ticks = 0, queue_buf = [sample_entry], queue_cur = 0, queue_top = 0, queued_items = 1,
    active_items = 1, pending_not_fuzzed = 1, pending_favored = 0, queued_favored = 0,
    queued_with_cov = 0, queued_variable = 0, queued_discovered = 0, ready_for_splicing_count = 0,
    cur_depth = 0, max_depth = 1, queue_cycle = 1, cycles_wo_finds = 0, start_time = 0,
    last_find_time = 0, longest_find_time = 0, smallest_favored = -1, score_changed = False,
    reinit_table = False, top_rated = replicate 64 None, schedule = EXPLORE, n_fuzz = [],
    non_instrumented_mode = False, afl_disable_redundant = False, q_testcase_max_cache_size = 0,
    q_testcase_cache_size = 0, q_testcase_max_cache_entries = 0, q_testcase_max_cache_count = 0,
    q_testcase_cache_count = 0, q_testcase_smallest_free = 0, q_testcase_evictions = 0,
    q_testcase_cache = [], cache_do_once = False, extras = [], a_extras = [], max_det_extras = 200,
    auto_changed = False, stage_name = '''', stage_short = '''', stage_cur = 0, stage_max = 0,
    stage_cur_byte = 0, stage_cur_val = 0, stage_val_type = STAGE_VAL_NONE,
    stage_finds = (\<lambda>_. 0), stage_cycles = (\<lambda>_. 0), blocks_eff_total = 0,
    blocks_eff_select = 0, no_arith = False, saved_crashes = 0, cur_skipped_items = 0,
    subseq_tmouts = 0, crash_mode = FSRV_RUN_OK, min_length = 1, max_length = 1048576,
    first_trace = replicate 64 0, var_bytes = replicate 64 0, var_byte_count = 0, cal_fast = False,
    resuming_fuzz = False, calibration_time_us = 0, total_cal_us = 0, total_cal_cycles = 0,
    total_bitmap_size = 0, total_bitmap_entries = 0, total_crashes = 0, total_tmouts = 0,
    saved_hangs = 0, saved_tmouts = 0, last_hang_time = 0, last_crash_time = 0,
    last_crash_execs = 0, fuzz_mode = False, switch_fuzz_mode = 0, run_over10m = False,
    ignore_timeouts = False, keep_timeouts = False, queue_files = [], crash_files = [],
    hang_files = [], current_entry = 0, use_splicing = False, splicing_with = -1, input_mode = 0,
    havoc_div = 1, havoc_max_mult = 64, havoc_stack_pow2 = 4, in_training = True,
    stack_epsilon = 1 / 10, stack_with_most_finds = 2, finds_per_stack = replicate 16 0,
    finds_per_mutator = replicate 32 (replicate 32 1), prob_table_mut = [], alias_table_mut = [],
    mut_probabilities = [], using_egreedy_for_nstack = False, libc_draws = 0, skip_deterministic = False, disable_trim = False, old_seed_selection = False,
    main_node_id = 0, main_node_max = 0, clean_trace = replicate 64 0, bytes_trim_in = 0,
    bytes_trim_out = 0, trim_execs = 0, trim_time_us = 0, alias_table = [], alias_probability = [],
    limit_time_sig = 0, undet_bits_threshold = 0, last_cov_undet = 0, virgin_det_bits = None,
    inf_skipped_bytes = 0, inf_execs_cost = 0, inf_time_cost = 0,
    cycle_schedules = False, expand_havoc = 0, not_on_tty = True\<rparr>"

definition sample_world :: world where
  "sample_world = \<lparr>target = (\<lambda>_ _ _. \<lparr>out_trace = [1], out_fault = FSRV_RUN_OK, out_stop = False, out_skip = False\<rparr>),
     XXH3_64bits = (\<lambda>b. if b = [] then 0 else 1 + ucast (b ! 0)), clock_ms = of_nat, clock_us = of_nat,
     urandom = (\<lambda>_. (0, 0, 0)), libc_rand = (\<lambda>k. k), uninit = (\<lambda>_. 0), libm_log2 = (\<lambda>_. 0),
     libm_log10 = (\<lambda>_. 0), libm_log = (\<lambda>_. 1), env_set = (\<lambda>_. False)\<rparr>"

end
