(* ===== verification/Spec2Isabelle.thy ===== *)
theory Spec2Isabelle
  imports FuzzOne Training Samples
begin

text \<open>
  A model of the fuzzing engine in \<^verbatim>\<open>src/fuzzbench/fuzzers/muofuzz/afl\<close> (MuoFuzz, a
  descendant of AFL++, and the engine TrioFuzz schedules), with the theorems that make it
  correct. File names below are relative to that directory.

  \<^bold>\<open>The program.\<close> The fuzzer keeps a queue of inputs of a target program. In each round it takes
  an entry (\<^verbatim>\<open>fuzz_one_original\<close>), changes the input in many small ways and gives
  every result to the target (\<^verbatim>\<open>common_fuzz_stuff\<close>). The target fills a map of hit
  counts per branch; an input whose map shows something new becomes a queue entry
  (\<^verbatim>\<open>save_if_interesting\<close>), is calibrated (\<^verbatim>\<open>calibrate_case\<close>) and competes for the bytes of
  the map (\<^verbatim>\<open>update_bitmap_score\<close>), from which \<^verbatim>\<open>cull_queue\<close> picks the favored entries. There
  are two ways of changing an input: the deterministic stages, which walk over it, and the
  havoc stage, which stacks mutations drawn at random. MuoFuzz adds that the havoc stage
  counts which pairs of mutators found something, and after a training phase draws the next
  mutator from a distribution conditioned on the previous one.

  \<^bold>\<open>Theories.\<close> In the order of their imports:

  \<^item> \<^verbatim>\<open>Prelude\<close>: the integer types of \<^verbatim>\<open>include/types.h\<close> as \<^verbatim>\<open>w word\<close>, byte buffers as
    lists of bytes with little-endian loads and stores at every width, byte swaps; the lemma
    collections shared by the other theories.
  \<^item> \<^verbatim>\<open>Rng\<close>: the generator of \<^verbatim>\<open>src/afl-performance.c\<close>, \<^verbatim>\<open>rand_below\<close> with its rejection loop,
    \<^verbatim>\<open>choose_block_len\<close>, \<^verbatim>\<open>next_pow2\<close>. The records are extensible: the generator's state is a
    record every later state extends, as the coverage state and the queue do.
  \<^item> \<^verbatim>\<open>Bitmap\<close>: the maps of \<^verbatim>\<open>src/afl-fuzz-bitmap.c\<close> and \<^verbatim>\<open>include/coverage-64.h\<close>, word by word
    as the code walks them, and the byte-wise specifications they implement.
  \<^item> \<^verbatim>\<open>State\<close>: \<^verbatim>\<open>struct queue_entry\<close>, \<^verbatim>\<open>extra_data\<close>, \<^verbatim>\<open>afl_state_t\<close> as far as it is used, and
    the \<^verbatim>\<open>world\<close>, the record of everything outside \<^verbatim>\<open>src/\<close> the code calls: the target (a function
    of everything it was given before, the input and the time limit, giving the status, the trace
    and the signals that arrived), the clock, the source of seeds, the hash XXH3. The state records all inputs given to the target, in order, in
    \<^verbatim>\<open>delivered\<close>; the theorems about what the stages try are about this sequence.
  \<^item> \<^verbatim>\<open>Extras\<close>: the dictionaries (\<^verbatim>\<open>src/afl-fuzz-extras.c\<close>). \<^verbatim>\<open>Queue\<close>: entries, marks, the contest
    for map bytes and the choice of favored entries (\<^verbatim>\<open>src/afl-fuzz-queue.c\<close>). \<^verbatim>\<open>Cache\<close>: the cache
    of inputs in memory; an entry's file is its contents.
  \<^item> \<^verbatim>\<open>Run\<close>: \<^verbatim>\<open>fuzz_run_target\<close>, \<^verbatim>\<open>calibrate_case\<close>, \<^verbatim>\<open>save_if_interesting\<close>, \<^verbatim>\<open>common_fuzz_stuff\<close>.
  \<^item> \<^verbatim>\<open>Filters\<close>: the functions that tell whether a candidate was tried before.
  \<^item> \<^verbatim>\<open>Flow\<close>: commands. Statements of \<^verbatim>\<open>fuzz_one_original\<close> are state transformers with an outcome:
    go on, leave for the label of a \<^verbatim>\<open>goto\<close>, \<^verbatim>\<open>Fatal\<close>, \<^verbatim>\<open>Invalid_access\<close>, or no outcome (a loop that
    does not end; loops are \<^verbatim>\<open>partial_function (option)\<close>). It has a weakest precondition calculus.
    Its flag says whether not ending is allowed: statements with \<^verbatim>\<open>wp False\<close> include termination.
  \<^item> \<^verbatim>\<open>DetStages\<close>: the deterministic stages, all 14 of them, one definition per loop body.
  \<^item> \<^verbatim>\<open>Alias\<close>: alias tables, over rationals. \<^verbatim>\<open>Mutators\<close>: the cases of the switch over mutators,
    each access to a buffer checked. \<^verbatim>\<open>Havoc\<close>: the havoc stage and splicing around them.
    \<^verbatim>\<open>Training\<close>: from counted pairs to the distributions (\<^verbatim>\<open>src/afl-fuzz.c\<close>).
  \<^item> \<^verbatim>\<open>Campaign\<close>: what running an input keeps of the queue, and the interpretations.
  \<^item> \<^verbatim>\<open>Trim\<close>: \<^verbatim>\<open>trim_case\<close>, which shortens an entry's input as long as its trace stays (\<^verbatim>\<open>src/afl-fuzz-run.c\<close>).
    \<^verbatim>\<open>Score\<close>: scores, weights, and the table the queue is drawn from (\<^verbatim>\<open>src/afl-fuzz-queue.c\<close>).
    \<^verbatim>\<open>SkipDet\<close>: which entries and which of their bytes the deterministic stages are run on
    (\<^verbatim>\<open>src/afl-fuzz-skipdet.c\<close>). \<^verbatim>\<open>FuzzOne\<close>: all of this put together the way \<^verbatim>\<open>fuzz_one_original\<close> does, with
    its decisions to skip, calibrate again, trim, abandon and count off the entry.
  \<^item> \<^verbatim>\<open>Samples\<close>: the concrete state and world of the witnesses. This theory: the properties.

  \<^bold>\<open>Interfaces.\<close> The stages know \<^verbatim>\<open>common_fuzz_stuff\<close> only through the locale \<^verbatim>\<open>fuzz_runner\<close> (the
  input is delivered unchanged, counters and dictionaries stay, the queue stays sound, and with
  the flag off it returns); the locale \<^verbatim>\<open>havoc_runner\<close> extends it. \<^verbatim>\<open>Campaign\<close> interprets both on
  the model's own \<^verbatim>\<open>common_fuzz_stuff\<close>, once for each value of the flag. So everything proved of
  stages is proved of the composition with running, saving, calibrating and the contest.

  \<^bold>\<open>What the lemmas show.\<close> Stages: they end, they restore the input, they deliver all the
  candidates they mean to, and with \<^verbatim>\<open>no_arith\<close> off the filters of the byte stages lose nothing.
  Havoc and splicing: no access is outside its buffer or table, inputs stay between 1 and \<^verbatim>\<open>MAX_FILE\<close> bytes, the number of rounds is
  bounded, only permitted mutators run, what is learnt is what was found, and what is
  drawn later has the probabilities learnt. A turn: from a sound state (\<^verbatim>\<open>fit\<close>, \<^verbatim>\<open>settled\<close>) any turn of
  \<^verbatim>\<open>fuzz_one\<close> leads to a sound state. Queue: the invariant of the contest
  (reference counts for any call; that the maps cover what is held for calls with a trace the
  entry's map covers), who wins, that the favored entries cover the map. Maps: the fast
  word-wise routines equal their byte-wise specifications. Random numbers: range and fairness.

  \<^bold>\<open>Loops.\<close> There is no fuel. Loops that count are recursion over lists of positions; all others
  are \<^verbatim>\<open>partial_function (option)\<close>, where the value \<^verbatim>\<open>None\<close> stands for not returning. That a function
  returns is stated and proved as such. Two kinds of loops need a proviso: those that draw until
  two random positions differ (the generator could repeat itself), for which safety
  is shown with the flag on, and saving with \<^verbatim>\<open>AFL_KEEP_TIMEOUTS\<close>, where \<^verbatim>\<open>save_if_interesting_stuck\<close>
  shows an input on which the code does not return.

  \<^bold>\<open>Not modelled.\<close> The fork server, shared memory and signals (the target is part of the world);
  the command line, directories, file names and statistics files; custom mutators and Python,
  which are plug-ins (the flags that skip them are off); CmpLog and RedQueen, which need the
  comparison log the target's runtime fills; the Nyx, FRIDA and QEMU modes, and the instrumentation
  passes in C++. Floating point numbers are rationals, so rounding is not modelled.
  Accesses to memory are checked in the mutators, the havoc stage and splicing (an access outside
  is the outcome \<^verbatim>\<open>Invalid_access\<close>); elsewhere buffers are plain lists and no theorem speaks of
  accesses. One access outside is known there: inserting tokens reads the byte behind the input,
  which \<^verbatim>\<open>head_byte\<close> takes from the world's uninitialised memory.
\<close>

section \<open>Sample inputs\<close>

lemmas sample_defs = sample_state_def sample_entry_def sample_world_def

lemma sample_map_ok: "map_ok sample_state"
  by (simp add: map_ok_def sample_state_def)

lemma sample_rated_ok: "rated_ok sample_state"
  by (simp add: rated_def held_ok_def bytes_held_def entry_def sample_defs)

lemma sample_counted_ok: "counted_ok sample_state"
  by (simp add: rated_def held_ok_def bytes_held_def entry_def sample_defs)

definition sample_locals :: fuzz_locals where
  "sample_locals = \<lparr>in_buf = [65, 66], out_buf = [65, 66], l_len = 2, eff_map = [1, 1],
     before_det_time = 0, orig_hit_cnt = 0, new_hit_cnt = 0, prev_cksum = 0, first_cksum = 0,
     a_collect = replicate 32 0, a_len = 0, ex_tmp = [], last_len = 0,
     orig_in = [65, 66], doing_det = False, l_perf_score = 100, orig_perf = 100, splice_cycle = 0, havoc_queued = 0,
     use_stacking = 0, selected_mutators = [], ret_val = True\<rparr>"

lemma sample_stage_inv: "stage_inv [65, 66] [1, 1] False {} (sample_state, sample_locals)"
  by (simp add: stage_inv_def sample_locals_def sample_defs length_ok_def dicts_ok_def dict_ok_def
      by_length_def tokens_ok_def MAX_AUTO_EXTRA_def MAX_FILE_def fuzzing_def sound_def queue_inv_def entries_ok_def HAVOC_MAX_MULT_def
      entry_ok_def sizes_ok_def entry_def)

section \<open>The deterministic stages\<close>



text \<open>
  C28: With the arithmetic stages on (\<open>no_arith\<close> off; the flag of \<open>stage_inv\<close> is
  \<open>False\<close>), with \<^verbatim>\<open>AFL_KEEP_TIMEOUTS\<close> off, the input within the limits on lengths and queue and
  dictionaries sound at the start (the rest of \<open>stage_inv\<close>), the filters of the byte-level stages lose nothing: when the deterministic stages have
  run to their end, then for every byte with effect the target was given the input with this byte
  set to each interesting value and to each value within 35 of the original, whichever of the
  stages it was that tried it. With \<open>no_arith\<close> on this is not so, see the findings.
\<close>

theorem byte_level_complete:
  assumes "stage_inv b em False D (s, l)" and "0 < length b" and "length b \<le> MAX_FILE"
  shows "wp True (det_stages w (common_fuzz_stuff w))
    (\<lambda>f (s', l'). f = Next \<longrightarrow> (\<forall>i < length b. em ! i \<noteq> 0 \<longrightarrow>
       (\<forall>v. v \<in> set interesting_8 \<or> b ! i - v \<le> 35 \<or> v - b ! i \<le> 35 \<longrightarrow>
         b[i := v] \<in> set (delivered s')))) (s, l)"
proof (rule wp_mono [OF runner_rng.wp_det_stages [OF TrueI assms]])
  fix f and st :: fstate
  assume post: "stage_post b em False D (det_delivered b em False) f st"
  obtain s' l' where st: "st = (s', l')" by (cases st)
  have "det_delivered b em False \<subseteq> set (delivered s')" if "f = Next"
    using post that by (auto simp: st andthen_def stage_inv_def)
  then show "case st of (s', l') \<Rightarrow> f = Next \<longrightarrow> (\<forall>i < length b. em ! i \<noteq> 0 \<longrightarrow>
      (\<forall>v. v \<in> set interesting_8 \<or> b ! i - v \<le> 35 \<or> v - b ! i \<le> 35 \<longrightarrow>
        b[i := v] \<in> set (delivered s')))"
    using byte_values_delivered [where em = em] by (auto simp only: st prod.case)
qed

lemma byte_level_complete_witness:
  "wp True (det_stages sample_world (common_fuzz_stuff sample_world))
    (\<lambda>f (s', l'). f = Next \<longrightarrow> [65, 127] \<in> set (delivered s')) (sample_state, sample_locals)"
proof (rule wp_mono [OF byte_level_complete [OF sample_stage_inv]])
  fix f and st :: fstate
  assume post: "case st of (s', l') \<Rightarrow> f = Next \<longrightarrow> (\<forall>i < length [65, 66 :: u8]. [1, 1 :: u8] ! i \<noteq> 0 \<longrightarrow>
       (\<forall>v. v \<in> set interesting_8 \<or> [65, 66] ! i - v \<le> 35 \<or> v - [65, 66] ! i \<le> 35 \<longrightarrow>
         [65, 66][i := v] \<in> set (delivered s')))"
  have "(127 :: u8) \<in> set interesting_8" by (simp add: interesting_8_def)
  then show "case st of (s', l') \<Rightarrow> f = Next \<longrightarrow> [65, 127] \<in> set (delivered s')"
    using post by (auto dest: spec [where x = 1] split: prod.splits)
qed (simp_all add: MAX_FILE_def)

text \<open>
  C27: The byte arithmetic stage, which draws no random number, ends in total: it returns to
  the next stage with the input restored and all its candidates delivered, or leaves through
  an exit of \<open>fuzz_one\<close>.
\<close>

theorem arith8_total:
  assumes "stage_inv b em na D (s, l)"
  shows "\<exists>f s' l'. stage_arith8 w (common_fuzz_stuff w) (s, l) = Some (f, s', l') \<and>
    (f = Next \<longrightarrow> out_buf l' = b \<and> arith8_all b em \<subseteq> set (delivered s'))"
proof -
  have "wp False (stage_arith8 w (common_fuzz_stuff w))
      (andthen (stage_inv b em na (D \<union> arith8_all b em)) (exit_ok b em na D)) (s, l)"
    by (rule runner.wp_stage_arith8 [OF assms])
  from wp_total [OF this] show ?thesis by (force simp: andthen_def stage_inv_def)
qed

lemma arith8_total_witness:
  "\<exists>f s' l'. stage_arith8 sample_world (common_fuzz_stuff sample_world) (sample_state, sample_locals) =
      Some (f, s', l') \<and>
    (f = Next \<longrightarrow> out_buf l' = [65, 66] \<and> arith8_all [65, 66] [1, 1] \<subseteq> set (delivered s'))"
  by (rule arith8_total [OF sample_stage_inv])

text \<open>
  C32: The filter for bit flips is exact as a test on bit patterns: it accepts 0 and the runs of
  1, 2 or 4 set bits anywhere and of 8, 16 or 32 set bits at a byte boundary, and nothing else.
\<close>

theorem bitflip_filter_exact:
  "could_be_bitflip x \<longleftrightarrow> x = 0 \<or> (\<exists>sh k. flip_pattern x sh k)"
  by (rule could_be_bitflip_iff)

text \<open>
  C33: On one byte the filter for arithmetic accepts exactly the values within
  \<open>ARITH_MAX\<close> of the old one, counted modulo 256.
\<close>

theorem arith_filter_byte_exact:
  fixes a b :: u8
  shows "could_be_arith (ucast a) (ucast b) 1 \<longleftrightarrow> a = b \<or> a - b \<le> of_nat ARITH_MAX \<or> b - a \<le> of_nat ARITH_MAX"
  unfolding could_be_arith_byte by (simp add: ARITH_MAX_def)

section \<open>Havoc and splicing\<close>

lemma sample_settled: "settled ({}, 2) sample_state"
  by (simp add: HAVOC_MAX_MULT_def settled_def queue_ok_def sources_ok_def sizes_ok_def entries_ok_def entry_ok_def tokens_ok_def
      bandit_ok_def matrix_ok_def sample_defs MAX_FILE_def entry_def dicts_ok_def dict_ok_def by_length_def)

lemma sample_tail_inv: "tail_inv ({}, 2) (sample_state, sample_locals)"
  using sample_settled by (simp add: tail_inv_def ready_def spliceable_def mutable_def score_ok_def sample_locals_def
      sample_state_def MAX_FILE_def)

lemma sample_bandit_ok: "bandit_ok sample_state"
  using sample_settled by (simp add: settled_def)

lemma sample_sources_ok: "sources_ok sample_state"
  using sample_settled by (simp add: settled_def queue_ok_def)

text \<open>
  C5: From a sound state, with \<^verbatim>\<open>AFL_KEEP_TIMEOUTS\<close> off and the limits on the length of inputs at
  their defaults, the havoc stage and the splicing rounds after it, whose accesses to buffers, to
  the tables of mutators and to the stack's array are all checked in the model, never make an
  access that fails the check: they end normally, abandon the entry, or end the process. Every
  input they give the target has between 1 and \<open>MAX_FILE\<close> bytes, and the queue and what is learnt
  about the mutators are well-formed afterwards. The score the stage starts with is supposed to be within
  its limit (\<open>score_ok\<close>). (The only loops not shown to end are those that draw again, hence the
  first argument of \<open>wp\<close>.)
\<close>

theorem havoc_safe:
  assumes "tail_inv (D, n) (s, l)" and "score_ok s (start_score l)" and "splice_cycle l \<le> SPLICE_CYCLES"
  shows "wp True (havoc_and_splice w (common_fuzz_stuff w))
    (\<lambda>f (s', l'). f \<in> {Next, Abandon_entry, Fatal} \<and> queue_ok s' \<and> bandit_ok s' \<and>
       D \<subseteq> set (delivered s') \<and> (\<forall>b\<in>set (delivered s') - D. 0 < length b \<and> length b \<le> MAX_FILE)) (s, l)"
  by (rule havoc.wp_havoc_and_splice [OF assms]) (auto simp: left_early_def settled_def mutable_def)

lemma havoc_safe_witness:
  "wp True (havoc_and_splice sample_world (common_fuzz_stuff sample_world))
    (\<lambda>f (s', l'). f \<in> {Next, Abandon_entry, Fatal} \<and> queue_ok s' \<and> bandit_ok s' \<and>
       {} \<subseteq> set (delivered s') \<and> (\<forall>b\<in>set (delivered s') - {}. 0 < length b \<and> length b \<le> MAX_FILE))
    (sample_state, sample_locals)"
  by (rule havoc_safe [OF sample_tail_inv])
    (simp_all add: score_ok_def start_score_def sample_locals_def sample_state_def)

text \<open>
  C17: The rounds of one havoc stage are bounded although every find doubles them: started with
  a score above 0, when the stage ends its limit is at most 24 times 100 times \<open>havoc_max_mult\<close>.
\<close>

theorem havoc_rounds_bounded:
  assumes "tail_inv D (s, l)" and "score_ok s (start_score l)" and "0 < start_score l"
  shows "wp True (havoc_stage w (common_fuzz_stuff w))
    (\<lambda>f (s', l'). f = Next \<longrightarrow> unat (stage_max s') \<le> 24 * unat (havoc_max_mult s * 100)) (s, l)"
  by (rule havoc.wp_havoc_stage [OF assms(1,2)]) (auto simp: left_early_def assms(3))

lemma havoc_rounds_bounded_witness:
  "wp True (havoc_stage sample_world (common_fuzz_stuff sample_world))
    (\<lambda>f (s', l'). f = Next \<longrightarrow> unat (stage_max s') \<le> 24 * unat (havoc_max_mult sample_state * 100))
    (sample_state, sample_locals)"
  by (rule havoc_rounds_bounded [OF sample_tail_inv])
    (simp_all add: score_ok_def start_score_def sample_locals_def sample_state_def)

text \<open>
  C7: Every one of the 37 mutators, on an input of 1 to \<open>MAX_FILE\<close> bytes, stays within its
  buffers and has the effect its line of the table \<open>effect\<close> gives: the width of the window
  that may change, whether something must change, growing by one inserted block, losing one
  block, or permuting the bytes. The result has at least one byte, and at most \<open>MAX_FILE\<close>
  except for the two mutators \<open>unbounded\<close> names.
\<close>

theorem mutators_in_bounds:
  assumes "mutate w m b s = Some (r, s')" and "mutable b" and "sources_ok s"
  shows "r \<noteq> Overrun \<and> (\<forall>b'. r = Mutated b' \<longrightarrow>
    effect m b b' \<and> 0 < length b' \<and> (m \<notin> {MUT_INSERTONE, MUT_ASCIINUM} \<longrightarrow> length b' \<le> MAX_FILE))"
  using safe_mutate [OF assms(2) cache_frame_refl assms(3), of m w] assms(1)
  by (cases r) (auto simp: safe_def allowed_def unbounded_def)

lemma mutators_in_bounds_witness:
  "\<exists>r s'. mutate sample_world MUT_SWITCH [65, 66] sample_state = Some (r, s') \<and> r \<noteq> Overrun"
proof -
  have "mutate sample_world MUT_SWITCH [65, 66] sample_state = Some (Mutated [65, 66], sample_state)"
    by (simp add: mut_switch_def yields_def)
  from mutators_in_bounds [OF this] show ?thesis
    using \<open>mutate sample_world MUT_SWITCH [65, 66] sample_state = Some (Mutated [65, 66], sample_state)\<close>
    by (auto simp: mutable_def sample_sources_ok MAX_FILE_def)
qed

text \<open>
  C18: While training, for the first mutator of a stack and for the later ones, the number drawn
  stands for a mutator, and never for the five that shuffle, delete or insert one byte, or
  change numbers in the text: the five are left out, whatever array of mutators is in use.
\<close>

theorem left_out_mutators:
  assumes "pick_mutator w (mutation_array s) previous s = Some (choice, s')" and "bandit_ok s"
    and "\<And>p. previous = Some p \<Longrightarrow> p < mut_max"
  shows "\<exists>r. choice = Some r \<and> original r < length mutator_enum \<and> mutator_enum ! original r \<notin>
    {MUT_SHUFFLE, MUT_DELONE, MUT_INSERTONE, MUT_ASCIINUM, MUT_INSERTASCIINUM}"
  using pick_mutator_result [OF assms(1) array_ok_mutation_array assms(2) _ havoc_frame_refl] assms(3)
    original_live original_less by (force simp: mut_max_def)

lemma left_out_mutators_witness:
  "\<exists>choice s'. pick_mutator sample_world (mutation_array (finish_training sample_world sample_state)) (Some 3)
      (finish_training sample_world sample_state) = Some (choice, s') \<and>
     (\<exists>r. choice = Some r \<and> original r < length mutator_enum \<and> mutator_enum ! original r \<notin>
    {MUT_SHUFFLE, MUT_DELONE, MUT_INSERTONE, MUT_ASCIINUM, MUT_INSERTASCIINUM})"
proof -
  let ?s = "finish_training sample_world sample_state"
  have "\<not> in_training ?s" by (simp add: finish_training_def Let_def split: prod.splits)
  then obtain choice s' where run: "pick_mutator sample_world (mutation_array ?s) (Some 3) ?s = Some (choice, s')"
    by (metis (no_types, lifting) option.simps(5) pick_mutator_def surj_pair)
  show ?thesis using run left_out_mutators [OF run bandit_ok_finish [OF sample_bandit_ok]] by (auto simp: mut_max_def)
qed

text \<open>
  C20: What is learnt while training is exact: the count of a pair of mutators grows by the
  number of times the second follows the first in the stack that found something.
\<close>

theorem bigram_counts:
  assumes "matrix_ok t" and "\<forall>r\<in>set rs. r < mut_max"
  shows "\<exists>t'. note_bigrams rs t = Some t' \<and> matrix_ok t' \<and>
    (\<forall>p<mut_max. \<forall>r<mut_max. t' ! p ! r = t ! p ! r + of_nat (count_list (zip rs (tl rs)) (p, r)))"
  using note_bigrams_counts [of t rs] assms by (simp add: mut_max_def)

lemma bigram_counts_witness:
  "\<exists>t'. note_bigrams [3, 3, 3] (finds_per_mutator sample_state) = Some t' \<and> t' ! 3 ! 3 = 3"
  using bigram_counts [of "finds_per_mutator sample_state" "[3, 3, 3]"]
  by (auto simp: matrix_ok_def sample_state_def mut_max_def)

text \<open>
  C19: After every find outside training the preferred stack size is one with the most finds
  among all sizes that may be chosen.
\<close>

theorem best_stack_size:
  assumes "bandit_ok s" and "n < 2 ^ havoc_stack_pow2 s"
  shows "\<exists>s'. note_stack n s = Some s' \<and> bandit_ok s' \<and>
    finds_per_stack s' = (finds_per_stack s)[n := finds_per_stack s ! n + 1] \<and>
    (\<forall>i. 2 \<le> i \<and> i < 2 ^ havoc_stack_pow2 s \<longrightarrow>
      finds_per_stack s' ! i \<le> finds_per_stack s' ! unat (stack_with_most_finds s'))"
proof -
  obtain s' where s': "note_stack n s = Some s'" "bandit_ok s'"
      "s' = s\<lparr>finds_per_stack := (finds_per_stack s)[n := finds_per_stack s ! n + 1],
        stack_with_most_finds := stack_with_most_finds s'\<rparr>"
      "\<forall>i. 2 \<le> i \<and> i < 2 ^ havoc_stack_pow2 s \<longrightarrow>
        finds_per_stack s' ! i \<le> finds_per_stack s' ! unat (stack_with_most_finds s')"
    using note_stack_result [OF assms] by blast
  have "finds_per_stack s' = (finds_per_stack s)[n := finds_per_stack s ! n + 1]"
    by (subst s'(3)) simp
  then show ?thesis using s' by blast
qed

lemma best_stack_size_witness:
  "\<exists>s'. note_stack 5 sample_state = Some s' \<and> finds_per_stack s' ! 7 \<le> finds_per_stack s' ! unat (stack_with_most_finds s')"
  using best_stack_size [OF sample_bandit_ok, of 5] by (auto simp: sample_state_def)

section \<open>Training\<close>

text \<open>
  C9: The tables the havoc stage indexes are always of the right shape: from the start of the
  campaign, through what is learnt from a stack that found something, to the end of training
  and the change of epsilon.
\<close>

theorem learning_well_formed:
  assumes "2 \<le> havoc_stack_pow2 s" and "havoc_stack_pow2 s < 32"
  shows "bandit_ok (start_training w (init_learning s)) \<and>
    (\<forall>s. bandit_ok s \<longrightarrow> bandit_ok (decay_epsilon w s) \<and> bandit_ok (end_training w s) \<and>
       (\<forall>f s' l'. \<forall>l. (\<forall>r\<in>set (selected_mutators l). r < mut_max) \<and> unat (use_stacking l) < 2 ^ havoc_stack_pow2 s \<and>
          learn (s, l) = Some (f, s', l') \<longrightarrow> f = Next \<and> bandit_ok s'))"
proof -
  have "f = Next \<and> bandit_ok s'" if b: "bandit_ok s" and sel: "\<forall>r\<in>set (selected_mutators l). r < mut_max"
      and n: "unat (use_stacking l) < 2 ^ havoc_stack_pow2 s" and run: "learn (s, l) = Some (f, s', l')" for s l f s' l'
  proof (cases "in_training s")
    case True
    obtain t' where "note_bigrams (selected_mutators l) (finds_per_mutator s) = Some t'" "matrix_ok t'"
      using note_bigrams_counts [of "finds_per_mutator s" "selected_mutators l"] b sel by (auto simp: bandit_ok_def mut_max_def)
    then show ?thesis using run b True by (auto simp: learn_def bandit_ok_def)
  next
    case False
    then show ?thesis using run note_stack_result [OF b n] by (auto simp: learn_def)
  qed
  then show ?thesis
    using bandit_ok_start [OF assms] bandit_ok_end_training bandit_ok_decay by blast
qed

lemma learning_well_formed_witness: "bandit_ok (start_training sample_world (init_learning sample_state))"
  using learning_well_formed [of sample_state sample_world] by (simp add: sample_state_def)

text \<open>
  C8: The end of training is faithful to the finds. Take a row of the matrix of finds that is
  not all zero, with \<open>F\<close> finds for the pair and \<open>S\<close> in the row. Drawing from the row's alias
  table gives the second mutator with a probability from
  \<open>F / (S + epsilon)\<close> to \<open>(F + epsilon) / (S + epsilon)\<close>, where \<open>epsilon\<close> is the
  code's regularisation constant. (The tables built always lack the little that the
  regularisation takes away; it is given to the last slots.)
\<close>

theorem training_faithful:
  fixes w :: world
  assumes "matrix_ok (finds_per_mutator s)" and "i < mut_max" and "k < mut_max"
    and "sum_list (map unat (finds_per_mutator s ! i)) \<noteq> 0"
  defines "F \<equiv> of_nat (unat (finds_per_mutator s ! i ! k)) :: rat"
    and "S \<equiv> of_nat (sum_list (map unat (finds_per_mutator s ! i))) :: rat"
    and "t \<equiv> \<lparr>t_prob = prob_table_mut (finish_training w s) ! i,
      t_alias = map unat (alias_table_mut (finish_training w s) ! i)\<rparr>"
  shows "F / (S + epsilon) \<le> drawn t k / of_nat mut_max \<and> drawn t k / of_nat mut_max \<le> (F + epsilon) / (S + epsilon)"
  unfolding t_def F_def S_def by (rule finish_training_drawn [OF assms(1-4)])

lemma training_faithful_witness:
  "1 / (32 + epsilon) \<le> drawn \<lparr>t_prob = prob_table_mut (finish_training sample_world sample_state) ! 3,
      t_alias = map unat (alias_table_mut (finish_training sample_world sample_state) ! 3)\<rparr> 4 / 32"
  using training_faithful [of sample_state 3 4 sample_world]
  by (simp add: sample_state_def matrix_ok_def mut_max_def sum_list_replicate)

section \<open>Trimming\<close>

text \<open>
  C11: Trimming ends, and what it leaves of an entry's input is a subsequence of it with the same
  first four bytes; if anything was cut, then the input that is left was run as it is and its
  trace had the checksum of the entry. A cached copy agrees with it, and so does the file,
  unless trimming was interrupted: then the file is still the old one.
\<close>

theorem trim_keeps_path:
  assumes "q < length (queue_buf s)" and "unat (q_len (entry s q)) = length b" and "length b \<le> MAX_FILE"
    and "testcase_buf (entry s q) \<in> {None, Some b}"
  shows "\<exists>f s' c. trim_case w q b s = Some (f, s') \<and> unat (q_len (entry s' q)) = length c \<and>
    subseq c b \<and> take 4 c = take 4 b \<and> (c \<noteq> b \<longrightarrow> same_path w q s (delivered s') c) \<and>
    (\<forall>m. testcase_buf (entry s' q) = Some m \<longrightarrow> take (length c) m = c) \<and>
    q_file (entry s' q) = (if c \<noteq> b \<and> \<not> stop_soon s' \<and> f \<noteq> FSRV_RUN_ERROR then c else q_file (entry s q))"
proof -
  have t: "testcase_buf (entry s q) = None \<or> testcase_buf (entry s q) = Some b" using assms(4) by simp
  have all: "take (length b) b = b" by simp
  obtain f s' c where r: "trim_case w q b s = Some (f, s')" "unat (q_len (entry s' q)) = length c" "length c \<le> length b"
      "subseq c b" "take 4 c = take 4 b" "length c < length b \<longrightarrow> same_path w q s (delivered s') c"
      "case testcase_buf (entry s' q) of None \<Rightarrow> testcase_buf (entry s q) = None | Some m \<Rightarrow> testcase_buf (entry s q) \<noteq> None \<and> take (length c) m = c"
      "if length c < length b \<and> \<not> stop_soon s' \<and> f \<noteq> FSRV_RUN_ERROR then q_file (entry s' q) = c
       else q_file (entry s' q) = q_file (entry s q)"
    using trim_case_result [OF assms(1) assms(2) [symmetric] assms(3) order_refl t, of w, unfolded all]
    by (elim exE conjE) (rule that, assumption+)
  have "length c < length b \<longleftrightarrow> c \<noteq> b"
    using r(3,4) subseq_same_length [of c b] by (auto simp: less_le)
  then show ?thesis using r by (intro exI [of _ f] exI [of _ s'] exI [of _ c]) (auto split: option.splits)
qed

lemma trim_keeps_path_witness:
  "let s = sample_state\<lparr>queue_buf := [sample_entry\<lparr>q_len := 16, q_file := replicate 16 65\<rparr>]\<rparr>; b = replicate 16 65
   in \<exists>f s' c. trim_case sample_world 0 b s = Some (f, s') \<and> unat (q_len (entry s' 0)) = length c \<and>
    subseq c b \<and> take 4 c = take 4 b \<and> (c \<noteq> b \<longrightarrow> same_path sample_world 0 s (delivered s') c) \<and>
    (\<forall>m. testcase_buf (entry s' 0) = Some m \<longrightarrow> take (length c) m = c) \<and>
    q_file (entry s' 0) = (if c \<noteq> b \<and> \<not> stop_soon s' \<and> f \<noteq> FSRV_RUN_ERROR then c else q_file (entry s 0))"
  unfolding Let_def by (rule trim_keeps_path) (simp_all add: entry_def sample_entry_def MAX_FILE_def)

section \<open>Scores and selection\<close>

text \<open>
  C16: A score is at most 100 times \<open>havoc_max_mult\<close> and, except in schedule COE and with
  MOpt, at least 1; computing it changes nothing but the entry's handicap.
\<close>

theorem score_bounds:
  assumes "calculate_score w q s = Some (p, s')"
  shows "p \<le> havoc_max_mult s * 100 \<and>
    (schedule s \<noteq> COE \<and> limit_time_sig s = 0 \<and> havoc_max_mult s * 100 \<noteq> 0 \<longrightarrow> 1 \<le> p) \<and>
    (\<exists>h. s' = upd_entry q (\<lambda>e. e\<lparr>handicap := h\<rparr>) s)"
  by (rule calculate_score_bounds [OF assms])

lemma score_bounds_witness:
  "\<exists>p s'. calculate_score sample_world 0 sample_state = Some (p, s') \<and> 1 \<le> p \<and> p \<le> 6400"
proof -
  obtain p s' where "calculate_score sample_world 0 sample_state = Some (p, s')"
    using calculate_score_dies [of sample_world 0 sample_state] by (fastforce simp: sample_state_def)
  with score_bounds [OF this] show ?thesis by (simp add: sample_state_def)
qed



text \<open>
  C12: After \<open>create_alias_table\<close>, drawing a slot of the table and then the slot or its alias
  gives every enabled entry with its share of the weights (in the schedules from RARE on: of the
  scores), and no disabled one. (Schedule MMOPT is left out, where the weights of the newest
  entries are doubled after they were added up.)
\<close>

theorem queue_drawn_by_weight:
  assumes "create_alias_table w s = Some s'" and "table_ready s" and "k < unat (queued_items s)"
  shows "drawn (queue_table s') k / of_nat (unat (queued_items s)) =
    (if disabled (entry s' k) then 0
     else table_weight s' (entry s' k) / sum_list (map (table_weight s') (active s')))"
  by (rule entry_share [OF assms])

lemma sample_table_ready: "table_ready sample_state"
  by (simp add: table_ready_def active_def sample_defs)

lemma sample_table:
  "\<exists>s'. create_alias_table sample_world sample_state = Some s' \<and> rand_seed s' = (1, 2, 3) \<and> queued_items s' = 1"
proof -
  obtain s1 P where "create_alias_table sample_world sample_state = Some (set_table P s1)" "score_frame sample_state s1"
    using create_alias_table_total [of sample_state sample_world] sample_table_ready by (auto simp: table_ready_def)
  moreover from this(2) obtain x where "s1 = sample_state\<lparr>queue_buf := x\<rparr>" by (auto simp: score_frame_def)
  ultimately show ?thesis by (simp add: set_table_def Let_def sample_state_def)
qed

lemma queue_drawn_by_weight_witness:
  "\<exists>s'. create_alias_table sample_world sample_state = Some s' \<and>
     drawn (queue_table s') 0 / of_nat (unat (queued_items sample_state)) =
    (if disabled (entry s' 0) then 0
     else table_weight s' (entry s' 0) / sum_list (map (table_weight s') (active s')))"
proof -
  obtain s' where "create_alias_table sample_world sample_state = Some s'" using sample_table by blast
  with queue_drawn_by_weight [OF this sample_table_ready, of 0] show ?thesis by (simp add: sample_state_def)
qed

text \<open>
  C14: Right after the table was made, the entry \<open>select_next_queue_entry\<close> picks exists and
  is enabled, for every 64-bit draw below the largest one (whose quotient is 1: then the unused
  alias of a full slot may be taken).
\<close>

theorem disabled_never_selected:
  assumes "create_alias_table w s = Some s1" and "table_ready s"
    and "rand_below w (queued_items s1) s1 = Some (i, s2)" and "rand_next_percent s2 = (p, s3)" and "p < 1"
  shows "\<exists>k. select_next_queue_entry w s1 = Some (k, s3) \<and> k < queued_items s1 \<and> \<not> disabled (entry s1 (unat k))"
  by (rule selected_is_active [OF assms])

lemma disabled_never_selected_witness:
  "\<exists>s1 k s3. create_alias_table sample_world sample_state = Some s1 \<and>
     select_next_queue_entry sample_world s1 = Some (k, s3) \<and> k < queued_items s1 \<and> \<not> disabled (entry s1 (unat k))"
proof -
  obtain s1 where s1: "create_alias_table sample_world sample_state = Some s1" "rand_seed s1 = (1, 2, 3)" "queued_items s1 = 1"
    using sample_table by blast
  have r: "rand_below sample_world (queued_items s1) s1 = Some (0, s1)" by (simp add: rand_below_def s1)
  obtain p s3 where p: "rand_next_percent s1 = (p, s3)" by (cases "rand_next_percent s1")
  have "p = 1 / of_nat (2 ^ 64 - 1)" using p by (simp add: rand_next_percent_def rand_next_def s1(2))
  then have "p < 1" by simp
  from disabled_never_selected [OF s1(1) sample_table_ready r p this] show ?thesis using s1(1) by blast
qed

section \<open>Skipping\<close>

lemma sample_worth_it:
  "fst (should_det_fuzz sample_world 0 (sample_state\<lparr>queue_buf := [sample_entry\<lparr>favored := True, trace_mini := Some (replicate 8 0)\<rparr>]\<rparr>))"
proof -
  have "covers (replicate 8 0) i = False" if "i < 64" for i
    using that by (simp add: covers_def)
  then have "det_bits (replicate 8 0) s = []" if "map_size s = 64" for s
    using that by (auto simp: det_bits_def filter_empty_conv)
  then show ?thesis
    by (simp add: should_det_fuzz_def lower_threshold_def get_cur_time_def entry_def sample_defs Let_def THRESHOLD_DEC_TIME_def)
qed

text \<open>
  C13: Whichever way \<open>skip_deterministic_stage\<close> ends, the queue and what was learnt stay
  sound, and only inputs of 1 to \<open>MAX_FILE\<close> bytes were given to the target. If it ends with 1,
  the buffer is the input again, and when it ran (without \<open>FUZZ_NEARBY\<close>) the map it leaves
  marks only bytes that were really tried alone.
\<close>

theorem skip_stage_tests_bytes:
  assumes "settled (D, n) s" and "mutable b" and "unat n = length b"
  shows "case skip_deterministic_stage w (common_fuzz_stuff w) b b (length b) t s of None \<Rightarrow> True
    | Some (f, out, s') \<Rightarrow> settled (D, n) s' \<and> f \<in> {Next, Return_zero, Fatal} \<and>
       (f = Next \<longrightarrow> out = b \<and>
         (\<not> done_eff (cur s) \<and> fst (should_det_fuzz w (queue_cur s) s) \<and> \<not> fuzz_nearby w \<longrightarrow>
           (\<exists>m. skip_eff_map (cur s') = Some m \<and>
             (\<forall>i < length b. m ! i \<noteq> 0 \<longrightarrow> (\<exists>x. x \<noteq> b ! i \<and> b[i := x] \<in> set (delivered s'))))))"
  using havoc.skip_deterministic_stage_result [OF _ assms(1,2)] assms(3)
  by (fastforce simp: tested_def eff_of_def split: option.split)

lemma skip_stage_tests_bytes_witness:
  "let s = sample_state\<lparr>queue_buf := [sample_entry\<lparr>favored := True, trace_mini := Some (replicate 8 0)\<rparr>]\<rparr>; b = [65, 66]
   in fst (should_det_fuzz sample_world 0 s) \<and>
     (case skip_deterministic_stage sample_world (common_fuzz_stuff sample_world) b b (length b) 0 s of None \<Rightarrow> True
    | Some (f, out, s') \<Rightarrow> settled ({}, 2) s' \<and> f \<in> {Next, Return_zero, Fatal} \<and>
       (f = Next \<longrightarrow> out = b \<and>
         (\<not> done_eff (cur s) \<and> fst (should_det_fuzz sample_world (queue_cur s) s) \<and> \<not> fuzz_nearby sample_world \<longrightarrow>
           (\<exists>m. skip_eff_map (cur s') = Some m \<and>
             (\<forall>i < length b. m ! i \<noteq> 0 \<longrightarrow> (\<exists>x. x \<noteq> b ! i \<and> b[i := x] \<in> set (delivered s')))))))"
  unfolding Let_def
  by (rule conjI [OF sample_worth_it], rule skip_stage_tests_bytes)
    (simp_all add: HAVOC_MAX_MULT_def settled_def queue_ok_def sources_ok_def sizes_ok_def entries_ok_def entry_ok_def tokens_ok_def
      bandit_ok_def matrix_ok_def sample_defs MAX_FILE_def entry_def dicts_ok_def dict_ok_def by_length_def mutable_def)

section \<open>A whole turn\<close>

lemma sample_fit: "fit {} sample_state"
  using sample_settled by (simp add: fit_def entry_def sample_state_def sample_entry_def)

text \<open>
  C6: One whole turn at a queue entry (skipping it or not, fetching the input, calibrating it
  again, trimming, scoring, analysing its bytes, the deterministic stages, havoc and splicing,
  with the real \<open>common_fuzz_stuff\<close> throughout) keeps the fuzzer sound, with
  \<^verbatim>\<open>AFL_KEEP_TIMEOUTS\<close> off and the limits on the length of inputs at their defaults: only inputs of
  1 to \<open>MAX_FILE\<close> bytes are added to what the target was given, every queue entry keeps the bytes
  its length promises and a score within the limit, and the dictionaries and learnt tables stay
  well-formed. If the turn ends,
  it ends normally or in one of the program's own \<^verbatim>\<open>FATAL\<close>s; in particular no access of the havoc
  stage, its mutators and the splicing fails its check. Nothing is said of accesses elsewhere,
  which the model does not check.
\<close>

theorem fuzz_one_sound:
  assumes "fit D s" and "D \<subseteq> Collect mutable"
  shows "wp True (\<lambda>s. map_option (\<lambda>(f, r, s'). (f, s')) (fuzz_one w s))
    (\<lambda>f s'. (f = Next \<or> f = Fatal) \<and> fit D s' \<and> D \<subseteq> set (delivered s') \<and> (\<forall>b\<in>set (delivered s'). mutable b)) s"
proof (cases "fuzz_one w s")
  case (Some x)
  obtain f r s' where x: "x = (f, r, s')" by (cases x)
  have s': "fit D s'" "f = Next \<or> f = Fatal" using fuzz_one_fit [OF assms Some [unfolded x]] by simp_all
  then have "set (delivered s') \<subseteq> Collect mutable" "D \<subseteq> set (delivered s')"
    using assms(2) by (auto simp: fit_def settled_def)
  then show ?thesis using s' by (auto simp: wp_def Some x)
qed (simp add: wp_def)

lemma fuzz_one_sound_witness:
  "wp True (\<lambda>s. map_option (\<lambda>(f, r, s'). (f, s')) (fuzz_one sample_world s))
    (\<lambda>f s'. (f = Next \<or> f = Fatal) \<and> fit {} s' \<and> {} \<subseteq> set (delivered s') \<and> (\<forall>b\<in>set (delivered s'). mutable b)) sample_state"
  by (rule fuzz_one_sound [OF sample_fit]) simp

text \<open>
  C23: A defect. A pending favored entry that has not been given a score yet, as a new entry has
  not, is taken and, when there is another active entry, given up for its score: neither the
  deterministic stages nor the havoc stage are run on it, but the entry counts as fuzzed and is no
  longer pending. The theorem takes an entry with nothing left to trim (trimmed before, trimming
  switched off, or a target without instrumentation), so that nothing at all is given to the
  target; where trimming is due, \<open>trim_case\<close> runs the target before the score is looked at. The
  entry is also supposed to be calibrated, enabled and not fuzzed before, its input to be in
  memory (or the cache off), and the scores not to be computed on the spot
  (\<open>old_seed_selection\<close> off).
\<close>

theorem unscored_given_up:
  assumes "perf_score (cur s) = 0" and "1 < active_items s" and "\<not> old_seed_selection s"
    and "queue_cur s < length (queue_buf s)" and "pending_favored s \<noteq> 0" and "favored (cur s)"
    and "fuzz_level (cur s) = 0" and "cal_failed (cur s) = 0" and "\<not> was_fuzzed (cur s)" and "\<not> disabled (cur s)"
    and "trim_done (cur s) \<or> disable_trim s \<or> non_instrumented_mode s"
    and "testcase_buf (cur s) \<noteq> None \<or> q_testcase_max_cache_size s = 0" and "\<not> stop_soon s"
  shows "\<exists>s'. fuzz_one w s = Some (Next, True, s') \<and> delivered s' = delivered s \<and> was_fuzzed (cur s') \<and>
    fuzz_level (cur s') = 1 \<and> pending_favored s' = pending_favored s - 1"
  by (rule fuzz_one_unscored) (use assms in \<open>auto simp: untouched_def at_hand_def Let_def\<close>)

lemma unscored_given_up_witness:
  "let s = sample_state\<lparr>queue_buf := [sample_entry\<lparr>favored := True, trim_done := True, perf_score := 0\<rparr>, sample_entry],
     queued_items := 2, active_items := 2, pending_favored := 1\<rparr>
   in \<exists>s'. fuzz_one sample_world s = Some (Next, True, s') \<and> delivered s' = delivered s \<and> was_fuzzed (cur s') \<and>
     fuzz_level (cur s') = 1 \<and> pending_favored s' = pending_favored s - 1"
  unfolding Let_def
  by (rule unscored_given_up) (simp_all add: entry_def sample_defs)

section \<open>The queue during a campaign\<close>

text \<open>
  C10: Running an input never shortens the queue nor changes the length of an entry's input, and
  keeps the queue sound: every entry's file and cached copy hold at least the bytes its length
  claims, and no entry is longer than \<open>MAX_FILE\<close>.
\<close>

theorem queue_stays_sound:
  assumes "common_fuzz_stuff w b n s = Some (v, s')" and "length_ok n s" and "n \<le> length b" and "n \<le> MAX_FILE"
    and "queue_inv s"
  shows "queue_inv s' \<and> length (queue_buf s) \<le> length (queue_buf s') \<and>
    (\<forall>q < length (queue_buf s). q_len (entry s' q) = q_len (entry s q))"
  using common_fuzz_stuff_grows [OF assms(1-4)] assms(5) by (simp add: grows_def q_kept_def)

lemma queue_stays_sound_witness:
  "\<exists>v s'. common_fuzz_stuff sample_world [1, 2] 2 sample_state = Some (v, s') \<and> queue_inv s'"
proof -
  have "\<not> keep_timeouts sample_state" by (simp add: sample_state_def)
  then obtain v s' where "common_fuzz_stuff sample_world [1, 2] 2 sample_state = Some (v, s')"
    using runner.cfs_total [of sample_world "[1, 2]" 2 sample_state] by fastforce
  moreover have "queue_inv sample_state"
    using sample_settled by (simp add: settled_def queue_ok_def sources_ok_def queue_inv_def)
  ultimately show ?thesis
    using queue_stays_sound [of sample_world "[1, 2]" 2 sample_state v s']
    by (simp add: length_ok_def sample_state_def MAX_FILE_def)
qed

section \<open>Running the target\<close>

text \<open>
  C2: \<open>common_fuzz_stuff\<close> returns whenever \<^verbatim>\<open>AFL_KEEP_TIMEOUTS\<close> is off; given an input
  within the length limits it gives the target that input, possibly repeatedly, and no other;
  and the stage counters, the dictionaries and the settings come back as they were, although
  calibration uses the counters for itself.
\<close>

theorem common_fuzz_stuff_contract:
  assumes "length_ok n s" and "\<not> keep_timeouts s"
  shows "\<exists>v s'. common_fuzz_stuff w out n s = Some (v, s') \<and> stage_frame s s' \<and>
    set (delivered s') = insert (take n out) (set (delivered s))"
proof -
  obtain v s' where "common_fuzz_stuff w out n s = Some (v, s')"
    using runner.cfs_total [of w out n s] assms(2) by fastforce
  then show ?thesis using runner.cfs_frame runner.cfs_delivers assms(1) by blast
qed

lemma common_fuzz_stuff_contract_witness:
  "\<exists>v s'. common_fuzz_stuff sample_world [1, 2] 2 sample_state = Some (v, s') \<and> stage_frame sample_state s' \<and>
    set (delivered s') = insert (take 2 [1, 2]) (set (delivered sample_state))"
  by (rule common_fuzz_stuff_contract) (simp_all add: length_ok_def sample_state_def)

text \<open>
  C24: Calibration always returns, never through the fatal branch that the code guards with
  "pretty sure this cannot happen", and gives the stage name and counters back.
\<close>

theorem calibrate_case_total:
  "\<exists>res s'. calibrate_case w q mem hc fq s = Some (Next, res, s') \<and> stage_frame s s'"
  using calibrate_case_returns [of w q mem hc fq s] by (auto simp: run_frame_def)

text \<open>
  C22: A defect. In non-instrumented mode with \<^verbatim>\<open>AFL_KEEP_TIMEOUTS\<close>, an input that timed
  out and, rerun with the larger timeout, neither times out nor crashes makes
  \<open>save_if_interesting\<close> queue it again and again: it does not return (its model has no value,
  or the one of a fatal error).
\<close>

theorem save_if_interesting_stuck:
  assumes "non_instrumented_mode s" and "keep_timeouts s" and "\<not> ignore_timeouts s"
    and "exec_tmout s < hang_tmout s" and "saved_hangs s < KEEP_UNIQUE_HANG"
    and "crash_mode s \<noteq> FSRV_RUN_TMOUT" and "len \<noteq> 0"
    and "\<And>h b. out_fault (target w h b (hang_tmout s)) \<notin> {FSRV_RUN_TMOUT, FSRV_RUN_CRASH}"
  shows "\<nexists>n s'. save_if_interesting w mem len FSRV_RUN_TMOUT s = Some (True, n, s')"
  using save_if_interesting_forever [of w s _ len mem] assms by (auto simp: keeps_forever_def)

lemma save_if_interesting_stuck_witness:
  "\<nexists>n s'. save_if_interesting sample_world [1] 1 FSRV_RUN_TMOUT
     (sample_state\<lparr>non_instrumented_mode := True, keep_timeouts := True, hang_tmout := 2000\<rparr>) = Some (True, n, s')"
  by (rule save_if_interesting_stuck) (simp_all add: sample_defs KEEP_UNIQUE_HANG_def)

section \<open>The queue\<close>

text \<open>
  C4: Called for any entry and with any trace, \<open>update_bitmap_score\<close> keeps the counts of
  \<open>top_rated\<close> exact: every entry's reference count is the number of bytes it holds, and it has
  a map of its own exactly while it holds one (for a map of coverage whose size is a multiple of 8
  below \<^verbatim>\<open>2^32\<close>, which both predicates include). That every map also contains all the bytes its
  entry holds is kept only under a condition, since the code makes no new map for an entry that
  has one: the map the entry has, if any, must contain the bytes the trace hits. It has none
  when \<open>calibrate_case\<close> first calls; \<open>trim_case\<close> calls with the trace of a run whose checksum is
  the one calibration stored; the loop over all entries after a change of the schedule does not
  ensure it.
\<close>

theorem update_bitmap_score_invariant:
  assumes q: "q < length (queue_buf s)"
  shows "(counted_ok s \<longrightarrow> counted_ok (update_bitmap_score q s)) \<and>
    (rated_ok s \<longrightarrow> (\<forall>m i. trace_mini (entry s q) = Some m \<longrightarrow> i < map_size s \<longrightarrow>
        trace_bits s ! i \<noteq> 0 \<longrightarrow> bit (m ! (i div 8)) (i mod 8)) \<longrightarrow>
      rated_ok (update_bitmap_score q s))"
  using update_bitmap_score_rated_ok [OF _ q] by (simp add: mini_covers_def)

lemma update_bitmap_score_invariant_witness:
  "counted_ok (update_bitmap_score 0 sample_state) \<and>
   rated_ok (update_bitmap_score 0 (update_bitmap_score 0 sample_state))"
proof -
  let ?s = "update_bitmap_score 0 sample_state"
  have q: "0 < length (queue_buf sample_state)" by (simp add: sample_state_def)
  have none: "trace_mini (entry sample_state 0) = None" by (simp add: entry_def sample_defs)
  have q': "0 < length (queue_buf ?s)"
    using q unfolding contest_frameD(3) [OF update_bitmap_score_frame] .
  have "mini_covers ?s 0"
    by (rule update_bitmap_score_covers [OF sample_rated_ok q]) (simp_all add: mini_covers_def none)
  moreover have "rated_ok ?s"
    using update_bitmap_score_invariant [OF q] sample_rated_ok none by simp
  ultimately show ?thesis
    using update_bitmap_score_invariant [OF q'] update_bitmap_score_invariant [OF q] sample_counted_ok
    by (simp add: mini_covers_def)
qed

text \<open>
  C21: Who holds a byte of the map after the contest: bytes the trace does not hit keep their
  holder, free ones go to the challenger, and an old holder stays exactly if the challenger
  has been fuzzed more often or is slower and larger.
\<close>

theorem update_bitmap_score_result:
  assumes "counted_ok s" and "q < length (queue_buf s)" and "i < map_size s"
  shows "top_rated (update_bitmap_score q s) ! i =
    (if trace_bits s ! i = 0 then top_rated s ! i
     else case top_rated s ! i of
       None \<Rightarrow> Some q
     | Some t \<Rightarrow>
         if fuzz_p2 s (entry s q) > fuzz_p2 s (entry s t) \<or> fav_factor s (entry s q) > fav_factor s (entry s t)
         then Some t else Some q)"
  by (rule update_bitmap_score_winner [OF assms])

lemma update_bitmap_score_result_witness: "top_rated (update_bitmap_score 0 sample_state) ! 0 = Some 0"
proof -
  have "top_rated (update_bitmap_score 0 sample_state) ! 0 =
    (if trace_bits sample_state ! 0 = 0 then top_rated sample_state ! 0
     else case top_rated sample_state ! 0 of
       None \<Rightarrow> Some 0
     | Some t \<Rightarrow>
         if fuzz_p2 sample_state (entry sample_state 0) > fuzz_p2 sample_state (entry sample_state t) \<or>
            fav_factor sample_state (entry sample_state 0) > fav_factor sample_state (entry sample_state t)
         then Some t else Some 0)"
    by (rule update_bitmap_score_result [OF sample_counted_ok]) (simp_all add: entry_def sample_defs)
  then show ?thesis by (simp add: sample_state_def)
qed



section \<open>The coverage maps\<close>

text \<open>
  C25: \<open>has_new_bits\<close> word by word is what it means byte by byte: 2 if a byte hit was never
  hit before, else 1 if some hit-count class is new, else 0; every class seen is erased from
  the virgin map and nothing else is.
\<close>

theorem has_new_bits_spec:
  assumes "map_ok s"
  shows "has_new_bits vm s =
    (let n = 8 * words64 s; ret = new_cov (trace_bits s) (get_virgin vm s) n;
         s' = set_virgin vm (erase (trace_bits s) (get_virgin vm s) n) s
     in (ret, if ret \<noteq> 0 \<and> vm = Virgin_bits then s'\<lparr>bitmap_changed := True\<rparr> else s'))"
  by (rule has_new_bits_eq [OF assms])

lemma has_new_bits_spec_witness:
  "fst (has_new_bits Virgin_bits sample_state) = 2"
  by (simp only: has_new_bits_spec [OF sample_map_ok] Let_def fst_conv)
    (auto simp: new_cov_def words64_def sample_state_def intro!: exI [of _ 0])

text \<open>C39: Asked again about the same trace, \<open>has_new_bits\<close> reports nothing.\<close>

theorem has_new_bits_idempotent:
  assumes "map_ok s"
  shows "fst (has_new_bits vm (snd (has_new_bits vm s))) = 0"
  by (rule has_new_bits_twice [OF assms])

lemma has_new_bits_idempotent_witness:
  "fst (has_new_bits Virgin_bits (snd (has_new_bits Virgin_bits sample_state))) = 0"
  by (rule has_new_bits_idempotent [OF sample_map_ok])

text \<open>
  C26: The fast path is equivalent to classifying first: \<open>has_new_bits_unclassified\<close> gives
  the answer of \<open>has_new_bits\<close> on the classified trace, and when that is 0 it leaves the
  state untouched.
\<close>

theorem unclassified_equivalent:
  assumes "map_ok s" and "trace_tail_clear s"
  shows "has_new_bits_unclassified vm s =
    (if fst (has_new_bits vm (classify_counts s)) = 0 then (0, s)
     else has_new_bits vm (classify_counts s))"
  by (rule has_new_bits_unclassified_eq [OF assms])

lemma unclassified_equivalent_witness:
  "has_new_bits_unclassified Virgin_bits sample_state =
    (if fst (has_new_bits Virgin_bits (classify_counts sample_state)) = 0 then (0, sample_state)
     else has_new_bits Virgin_bits (classify_counts sample_state))"
  by (rule unclassified_equivalent [OF sample_map_ok])
    (simp add: trace_tail_clear_def words64_def sample_state_def)

text \<open>
  C31: Classifying through the 16-bit lookup table that \<open>init_count_class16\<close> fills is
  classifying every byte of the map.
\<close>

theorem classify_counts_bytewise:
  assumes "map_ok s"
  shows "trace_bits (classify_counts s) = map count_class_lookup8 (trace_bits s)"
  by (rule trace_bits_classify_counts [OF assms])

lemma classify_counts_bytewise_witness:
  "trace_bits (classify_counts sample_state) = map count_class_lookup8 (trace_bits sample_state)"
  by (rule classify_counts_bytewise [OF sample_map_ok])

text \<open>C37: \<open>simplify_trace\<close> maps every byte to 128 if it was hit and to 1 if not.\<close>

theorem simplify_trace_bytewise:
  assumes "map_ok s" and "length b = map_size s"
  shows "simplify_trace s b = map simplify_lookup b"
  by (rule simplify_trace_eq [OF assms])

lemma simplify_trace_bytewise_witness:
  "simplify_trace sample_state (replicate 64 3) = map simplify_lookup (replicate 64 3)"
  by (rule simplify_trace_bytewise [OF sample_map_ok]) (simp add: sample_state_def)

text \<open>C38: \<open>minimize_bits\<close> sets exactly the bits of the bytes that were hit.\<close>

theorem minimize_bits_bitwise:
  assumes "map_size s \<le> 8 * length dst" and "j < map_size s"
  shows "bit (minimize_bits s dst src ! (j div 8)) (j mod 8) \<longleftrightarrow>
    bit (dst ! (j div 8)) (j mod 8) \<or> src ! j \<noteq> 0"
  by (rule bit_minimize_bits [OF assms])

lemma minimize_bits_bitwise_witness:
  "bit (minimize_bits sample_state (replicate 8 0) (replicate 64 1) ! (3 div 8)) (3 mod 8) \<longleftrightarrow>
    bit (replicate 8 (0 :: u8) ! (3 div 8)) (3 mod 8) \<or> replicate 64 (1 :: u8) ! 3 \<noteq> 0"
  by (rule minimize_bits_bitwise) (simp_all add: sample_state_def)

section \<open>Random numbers\<close>

text \<open>C35: \<open>rand_below\<close> stays below its limit and changes nothing but the generator.\<close>

theorem rand_below_bounds:
  assumes "rand_below w limit s = Some (r, s')" and "0 < limit"
  shows "r < limit \<and> rng_only s s'"
  using rand_below_less [OF assms] rand_below_result [OF assms(1)] by simp

lemma rand_below_bounds_witness: "(0 :: u32) < 1 \<and> rng_only sample_state sample_state"
  by (rule rand_below_bounds [of sample_world 1 sample_state]) (simp_all add: rand_below_def)

text \<open>
  C34: The rejection limit leaves every result equally many preimages among the accepted
  64-bit draws, so \<open>rand_below\<close> is unbiased.
\<close>

theorem rand_below_fair:
  assumes "1 < limit" and "k < limit"
  shows "card {r :: u64. r < rand_limit limit \<and> (ucast (r mod ucast limit) :: u32) = k} =
    unat (rand_limit limit) div unat limit"
  by (rule rand_below_unbiased [OF assms])

lemma rand_below_fair_witness:
  "card {r :: u64. r < rand_limit 6 \<and> (ucast (r mod ucast (6 :: u32)) :: u32) = 4} =
    unat (rand_limit 6) div unat (6 :: u32)"
  by (rule rand_below_fair) simp_all

text \<open>C36: \<open>choose_block_len\<close> returns a length between 1 and the limit.\<close>

theorem choose_block_len_range:
  assumes "0 < limit"
  shows "case choose_block_len w limit s of None \<Rightarrow> True | Some (r, s') \<Rightarrow> 1 \<le> r \<and> r \<le> limit"
  using choose_block_len_bounds [OF _ assms] by (auto split: option.split)

lemma choose_block_len_range_witness:
  "case choose_block_len sample_world 10 sample_state of None \<Rightarrow> True | Some (r, s') \<Rightarrow> 1 \<le> r \<and> r \<le> 10"
  by (rule choose_block_len_range) simp

section \<open>Dictionaries\<close>

text \<open>
  C29: \<open>dedup_extras\<close> on a dictionary sorted by length removes exactly the duplicates: the
  tokens that remain are distinct, are the same set of strings, and are still sorted.
\<close>

theorem dedup_extras_exact:
  assumes "by_length xs" and "tokens_ok xs"
  shows "by_length (dedup_extras xs) \<and> distinct (map e_data (dedup_extras xs)) \<and>
    e_data ` set (dedup_extras xs) = e_data ` set xs"
  by (rule dedup_extras_spec [OF assms])

lemma dedup_extras_exact_witness:
  "let xs = [token [1, 2] 2, token [1, 2] 2, token [1, 3] 2]
   in by_length (dedup_extras xs) \<and> distinct (map e_data (dedup_extras xs)) \<and>
      e_data ` set (dedup_extras xs) = e_data ` set xs"
  unfolding Let_def
  by (rule dedup_extras_exact) (simp_all add: by_length_def tokens_ok_def token_def)

text \<open>
  C30: \<open>maybe_add_auto\<close> keeps the automatic dictionary well formed (bounded, tokens of
  bounded length, its used part sorted by length) and does not touch the user's; if it
  changes anything, the token is in the dictionary afterwards, up to case.
\<close>

theorem maybe_add_auto_invariant:
  assumes "maybe_add_auto w mem n s = Some s'" and "dict_ok s" and "n \<le> length mem"
  shows "dict_ok s' \<and> extras s' = extras s \<and> (s' = s \<or> auto_known mem n s')"
  by (rule maybe_add_auto_result [OF assms])

lemma maybe_add_auto_invariant_witness:
  "dict_ok sample_state \<and> extras sample_state = extras sample_state \<and>
     (sample_state = sample_state \<or> auto_known [7, 7, 7] 3 sample_state)"
  by (rule maybe_add_auto_invariant [of sample_world])
    (simp_all add: maybe_add_auto_def one_byte_run_def upt_rec dict_ok_def tokens_ok_def by_length_def sample_state_def)

text \<open>C40: De-unicoding a token that is an ASCII text in UTF-16LE adds that text.\<close>

theorem deunicode_roundtrip:
  assumes "0 \<notin> set t" and "3 \<le> length t" and "length t \<le> 32"
  shows "deunicode_one (token (utf16le t) (2 * length t)) xs = add_extra_nocheck t (length t) xs"
  by (rule deunicode_utf16 [OF assms])

lemma deunicode_roundtrip_witness:
  "deunicode_one (token (utf16le [71, 69, 84]) (2 * length [71, 69, 84 :: u8])) [] =
     add_extra_nocheck [71, 69, 84] (length [71, 69, 84 :: u8]) []"
  by (rule deunicode_roundtrip) simp_all

end
